(* ===== verification/Prelude.thy ===== *)
theory Prelude
  imports Main "HOL-Library.Word" "HOL-Library.Signed_Division" "HOL-Library.Monad_Syntax"
begin

unbundle bit_operations_syntax

text \<open>
  The shared vocabulary of the development: machine types, checked memory access, the parts of
  the C string library the sources use, big-endian byte packing, and generic lemmas.

  Behaviour that C leaves undefined (an access outside an object, a call through a null pointer)
  and calls that never return (a lock that is never released) are the value \<^term>\<open>None\<close> of the
  option monad. Error returns of the sources (\<open>-1\<close>, \<open>NULL\<close>) are ordinary values.
\<close>

named_theorems byte_simps \<open>evaluation of byte packing and unpacking\<close>
named_theorems cstr_simps \<open>the C string functions on concrete and structured strings\<close>

type_synonym byte = "8 word"
type_synonym u16 = "16 word"
type_synonym u32 = "32 word"
type_synonym u64 = "64 word"

subsection \<open>Signed 32-bit values\<close>

text \<open>
  \<open>s32 x\<close> is the value a 32-bit two's complement register holds for \<open>x\<close>. On the target of the
  program (32-bit ARM) both \<open>int\<close> and \<open>long\<close> have this width.
\<close>

definition s32 :: "int \<Rightarrow> int" where
  "s32 x = (x + 2 ^ 31) mod 2 ^ 32 - 2 ^ 31"

lemma s32_id [simp]: "- (2 ^ 31) \<le> x \<Longrightarrow> x < 2 ^ 31 \<Longrightarrow> s32 x = x"
  by (simp add: s32_def)

lemma s32_range: "- (2 ^ 31) \<le> s32 x \<and> s32 x < 2 ^ 31"
  by (simp add: s32_def)

lemma s32_s32 [simp]: "s32 (s32 x) = s32 x"
  by (simp add: s32_def)

lemma s32_add_left [simp]: "s32 (s32 x + y) = s32 (x + y)"
  unfolding s32_def by (simp add: algebra_simps mod_simps)

lemma s32_diff_left [simp]: "s32 (s32 x - y) = s32 (x - y)"
  unfolding s32_def by (simp add: algebra_simps mod_simps)

lemma s32_mult_left [simp]: "s32 (s32 x * y) = s32 (x * y)"
proof -
  have "(((x + 2 ^ 31) mod 2 ^ 32 - 2 ^ 31) * y + 2 ^ 31) mod 2 ^ 32 = (x * y + 2 ^ 31) mod (2 ^ 32 :: int)"
    by (metis (no_types, opaque_lifting) add_diff_cancel_right' mod_add_left_eq mod_diff_left_eq mod_mult_left_eq)
  then show ?thesis unfolding s32_def by simp
qed

lemma sdiv_pos: "0 \<le> a \<Longrightarrow> 0 < b \<Longrightarrow> a sdiv b = a div (b :: int)"
  by (cases "a = 0") (auto simp: signed_divide_int_def)

subsection \<open>Checked array access\<close>

definition rd :: "'a list \<Rightarrow> nat \<Rightarrow> 'a option" where
  "rd xs i = (if i < length xs then Some (xs ! i) else None)"

definition wr :: "'a list \<Rightarrow> nat \<Rightarrow> 'a \<Rightarrow> 'a list option" where
  "wr xs i x = (if i < length xs then Some (xs[i := x]) else None)"

lemma rd_in [simp]: "i < length xs \<Longrightarrow> rd xs i = Some (xs ! i)"
  by (simp add: rd_def)

lemma rd_out [simp]: "length xs \<le> i \<Longrightarrow> rd xs i = None"
  by (simp add: rd_def)

lemma rd_eq_Some_iff: "rd xs i = Some x \<longleftrightarrow> i < length xs \<and> xs ! i = x"
  by (auto simp: rd_def)

lemma rd_append: "rd (xs @ ys) (length xs + k) = rd ys k"
  by (simp add: rd_def nth_append)

lemma wr_in [simp]: "i < length xs \<Longrightarrow> wr xs i x = Some (xs[i := x])"
  by (simp add: wr_def)

lemma wr_out [simp]: "length xs \<le> i \<Longrightarrow> wr xs i x = None"
  by (simp add: wr_def)

lemma wr_eq_Some_iff: "wr xs i x = Some ys \<longleftrightarrow> i < length xs \<and> ys = xs[i := x]"
  by (auto simp: wr_def)

lemma drop_list_update_le: "i < n \<Longrightarrow> drop n (xs[i := x]) = drop n xs"
  by (simp add: drop_update_cancel)

lemma take_list_update_ge: "n \<le> i \<Longrightarrow> take n (xs[i := x]) = take n xs"
  by (simp add: take_update_cancel)

subsection \<open>Results of system calls\<close>

text \<open>
  What \<open>read\<close>, \<open>write\<close> and \<open>send\<close> return: a byte count (0 for end of file), \<open>-1\<close> with
  \<open>errno == EAGAIN\<close>, or \<open>-1\<close> with any other error. The environment chooses it; operations that
  call the system take it as an argument.
\<close>

datatype sys_ret = Ret nat | Eagain | Fail

subsection \<open>Characters and C strings\<close>

definition NUL :: char where "NUL = CHR 0x00"
definition CR :: char where "CR = CHR 0x0D"
definition LF :: char where "LF = CHR 0x0A"
definition TAB :: char where "TAB = CHR 0x09"
definition SP :: char where "SP = CHR '' ''"
definition DQUOTE :: char where "DQUOTE = CHR 0x22"

abbreviation CRLF :: string where "CRLF \<equiv> [CR, LF]"

lemmas char_consts = NUL_def CR_def LF_def TAB_def SP_def DQUOTE_def

lemma char_consts_distinct [simp]:
  "NUL \<noteq> CR" "NUL \<noteq> LF" "NUL \<noteq> TAB" "NUL \<noteq> SP" "CR \<noteq> LF" "CR \<noteq> TAB" "CR \<noteq> SP"
  "LF \<noteq> TAB" "LF \<noteq> SP" "TAB \<noteq> SP"
  "CR \<noteq> NUL" "LF \<noteq> NUL" "TAB \<noteq> NUL" "SP \<noteq> NUL" "LF \<noteq> CR" "TAB \<noteq> CR" "SP \<noteq> CR"
  "TAB \<noteq> LF" "SP \<noteq> LF" "SP \<noteq> TAB"
  by (simp_all add: char_consts)

text \<open>The C string that starts at an offset of a buffer; \<^term>\<open>None\<close> when it is not terminated.\<close>

definition cstr_at :: "string \<Rightarrow> nat \<Rightarrow> string option" where
  "cstr_at buf off =
     (if NUL \<in> set (drop off buf) then Some (takeWhile (\<lambda>c. c \<noteq> NUL) (drop off buf)) else None)"

definition tolower :: "char \<Rightarrow> char" where
  "tolower c = (let n = of_char c :: nat in if 65 \<le> n \<and> n \<le> 90 then char_of (n + 32) else c)"

definition isdigit :: "char \<Rightarrow> bool" where
  "isdigit c = (let n = of_char c :: nat in 48 \<le> n \<and> n \<le> 57)"

definition digit_val :: "char \<Rightarrow> nat" where
  "digit_val c = of_char c - 48"

text \<open>\<open>!strcasecmp(a, b)\<close>, \<open>!strncmp(a, b, n)\<close> and \<open>!strncasecmp(a, b, n)\<close> on terminated strings.\<close>

definition strcaseeq :: "string \<Rightarrow> string \<Rightarrow> bool" where
  "strcaseeq a b = (map tolower a = map tolower b)"

definition strneq :: "string \<Rightarrow> string \<Rightarrow> nat \<Rightarrow> bool" where
  "strneq a b n = (take n a = take n b)"

definition strncaseeq :: "string \<Rightarrow> string \<Rightarrow> nat \<Rightarrow> bool" where
  "strncaseeq a b n = (map tolower (take n a) = map tolower (take n b))"

lemma strcaseeq_refl [simp]: "strcaseeq a a"
  by (simp add: strcaseeq_def)

lemma strcaseeq_sym: "strcaseeq a b \<longleftrightarrow> strcaseeq b a"
  by (auto simp: strcaseeq_def)

lemma strcaseeq_trans: "strcaseeq a b \<Longrightarrow> strcaseeq b c \<Longrightarrow> strcaseeq a c"
  by (simp add: strcaseeq_def)

text \<open>\<open>strchr\<close>, \<open>strrchr\<close> and \<open>strstr\<close>: the suffix at the occurrence.\<close>

fun strchr :: "string \<Rightarrow> char \<Rightarrow> string option" where
  "strchr [] c = None"
| "strchr (x # xs) c = (if x = c then Some (x # xs) else strchr xs c)"

fun strrchr :: "string \<Rightarrow> char \<Rightarrow> string option" where
  "strrchr [] c = None"
| "strrchr (x # xs) c =
     (case strrchr xs c of Some s \<Rightarrow> Some s | None \<Rightarrow> if x = c then Some (x # xs) else None)"

fun strstr :: "string \<Rightarrow> string \<Rightarrow> string option" where
  "strstr [] p = (if p = [] then Some [] else None)"
| "strstr (x # xs) p =
     (if take (length p) (x # xs) = p then Some (x # xs) else strstr xs p)"

lemma strchr_suffix: "strchr s c = Some t \<Longrightarrow> \<exists>p. s = p @ t \<and> c \<notin> set p \<and> t \<noteq> [] \<and> hd t = c"
proof (induction s)
  case (Cons x xs)
  show ?case
  proof (cases "x = c")
    case True
    with Cons.prems show ?thesis by (auto intro: exI [of _ "[]"])
  next
    case False
    with Cons obtain p where "xs = p @ t \<and> c \<notin> set p \<and> t \<noteq> [] \<and> hd t = c" by auto
    with False show ?thesis by (auto intro: exI [of _ "x # p"])
  qed
qed simp

lemma strchr_None: "strchr s c = None \<longleftrightarrow> c \<notin> set s"
  by (induction s) auto

lemma strrchr_None: "strrchr s c = None \<longleftrightarrow> c \<notin> set s"
  by (induction s) (auto split: option.splits)

lemma strstr_Some: "strstr s p = Some t \<Longrightarrow> \<exists>u v. s = u @ t \<and> t = p @ v"
proof (induction s)
  case Nil
  then show ?case by (simp split: if_splits)
next
  case (Cons x xs)
  show ?case
  proof (cases "take (length p) (x # xs) = p")
    case True
    with Cons.prems have "t = x # xs" by simp
    with True have "t = p @ drop (length p) (x # xs)" by (metis append_take_drop_id)
    with \<open>t = x # xs\<close> show ?thesis by blast
  next
    case False
    with Cons obtain u v where "xs = u @ t \<and> t = p @ v" by auto
    then have "x # xs = (x # u) @ t \<and> t = p @ v" by simp
    then show ?thesis by blast
  qed
qed

subsection \<open>Decimal numbers\<close>

text \<open>\<open>sprintf("%d")\<close> for non-negative and signed arguments.\<close>

definition digit_char :: "nat \<Rightarrow> char" where
  "digit_char n = char_of (48 + n)"

fun show_nat :: "nat \<Rightarrow> string" where
  "show_nat n = (if n < 10 then [digit_char n] else show_nat (n div 10) @ [digit_char (n mod 10)])"

declare show_nat.simps [simp del]

definition show_int :: "int \<Rightarrow> string" where
  "show_int i = (if i < 0 then CHR ''-'' # show_nat (nat (- i)) else show_nat (nat i))"

text \<open>The digits \<open>strtol\<close> and \<open>atoi\<close> read: the longest prefix of digits, in base ten.\<close>

fun read_digits :: "nat \<Rightarrow> string \<Rightarrow> nat" where
  "read_digits acc [] = acc"
| "read_digits acc (c # cs) = (if isdigit c then read_digits (10 * acc + digit_val c) cs else acc)"

lemma isdigit_digit_char [simp]: "n < 10 \<Longrightarrow> isdigit (digit_char n)"
  by (simp add: isdigit_def digit_char_def)

lemma digit_val_digit_char [simp]: "n < 10 \<Longrightarrow> digit_val (digit_char n) = n"
  by (simp add: digit_val_def digit_char_def)

lemma show_nat_digits: "list_all isdigit (show_nat n)"
proof (induction n rule: show_nat.induct)
  case (1 n)
  then show ?case by (cases "n < 10") (simp_all add: show_nat.simps [of n])
qed

lemma show_nat_nonempty [simp]: "show_nat n \<noteq> []"
  by (subst show_nat.simps) simp

lemma read_digits_append:
  "list_all isdigit xs \<Longrightarrow> read_digits acc (xs @ ys) = read_digits (read_digits acc xs) ys"
  by (induction xs arbitrary: acc) auto

lemma read_digits_stop: "ys = [] \<or> \<not> isdigit (hd ys) \<Longrightarrow> read_digits acc ys = acc"
  by (cases ys) auto

lemma read_show_nat [simp]: "read_digits 0 (show_nat n) = n"
proof (induction n rule: show_nat.induct)
  case (1 n)
  show ?case
  proof (cases "n < 10")
    case True
    then show ?thesis by (simp add: show_nat.simps [of n])
  next
    case False
    with 1 have IH: "read_digits 0 (show_nat (n div 10)) = n div 10" by simp
    show ?thesis
      using False
      by (simp add: show_nat.simps [of n] read_digits_append [OF show_nat_digits] IH)
  qed
qed

lemma length_show_nat_le: "0 < k \<Longrightarrow> n < 10 ^ k \<Longrightarrow> length (show_nat n) \<le> k"
proof (induction k arbitrary: n)
  case (Suc k)
  show ?case
  proof (cases "n < 10")
    case True
    then show ?thesis by (simp add: show_nat.simps [of n])
  next
    case False
    with Suc.prems have "0 < k" by (cases k) auto
    moreover from Suc.prems have "n div 10 < 10 ^ k" by (simp add: less_mult_imp_div_less)
    ultimately have "length (show_nat (n div 10)) \<le> k" by (rule Suc.IH)
    with False show ?thesis by (simp add: show_nat.simps [of n])
  qed
qed simp

subsection \<open>Bytes and big-endian packing\<close>

definition bytes_of :: "string \<Rightarrow> byte list" where
  "bytes_of s = map of_char s"

definition string_of :: "byte list \<Rightarrow> string" where
  "string_of bs = map (\<lambda>b. char_of (unat b)) bs"

text \<open>\<open>%x\<close>, \<open>%02x\<close> and \<open>%02X\<close> of \<open>printf\<close>, for the digits \<open>ds\<close>.\<close>

definition hex_lower :: string where "hex_lower = ''0123456789abcdef''"
definition hex_upper :: string where "hex_upper = ''0123456789ABCDEF''"

fun show_hex :: "string \<Rightarrow> nat \<Rightarrow> string" where
  "show_hex ds n = (if n < 16 then [ds ! n] else show_hex ds (n div 16) @ [ds ! (n mod 16)])"

declare show_hex.simps [simp del]

definition show_hex2 :: "string \<Rightarrow> nat \<Rightarrow> string" where
  "show_hex2 ds n = (if n < 16 then CHR ''0'' # show_hex ds n else show_hex ds n)"

lemma length_bytes_of [simp]: "length (bytes_of s) = length s"
  by (simp add: bytes_of_def)

lemma bytes_of_append [simp]: "bytes_of (s @ t) = bytes_of s @ bytes_of t"
  by (simp add: bytes_of_def)

text \<open>The macros \<open>PUT_16\<close>, \<open>PUT_32\<close>, \<open>GET_16\<close> and \<open>GET_32\<close> of rtp.h.\<close>

definition PUT_16 :: "'a::len word \<Rightarrow> byte list" where
  "PUT_16 v = [ucast (drop_bit 8 v AND 0xff), ucast (v AND 0xff)]"

definition PUT_32 :: "'a::len word \<Rightarrow> byte list" where
  "PUT_32 v = [ucast (drop_bit 24 v AND 0xff), ucast (drop_bit 16 v AND 0xff),
               ucast (drop_bit 8 v AND 0xff), ucast (v AND 0xff)]"

definition GET_16 :: "byte \<Rightarrow> byte \<Rightarrow> u32" where
  "GET_16 a b = push_bit 8 (ucast a) OR ucast b"

definition GET_32 :: "byte \<Rightarrow> byte \<Rightarrow> byte \<Rightarrow> byte \<Rightarrow> u32" where
  "GET_32 a b c d =
     push_bit 24 (ucast a) OR push_bit 16 (ucast b) OR push_bit 8 (ucast c) OR ucast d"

lemma length_PUT [simp]: "length (PUT_16 v) = 2" "length (PUT_32 v) = 4"
  by (simp_all add: PUT_16_def PUT_32_def)

lemma unat_byte_less: "unat (a :: byte) < 256"
  using unsigned_less [of a, where 'a = nat] by simp

lemma unat_ucast_byte: "unat (ucast (a :: byte) :: u32) = unat a"
  using unat_byte_less [of a] by (simp add: unsigned_ucast_eq take_bit_nat_eq_self)

lemma unat_push_byte: "k \<le> 24 \<Longrightarrow> unat (push_bit k (ucast (a :: byte) :: u32)) = 2 ^ k * unat a"
proof -
  assume k: "k \<le> 24"
  have "2 ^ k * unat a \<le> 2 ^ 24 * unat a"
    using power_increasing [OF k, of "2 :: nat"] by (intro mult_right_mono) simp_all
  also have "\<dots> < 2 ^ 24 * 2 ^ 8" using unat_byte_less [of a] by simp
  finally show ?thesis
    by (subst unsigned_push_bit_eq)
      (simp add: unat_ucast_byte push_bit_eq_mult take_bit_nat_eq_self mult.commute)
qed

lemma GET_16_sum: "GET_16 a b = push_bit 8 (ucast a) + ucast b"
  unfolding GET_16_def
  by (rule disjunctive_add_eq_or [symmetric], rule bit_word_eqI)
    (auto simp: bit_simps dest: bit_imp_le_length)

lemma unat_GET_16: "unat (GET_16 a b) = 256 * unat a + unat b"
  using unat_byte_less [of a] unat_byte_less [of b]
  by (simp add: GET_16_sum unat_word_ariths unat_push_byte unat_ucast_byte)

lemma and_ff: "(v :: u32) AND 0xff = take_bit 8 v"
  by (simp add: take_bit_eq_mask mask_eq_exp_minus_1)

lemma GET_PUT_16: "unat (GET_16 (PUT_16 (v :: u32) ! 0) (PUT_16 v ! 1)) = unat v mod 65536"
proof -
  have "GET_16 (PUT_16 v ! 0) (PUT_16 v ! 1) = take_bit 16 v"
    by (rule bit_word_eqI) (auto simp: GET_16_def PUT_16_def and_ff bit_simps)
  then have "unat (GET_16 (PUT_16 v ! 0) (PUT_16 v ! 1)) = take_bit 16 (unat v)"
    by (simp only: unsigned_take_bit_eq)
  then show ?thesis by (simp add: take_bit_eq_mod)
qed

lemma GET_PUT_32:
  "GET_32 (PUT_32 (v :: u32) ! 0) (PUT_32 v ! 1) (PUT_32 v ! 2) (PUT_32 v ! 3) = v"
proof (rule bit_word_eqI)
  fix n assume n: "n < LENGTH(32)"
  consider "n < 8" | "8 \<le> n" "n < 16" | "16 \<le> n" "n < 24" | "24 \<le> n" "n < 32" using n by fastforce
  then show "bit (GET_32 (PUT_32 v ! 0) (PUT_32 v ! 1) (PUT_32 v ! 2) (PUT_32 v ! 3)) n = bit v n"
    by cases (auto simp: GET_32_def PUT_32_def and_ff bit_simps)
qed

end
