(* ===== verification/Fifo.thy ===== *)
theory Fifo
  imports Prelude
begin

text \<open>
  Bounded first-in first-out queues, the contract that four parts of the server implement: the
  pool of free frames and the frame exchanger (frame.c), the soft queue (event.c) and the send
  buffer of a TCP connection (tcp.c). The contract is the locale \<open>bounded_fifo\<close>; its client
  lemma is that over any run of the queue nothing is lost, duplicated or reordered.

  The theory also holds the arithmetic of circular buffers that the implementations share.
\<close>

subsection \<open>Runs of a queue\<close>

datatype 'a fifo_op = Enq 'a | Deq

text \<open>
  A run returns the elements accepted by the queue, the elements it handed out, and the final
  state. An element is refused, and an attempt to take from the queue fails, without effect.
\<close>

fun fifo_run ::
  "('a \<Rightarrow> 's \<Rightarrow> 's option) \<Rightarrow> ('s \<Rightarrow> ('a \<times> 's) option) \<Rightarrow> 'a fifo_op list \<Rightarrow> 's
     \<Rightarrow> 'a list \<times> 'a list \<times> 's" where
  "fifo_run enq deq [] s = ([], [], s)"
| "fifo_run enq deq (Enq x # ops) s =
     (case enq x s of
        None \<Rightarrow> fifo_run enq deq ops s
      | Some s' \<Rightarrow> (case fifo_run enq deq ops s' of (acc, outs, t) \<Rightarrow> (x # acc, outs, t)))"
| "fifo_run enq deq (Deq # ops) s =
     (case deq s of
        None \<Rightarrow> fifo_run enq deq ops s
      | Some (y, s') \<Rightarrow> (case fifo_run enq deq ops s' of (acc, outs, t) \<Rightarrow> (acc, y # outs, t)))"

locale bounded_fifo =
  fixes enq :: "'a \<Rightarrow> 's \<Rightarrow> 's option"
    and deq :: "'s \<Rightarrow> ('a \<times> 's) option"
    and contents :: "'s \<Rightarrow> 'a list"
    and capacity :: "'s \<Rightarrow> nat"
    and invar :: "'s \<Rightarrow> bool"
  assumes enq_refused: "invar s \<Longrightarrow> enq x s = None \<longleftrightarrow> length (contents s) = capacity s"
    and enq_accepted: "invar s \<Longrightarrow> enq x s = Some s' \<Longrightarrow>
      contents s' = contents s @ [x] \<and> capacity s' = capacity s \<and> invar s'"
    and deq_empty: "invar s \<Longrightarrow> deq s = None \<longleftrightarrow> contents s = []"
    and deq_taken: "invar s \<Longrightarrow> deq s = Some (y, s') \<Longrightarrow>
      contents s = y # contents s' \<and> capacity s' = capacity s \<and> invar s'"
    and bounded: "invar s \<Longrightarrow> length (contents s) \<le> capacity s"
begin

lemma enq_room:
  assumes "invar s" "length (contents s) < capacity s"
  shows "\<exists>s'. enq x s = Some s' \<and> contents s' = contents s @ [x] \<and> invar s'"
proof -
  from assms have "enq x s \<noteq> None" by (simp add: enq_refused)
  then obtain s' where "enq x s = Some s'" by auto
  with assms enq_accepted show ?thesis by blast
qed

lemma deq_nonempty:
  assumes "invar s" "contents s = y # ys"
  shows "\<exists>s'. deq s = Some (y, s') \<and> contents s' = ys \<and> invar s'"
proof -
  from assms have "deq s \<noteq> None" by (simp add: deq_empty)
  then obtain z s' where "deq s = Some (z, s')" by auto
  with assms deq_taken [of s z s'] show ?thesis by auto
qed

lemma run_fifo:
  assumes "invar s" and "fifo_run enq deq ops s = (acc, outs, t)"
  shows "contents s @ acc = outs @ contents t \<and> capacity t = capacity s \<and> invar t"
  using assms
proof (induction ops arbitrary: s acc outs t)
  case Nil
  then show ?case by simp
next
  case (Cons op ops)
  show ?case
  proof (cases op)
    case (Enq x)
    show ?thesis
    proof (cases "enq x s")
      case None
      with Enq Cons show ?thesis by simp
    next
      case (Some s')
      with Enq Cons.prems(2) obtain acc' where
        run: "fifo_run enq deq ops s' = (acc', outs, t)" and acc: "acc = x # acc'"
        by (auto split: prod.splits)
      from enq_accepted [OF Cons.prems(1) Some] Cons.IH [OF _ run] acc
      show ?thesis by auto
    qed
  next
    case Deq
    show ?thesis
    proof (cases "deq s")
      case None
      with Deq Cons show ?thesis by simp
    next
      case (Some r)
      then obtain y s' where r: "deq s = Some (y, s')" by (cases r) simp
      with Deq Cons.prems(2) obtain outs' where
        run: "fifo_run enq deq ops s' = (acc, outs', t)" and outs: "outs = y # outs'"
        by (auto split: prod.splits)
      from deq_taken [OF Cons.prems(1) r] Cons.IH [OF _ run] outs
      show ?thesis by auto
    qed
  qed
qed

end

subsection \<open>Circular buffers\<close>

text \<open>The \<open>n\<close> entries of a circular buffer of size \<open>N\<close> that start at index \<open>r\<close>.\<close>

definition ring_slice :: "(nat \<Rightarrow> 'a) \<Rightarrow> nat \<Rightarrow> nat \<Rightarrow> nat \<Rightarrow> 'a list" where
  "ring_slice a N r n = map (\<lambda>k. a ((r + k) mod N)) [0..<n]"

text \<open>The number of steps from index \<open>r\<close> to index \<open>w\<close>.\<close>

definition ring_dist :: "nat \<Rightarrow> nat \<Rightarrow> nat \<Rightarrow> nat" where
  "ring_dist N r w = (if r \<le> w then w - r else N - r + w)"

lemma length_ring_slice [simp]: "length (ring_slice a N r n) = n"
  by (simp add: ring_slice_def)

lemma ring_slice_0 [simp]: "ring_slice a N r 0 = []"
  by (simp add: ring_slice_def)

lemma ring_slice_eq_Nil [simp]: "ring_slice a N r n = [] \<longleftrightarrow> n = 0"
  by (simp add: ring_slice_def)

lemma ring_slice_snoc: "ring_slice a N r (Suc n) = ring_slice a N r n @ [a ((r + n) mod N)]"
  by (simp add: ring_slice_def)

lemma ring_slice_cong:
  "(\<And>k. k < n \<Longrightarrow> a ((r + k) mod N) = b ((r + k) mod N)) \<Longrightarrow> ring_slice a N r n = ring_slice b N r n"
  by (simp add: ring_slice_def)

lemma ring_slice_Cons:
  "r < N \<Longrightarrow> ring_slice a N r (Suc n) = a r # ring_slice a N (Suc r mod N) n"
proof -
  assume "r < N"
  have "ring_slice a N r (Suc n) = a (r mod N) # map (\<lambda>k. a ((r + Suc k) mod N)) [0..<n]"
    unfolding ring_slice_def
    by (simp add: upt_rec [of 0 "Suc n"] map_Suc_upt [symmetric] del: upt_Suc)
  also have "map (\<lambda>k. a ((r + Suc k) mod N)) [0..<n] = ring_slice a N (Suc r mod N) n"
    by (simp add: ring_slice_def mod_simps)
  finally show ?thesis using \<open>r < N\<close> by simp
qed

lemma ring_slice_append:
  "ring_slice a N r (n + m) = ring_slice a N r n @ ring_slice a N ((r + n) mod N) m"
proof (induction m)
  case (Suc m)
  have "((r + n) mod N + m) mod N = (r + (n + m)) mod N" by (simp add: mod_add_left_eq add.assoc)
  with Suc show ?case by (simp add: ring_slice_snoc)
qed simp

lemma ring_index_inj:
  assumes "j < N" "k < N" "(r + j) mod N = (r + k) mod (N :: nat)"
  shows "j = k"
proof -
  have "\<And>a b :: nat. a \<le> b \<Longrightarrow> b < N \<Longrightarrow> (r + a) mod N = (r + b) mod N \<Longrightarrow> a = b"
  proof -
    fix a b :: nat
    assume ab: "a \<le> b" "b < N" and eq: "(r + a) mod N = (r + b) mod N"
    then have "N dvd (r + b) - (r + a)" by (metis mod_eq_dvd_iff_nat add_le_mono1 add.commute)
    then have "N dvd b - a" by simp
    with ab show "a = b" by (auto dest: dvd_imp_le)
  qed
  then show ?thesis using assms by (metis nle_le)
qed

lemma ring_slice_update:
  assumes "n \<le> m" "m < N"
  shows "ring_slice (a((r + m) mod N := x)) N r n = ring_slice a N r n"
proof (rule ring_slice_cong)
  fix k
  assume "k < n"
  with assms ring_index_inj [of k N m r] have "(r + k) mod N \<noteq> (r + m) mod N" by auto
  then show "(a((r + m) mod N := x)) ((r + k) mod N) = a ((r + k) mod N)" by simp
qed

lemma ring_step: "(r + Suc n) mod N = Suc ((r + n) mod N) mod (N :: nat)"
  by (simp add: mod_Suc_eq)

lemma ring_dist_less: "r < N \<Longrightarrow> w < N \<Longrightarrow> ring_dist N r w < N"
  by (auto simp: ring_dist_def)

lemma ring_dist_end: "r < N \<Longrightarrow> w < N \<Longrightarrow> (r + ring_dist N r w) mod N = w"
  by (auto simp: ring_dist_def)

lemma ring_dist_unique: "r < N \<Longrightarrow> n < N \<Longrightarrow> ring_dist N r ((r + n) mod N) = n"
proof -
  assume "r < N" "n < N"
  then show ?thesis
    by (cases "r + n < N") (auto simp: ring_dist_def mod_if)
qed

lemma ring_dist_eq_0: "r < N \<Longrightarrow> w < N \<Longrightarrow> ring_dist N r w = 0 \<longleftrightarrow> r = w"
  by (auto simp: ring_dist_def)

end
