(* ===== verification/Frame.thy ===== *)
theory Frame
  imports Fifo
begin

text \<open>
  frame.c: the pool of frame buffers, their reference counts, and the exchanger that carries
  frames from an encoder thread to the event loop.

  A frame is named by its index in the pool. The circular doubly linked lists of slots built by
  \<open>init_frame_heap\<close> and \<open>new_exchanger\<close> never change after their construction, so a slot is named
  by its position and \<open>slot->next\<close> is the successor modulo the number of slots. The rate meter
  (\<open>meter_*\<close>, floating point, without callers) is not modelled.
\<close>

subsection \<open>The frame heap\<close>

type_synonym fptr = nat

definition FORMAT_EMPTY :: int where "FORMAT_EMPTY = 0"
definition FORMAT_RAW_RGB24 :: int where "FORMAT_RAW_RGB24 = 1"
definition FORMAT_RAW_UYVY :: int where "FORMAT_RAW_UYVY = 2"
definition FORMAT_PCM :: int where "FORMAT_PCM = 64"
definition FORMAT_JPEG :: int where "FORMAT_JPEG = 101"
definition FORMAT_H264 :: int where "FORMAT_H264 = 104"
definition FORMAT_ALAW :: int where "FORMAT_ALAW = 201"
definition FORMAT_ULAW :: int where "FORMAT_ULAW = 203"

text \<open>
  \<open>f_destructor\<close> is the only destructor of the program, \<open>clone_destructor\<close>, with the frame in
  \<open>destructor_data\<close>, or none. \<open>f_d\<close> names the frame whose data area \<open>d\<close> points to.
\<close>

record frame =
  f_ref_count :: int
  f_size :: int
  f_destructor :: "fptr option"
  f_format :: int
  f_width :: int
  f_height :: int
  f_length :: int
  f_key :: int
  f_step :: int
  f_d :: fptr
  f_timestamp :: u32

record frame_heap =
  h_slots :: "nat \<Rightarrow> fptr option"
  h_count :: nat
  frame_heap_take :: nat
  frame_heap_put :: nat
  frame_heap_mutex :: bool
  max_frame_size :: int
  max_frame_slot :: int
  h_frames :: "fptr \<Rightarrow> frame"

definition slot_next :: "frame_heap \<Rightarrow> nat \<Rightarrow> nat" where
  "slot_next h i = Suc i mod h_count h"

definition upd_frame :: "fptr \<Rightarrow> (frame \<Rightarrow> frame) \<Rightarrow> frame_heap \<Rightarrow> frame_heap" where
  "upd_frame f g h = h\<lparr>h_frames := (h_frames h)(f := g (h_frames h f))\<rparr>"

definition blank_frame :: "int \<Rightarrow> frame" where
  "blank_frame sz = \<lparr>f_ref_count = 0, f_size = sz, f_destructor = None, f_format = FORMAT_EMPTY,
     f_width = 0, f_height = 0, f_length = 0, f_key = 0, f_step = 0, f_d = 0, f_timestamp = 0\<rparr>"

text \<open>
  \<open>init_frame_heap\<close> dereferences \<open>frame_heap_take\<close> after the loop, so an empty heap is a null
  dereference. The fields \<open>malloc\<close> leaves indeterminate are given fixed values here; every one of
  them but \<open>step\<close> and \<open>timestamp\<close> is written by \<open>new_frame\<close> before a frame is used.
\<close>

definition init_frame_heap :: "int \<Rightarrow> int \<Rightarrow> frame_heap option" where
  "init_frame_heap sz count =
     (if count \<le> 0 then None
      else Some \<lparr>h_slots = (\<lambda>i. if i < nat count then Some i else None), h_count = nat count,
             frame_heap_take = 0, frame_heap_put = 0, frame_heap_mutex = False,
             max_frame_size = sz, max_frame_slot = count, h_frames = (\<lambda>_. blank_frame sz)\<rparr>)"

definition get_max_frame_size :: "frame_heap \<Rightarrow> int" where
  "get_max_frame_size h = max_frame_size h"

definition get_max_frame_slot :: "frame_heap \<Rightarrow> int" where
  "get_max_frame_slot h = max_frame_slot h"

text \<open>The critical sections of \<open>new_frame\<close> and \<open>unref_frame\<close> on the ring of slots.\<close>

definition pool_take :: "frame_heap \<Rightarrow> (fptr \<times> frame_heap) option" where
  "pool_take h =
     (case h_slots h (frame_heap_take h) of
        None \<Rightarrow> None
      | Some f \<Rightarrow> Some (f, h\<lparr>h_slots := (h_slots h)(frame_heap_take h := None),
                             frame_heap_take := slot_next h (frame_heap_take h)\<rparr>))"

definition pool_put :: "fptr \<Rightarrow> frame_heap \<Rightarrow> frame_heap option" where
  "pool_put f h =
     (if h_slots h (frame_heap_put h) \<noteq> None then None
      else Some (h\<lparr>h_slots := (h_slots h)(frame_heap_put h := Some f),
                   frame_heap_put := slot_next h (frame_heap_put h)\<rparr>))"

definition reset_frame :: "fptr \<Rightarrow> frame \<Rightarrow> frame" where
  "reset_frame f fr = fr\<lparr>f_ref_count := 1, f_destructor := None, f_d := f,
     f_format := FORMAT_EMPTY, f_width := 0, f_height := 0, f_length := 0, f_key := 0\<rparr>"

definition new_frame :: "frame_heap \<Rightarrow> (fptr option \<times> frame_heap) option" where
  "new_frame h =
     (if frame_heap_mutex h then None
      else case pool_take h of
        Some (f, h') \<Rightarrow> Some (Some f, upd_frame f (reset_frame f) h')
      | None \<Rightarrow> Some (None, h))"

definition ref_frame :: "fptr \<Rightarrow> frame_heap \<Rightarrow> frame_heap" where
  "ref_frame f h = upd_frame f (\<lambda>fr. fr\<lparr>f_ref_count := f_ref_count fr + 1\<rparr>) h"

definition clone_frame :: "fptr \<Rightarrow> frame_heap \<Rightarrow> (fptr option \<times> frame_heap) option" where
  "clone_frame orig h = do {
     (r, h1) \<leftarrow> new_frame h;
     (case r of
        None \<Rightarrow> Some (None, h1)
      | Some f \<Rightarrow>
          (let og = h_frames h1 orig in
           Some (Some f, ref_frame orig (upd_frame f (\<lambda>fr. fr\<lparr>f_destructor := Some orig,
             f_format := f_format og, f_width := f_width og, f_height := f_height og,
             f_length := f_length og, f_key := f_key og, f_step := f_step og, f_d := f_d og\<rparr>) h1))))
   }"

text \<open>
  The first critical section of \<open>unref_frame\<close>, the decrement, and the last one, the return of the
  frame to the ring. If the slot at \<open>frame_heap_put\<close> is taken, the source logs a warning and
  returns with \<open>frame_heap_mutex\<close> locked.
\<close>

definition unref_dec :: "fptr \<Rightarrow> frame_heap \<Rightarrow> int \<times> frame_heap" where
  "unref_dec f h =
     (f_ref_count (h_frames h f) - 1, upd_frame f (\<lambda>fr. fr\<lparr>f_ref_count := f_ref_count fr - 1\<rparr>) h)"

definition unref_put :: "fptr \<Rightarrow> frame_heap \<Rightarrow> frame_heap option" where
  "unref_put f h =
     (if frame_heap_mutex h then None
      else case pool_put f h of
        None \<Rightarrow> Some (h\<lparr>frame_heap_mutex := True\<rparr>)
      | Some h' \<Rightarrow> Some h')"

partial_function (option) unref_frame :: "fptr \<Rightarrow> frame_heap \<Rightarrow> frame_heap option" where
  "unref_frame f h =
     (case unref_dec f h of (r, h1) \<Rightarrow>
        if r > 0 then Some h1
        else case f_destructor (h_frames h1 f) of
            Some orig \<Rightarrow> do {
              h2 \<leftarrow> unref_frame orig (upd_frame f (\<lambda>fr. fr\<lparr>f_ref_count := 1\<rparr>) h1);
              unref_put f h2
            }
          | None \<Rightarrow> unref_put f h1)"

subsection \<open>The ring of free frames is a queue\<close>

definition free_count :: "frame_heap \<Rightarrow> nat" where
  "free_count h =
     (if h_slots h (frame_heap_put h) \<noteq> None then h_count h
      else ring_dist (h_count h) (frame_heap_take h) (frame_heap_put h))"

definition free_frames :: "frame_heap \<Rightarrow> fptr list" where
  "free_frames h =
     ring_slice (\<lambda>i. the (h_slots h i)) (h_count h) (frame_heap_take h) (free_count h)"

definition pool_at :: "frame_heap \<Rightarrow> nat \<Rightarrow> bool" where
  "pool_at h n \<longleftrightarrow>
     0 < h_count h \<and> frame_heap_take h < h_count h \<and> n \<le> h_count h \<and>
     frame_heap_put h = (frame_heap_take h + n) mod h_count h \<and>
     (\<forall>k < h_count h. h_slots h ((frame_heap_take h + k) mod h_count h) \<noteq> None \<longleftrightarrow> k < n)"

definition pool_inv :: "frame_heap \<Rightarrow> bool" where
  "pool_inv h \<longleftrightarrow> pool_at h (free_count h)"

lemma pool_at_count: "pool_at h n \<Longrightarrow> free_count h = n"
proof -
  assume at: "pool_at h n"
  let ?N = "h_count h" and ?t = "frame_heap_take h"
  show ?thesis
  proof (cases "n = ?N")
    case True
    with at have "frame_heap_put h = ?t" "h_slots h ?t \<noteq> None"
      by (auto simp: pool_at_def dest!: spec [of _ 0])
    with True show ?thesis by (simp add: free_count_def)
  next
    case False
    with at have n: "n < ?N" by (simp add: pool_at_def)
    with at have "h_slots h (frame_heap_put h) = None"
      by (auto simp: pool_at_def dest!: spec [of _ n])
    with at n show ?thesis by (simp add: free_count_def pool_at_def ring_dist_unique)
  qed
qed

lemma pool_invI: "pool_at h n \<Longrightarrow> pool_inv h"
  by (simp add: pool_inv_def pool_at_count)

lemma pool_take_at:
  assumes at: "pool_at h n"
  shows "case pool_take h of
      None \<Rightarrow> n = 0
    | Some (f, h') \<Rightarrow> 0 < n \<and> pool_at h' (n - 1) \<and> free_frames h = f # free_frames h' \<and>
        h_count h' = h_count h \<and> h_frames h' = h_frames h \<and> frame_heap_mutex h' = frame_heap_mutex h"
proof (cases "h_slots h (frame_heap_take h)")
  case None
  with at have "n = 0" by (auto simp: pool_at_def dest!: spec [of _ 0])
  with None show ?thesis by (simp add: pool_take_def)
next
  case (Some f)
  let ?N = "h_count h" and ?t = "frame_heap_take h"
  let ?h' = "h\<lparr>h_slots := (h_slots h)(?t := None), frame_heap_take := slot_next h ?t\<rparr>"
  from at Some have n: "0 < n" and N: "0 < ?N" and t: "?t < ?N" and nN: "n \<le> ?N"
    by (auto simp: pool_at_def dest!: spec [of _ 0])
  from n obtain m where m: "n = Suc m" by (cases n) auto
  have shift: "\<And>k. (Suc ?t mod ?N + k) mod ?N = (?t + Suc k) mod ?N" by (simp add: mod_simps)
  have slots: "h_slots ?h' ((?t + Suc k) mod ?N) \<noteq> None \<longleftrightarrow> k < m" if k: "k < ?N" for k
  proof (cases "Suc k = ?N")
    case True
    then have "(?t + Suc k) mod ?N = ?t" using t by simp
    with True nN m show ?thesis by auto
  next
    case False
    with k have k': "Suc k < ?N" by simp
    have "(?t + Suc k) mod ?N \<noteq> ?t"
      using ring_index_inj [of "Suc k" ?N 0 ?t] k' t N by auto
    moreover have "h_slots h ((?t + Suc k) mod ?N) \<noteq> None \<longleftrightarrow> Suc k < n"
      using at k' by (auto simp: pool_at_def)
    ultimately show ?thesis using m by auto
  qed
  have at': "pool_at ?h' m"
    using at nN slots by (simp add: pool_at_def slot_next_def shift m)
  have "free_frames h = ring_slice (\<lambda>i. the (h_slots h i)) ?N ?t (Suc m)"
    by (simp add: free_frames_def pool_at_count [OF at] m)
  also have "\<dots> = f # ring_slice (\<lambda>i. the (h_slots h i)) ?N (Suc ?t mod ?N) m"
    using Some t by (simp add: ring_slice_Cons)
  also have "ring_slice (\<lambda>i. the (h_slots h i)) ?N (Suc ?t mod ?N) m = free_frames ?h'"
    unfolding free_frames_def pool_at_count [OF at']
  proof (simp add: slot_next_def, rule ring_slice_cong)
    fix k
    assume "k < m"
    then have "Suc k < ?N" using nN m by simp
    then have "(?t + Suc k) mod ?N \<noteq> ?t"
      using ring_index_inj [of "Suc k" ?N 0 ?t] t N by auto
    then show "the (h_slots h ((Suc ?t mod ?N + k) mod ?N)) =
        the (if (Suc ?t mod ?N + k) mod ?N = ?t then None
             else h_slots h ((Suc ?t mod ?N + k) mod ?N))"
      by (simp only: shift if_False)
  qed
  finally show ?thesis using Some n at' m by (simp add: pool_take_def)
qed

lemma pool_put_at:
  assumes at: "pool_at h n"
  shows "case pool_put f h of
      None \<Rightarrow> n = h_count h
    | Some h' \<Rightarrow> n < h_count h \<and> pool_at h' (Suc n) \<and> free_frames h' = free_frames h @ [f] \<and>
        h_count h' = h_count h \<and> h_frames h' = h_frames h \<and> frame_heap_mutex h' = frame_heap_mutex h"
proof (cases "h_slots h (frame_heap_put h)")
  case (Some g)
  have "n = h_count h"
  proof (rule ccontr)
    assume "n \<noteq> h_count h"
    with at Some show False by (auto simp: pool_at_def dest!: spec [of _ n])
  qed
  with Some show ?thesis by (simp add: pool_put_def)
next
  case None
  let ?N = "h_count h" and ?t = "frame_heap_take h" and ?p = "frame_heap_put h"
  let ?h' = "h\<lparr>h_slots := (h_slots h)(?p := Some f), frame_heap_put := slot_next h ?p\<rparr>"
  have n: "n < ?N"
  proof (rule ccontr)
    assume "\<not> n < ?N"
    with at None show False by (auto simp: pool_at_def dest!: spec [of _ 0])
  qed
  have p: "?p = (?t + n) mod ?N" using at by (simp add: pool_at_def)
  have slots: "h_slots ?h' ((?t + k) mod ?N) \<noteq> None \<longleftrightarrow> k < Suc n" if k: "k < ?N" for k
  proof (cases "k = n")
    case True
    then show ?thesis by (simp add: p)
  next
    case False
    then have "(?t + k) mod ?N \<noteq> ?p" using ring_index_inj [of k ?N n ?t] k n p by auto
    moreover have "h_slots h ((?t + k) mod ?N) \<noteq> None \<longleftrightarrow> k < n"
      using at k by (auto simp: pool_at_def)
    ultimately show ?thesis using False by auto
  qed
  have at': "pool_at ?h' (Suc n)"
    using at n slots by (auto simp: pool_at_def slot_next_def mod_simps)
  have "free_frames ?h' = ring_slice ((\<lambda>i. the (h_slots h i))(?p := f)) ?N ?t (Suc n)"
    unfolding free_frames_def pool_at_count [OF at']
    by (simp add: fun_upd_def if_distrib cong: if_cong)
  also have "\<dots> = free_frames h @ [f]"
    unfolding ring_slice_snoc p ring_slice_update [OF order_refl n]
    by (simp add: free_frames_def pool_at_count [OF at])
  finally show ?thesis using None n at' by (simp add: pool_put_def)
qed

interpretation frame_pool: bounded_fifo pool_put pool_take free_frames h_count pool_inv
proof
  fix h h' f
  show "pool_inv h \<Longrightarrow> pool_put f h = None \<longleftrightarrow> length (free_frames h) = h_count h"
    using pool_put_at [of h "free_count h" f]
    by (auto simp: pool_inv_def free_frames_def split: option.splits)
  show "pool_inv h \<Longrightarrow> pool_put f h = Some h' \<Longrightarrow>
      free_frames h' = free_frames h @ [f] \<and> h_count h' = h_count h \<and> pool_inv h'"
    using pool_put_at [of h "free_count h" f] pool_invI by (auto simp: pool_inv_def)
  show "pool_inv h \<Longrightarrow> pool_take h = None \<longleftrightarrow> free_frames h = []"
    using pool_take_at [of h "free_count h"]
    by (auto simp: pool_inv_def free_frames_def split: option.splits)
  show "pool_inv h \<Longrightarrow> pool_take h = Some (f, h') \<Longrightarrow>
      free_frames h = f # free_frames h' \<and> h_count h' = h_count h \<and> pool_inv h'"
    using pool_take_at [of h "free_count h"] pool_invI by (auto simp: pool_inv_def)
  show "pool_inv h \<Longrightarrow> length (free_frames h) \<le> h_count h"
    by (simp add: pool_inv_def pool_at_def free_frames_def)
qed

subsection \<open>Reference counting under concurrent clients\<close>

text \<open>
  The threads of the server share the heap. A step is one critical section of one call:
  \<open>sys_held f\<close> counts the references to frame \<open>f\<close> that clients hold, and \<open>sys_dying\<close> holds the
  frames whose last reference was dropped and whose \<open>unref_frame\<close> has not yet returned them to the
  ring. \<open>clone_frame\<close> has no caller in the program and takes no part in the steps.
\<close>

record frame_sys =
  sys_heap :: frame_heap
  sys_held :: "fptr \<Rightarrow> nat"
  sys_dying :: "fptr set"

definition keeps_refs :: "(frame \<Rightarrow> frame) \<Rightarrow> bool" where
  "keeps_refs g \<longleftrightarrow> (\<forall>fr. f_ref_count (g fr) = f_ref_count fr \<and> f_destructor (g fr) = f_destructor fr)"

inductive frame_step :: "frame_sys \<Rightarrow> frame_sys \<Rightarrow> bool" where
  alloc: "new_frame (sys_heap s) = Some (Some f, h) \<Longrightarrow>
    frame_step s (s\<lparr>sys_heap := h, sys_held := (sys_held s)(f := Suc (sys_held s f))\<rparr>)"
| alloc_null: "new_frame (sys_heap s) = Some (None, h) \<Longrightarrow> frame_step s (s\<lparr>sys_heap := h\<rparr>)"
| ref: "0 < sys_held s f \<Longrightarrow>
    frame_step s (s\<lparr>sys_heap := ref_frame f (sys_heap s),
                    sys_held := (sys_held s)(f := Suc (sys_held s f))\<rparr>)"
| fill: "0 < sys_held s f \<Longrightarrow> keeps_refs g \<Longrightarrow>
    frame_step s (s\<lparr>sys_heap := upd_frame f g (sys_heap s)\<rparr>)"
| unref_more: "0 < sys_held s f \<Longrightarrow> unref_dec f (sys_heap s) = (r, h) \<Longrightarrow> r > 0 \<Longrightarrow>
    frame_step s (s\<lparr>sys_heap := h, sys_held := (sys_held s)(f := sys_held s f - 1)\<rparr>)"
| unref_last: "0 < sys_held s f \<Longrightarrow> unref_dec f (sys_heap s) = (r, h) \<Longrightarrow> r \<le> 0 \<Longrightarrow>
    frame_step s (s\<lparr>sys_heap := h, sys_held := (sys_held s)(f := sys_held s f - 1),
                    sys_dying := insert f (sys_dying s)\<rparr>)"
| put: "f \<in> sys_dying s \<Longrightarrow> unref_put f (sys_heap s) = Some h \<Longrightarrow>
    frame_step s (s\<lparr>sys_heap := h, sys_dying := sys_dying s - {f}\<rparr>)"

inductive frame_reach :: "int \<Rightarrow> int \<Rightarrow> frame_sys \<Rightarrow> bool" for sz count where
  start: "init_frame_heap sz count = Some h \<Longrightarrow>
    frame_reach sz count \<lparr>sys_heap = h, sys_held = (\<lambda>_. 0), sys_dying = {}\<rparr>"
| step: "frame_reach sz count s \<Longrightarrow> frame_step s t \<Longrightarrow> frame_reach sz count t"

definition frame_state :: "frame_sys \<Rightarrow> fptr \<Rightarrow> bool" where
  "frame_state s f \<longleftrightarrow>
     (if f \<in> set (free_frames (sys_heap s)) then sys_held s f = 0 \<and> f \<notin> sys_dying s
      else if f \<in> sys_dying s then sys_held s f = 0 \<and> f_destructor (h_frames (sys_heap s) f) = None
      else if f < h_count (sys_heap s)
        then 0 < sys_held s f \<and> f_ref_count (h_frames (sys_heap s) f) = int (sys_held s f) \<and>
             f_destructor (h_frames (sys_heap s) f) = None
        else sys_held s f = 0)"

definition frame_sys_inv :: "int \<Rightarrow> frame_sys \<Rightarrow> bool" where
  "frame_sys_inv count s \<longleftrightarrow>
     pool_inv (sys_heap s) \<and> \<not> frame_heap_mutex (sys_heap s) \<and> h_count (sys_heap s) = nat count \<and>
     distinct (free_frames (sys_heap s)) \<and> set (free_frames (sys_heap s)) \<subseteq> {..<nat count} \<and>
     sys_dying s \<subseteq> {..<nat count} \<and> (\<forall>f. frame_state s f)"

lemma free_frames_upd [simp]: "free_frames (upd_frame f g h) = free_frames h"
  by (simp add: free_frames_def free_count_def upd_frame_def)

lemma pool_inv_upd [simp]: "pool_inv (upd_frame f g h) = pool_inv h"
  by (simp add: pool_inv_def pool_at_def free_count_def upd_frame_def)

lemma upd_frame_frame [simp]:
  "frame_heap_mutex (upd_frame f g h) = frame_heap_mutex h"
  "h_count (upd_frame f g h) = h_count h"
  "h_frames (upd_frame f g h) = (h_frames h)(f := g (h_frames h f))"
  by (simp_all add: upd_frame_def)

lemma free_frames_length_less:
  assumes "distinct (free_frames h)" "set (free_frames h) \<subseteq> {..<n}" "f < n" "f \<notin> set (free_frames h)"
  shows "length (free_frames h) < n"
proof -
  have "set (free_frames h) \<subset> {..<n}" using assms(2-4) by auto
  then have "card (set (free_frames h)) < n" by (metis psubset_card_mono finite_lessThan card_lessThan)
  with assms(1) show ?thesis by (simp add: distinct_card)
qed

lemma frame_sys_inv_init:
  assumes "init_frame_heap sz count = Some h"
  shows "frame_sys_inv count \<lparr>sys_heap = h, sys_held = (\<lambda>_. 0), sys_dying = {}\<rparr>"
proof -
  from assms have c: "0 < count" and
    h: "h = \<lparr>h_slots = (\<lambda>i. if i < nat count then Some i else None), h_count = nat count,
          frame_heap_take = 0, frame_heap_put = 0, frame_heap_mutex = False,
          max_frame_size = sz, max_frame_slot = count, h_frames = (\<lambda>_. blank_frame sz)\<rparr>"
    by (auto simp: init_frame_heap_def split: if_splits)
  have at: "pool_at h (nat count)" using c by (simp add: pool_at_def h)
  have "free_frames h = [0..<nat count]"
    unfolding free_frames_def pool_at_count [OF at] ring_slice_def
    by (rule nth_equalityI) (simp_all add: h)
  with at c show ?thesis
    by (auto simp: frame_sys_inv_def frame_state_def pool_invI h)
qed

lemma new_frame_cases:
  assumes "pool_inv h" "\<not> frame_heap_mutex h"
  shows "case new_frame h of
      Some (Some f, h') \<Rightarrow> pool_inv h' \<and> \<not> frame_heap_mutex h' \<and> h_count h' = h_count h \<and>
        free_frames h = f # free_frames h' \<and>
        h_frames h' = (h_frames h)(f := reset_frame f (h_frames h f))
    | Some (None, h') \<Rightarrow> free_frames h = [] \<and> h' = h
    | None \<Rightarrow> False"
proof (cases "pool_take h")
  case None
  with assms frame_pool.deq_empty [of h] show ?thesis by (simp add: new_frame_def)
next
  case (Some r)
  then obtain f h1 where r: "pool_take h = Some (f, h1)" by (cases r) simp
  from pool_take_at [of h "free_count h"] assms r
  have "pool_inv h1 \<and> h_count h1 = h_count h \<and> free_frames h = f # free_frames h1 \<and>
      h_frames h1 = h_frames h \<and> \<not> frame_heap_mutex h1"
    by (auto simp: pool_inv_def [of h] pool_invI)
  with assms r show ?thesis by (simp add: new_frame_def)
qed

lemma unref_put_room:
  assumes "pool_inv h" "\<not> frame_heap_mutex h" "length (free_frames h) < h_count h"
  shows "\<exists>h'. unref_put f h = Some h' \<and> pool_inv h' \<and> \<not> frame_heap_mutex h' \<and>
    h_count h' = h_count h \<and> h_frames h' = h_frames h \<and> free_frames h' = free_frames h @ [f]"
proof -
  from frame_pool.enq_room [OF assms(1,3)] obtain h' where put: "pool_put f h = Some h'" by blast
  with pool_put_at [of h "free_count h" f] assms pool_invI show ?thesis
    by (auto simp: unref_put_def pool_inv_def [of h])
qed

lemma frame_step_inv:
  assumes "frame_step s t" "frame_sys_inv count s"
  shows "frame_sys_inv count t"
  using assms
proof (induction rule: frame_step.induct)
  case (alloc s f h)
  from alloc.prems have inv: "pool_inv (sys_heap s)" "\<not> frame_heap_mutex (sys_heap s)"
    by (simp_all add: frame_sys_inv_def)
  from new_frame_cases [OF this] alloc.hyps have
    h: "pool_inv h \<and> \<not> frame_heap_mutex h \<and> h_count h = h_count (sys_heap s) \<and>
        free_frames (sys_heap s) = f # free_frames h \<and>
        h_frames h = (h_frames (sys_heap s))(f := reset_frame f (h_frames (sys_heap s) f))" by simp
  have st: "frame_state s g" for g using alloc.prems by (simp add: frame_sys_inv_def)
  have d: "distinct (f # free_frames h)" "set (f # free_frames h) \<subseteq> {..<nat count}"
    using alloc.prems h by (simp_all add: frame_sys_inv_def)
  have "frame_state (s\<lparr>sys_heap := h, sys_held := (sys_held s)(f := Suc (sys_held s f))\<rparr>) g" for g
    using st [of g] st [of f] h d alloc.prems
    by (cases "g = f") (auto simp: frame_state_def frame_sys_inv_def reset_frame_def)
  with h d alloc.prems show ?case by (simp add: frame_sys_inv_def)
next
  case (alloc_null s h)
  from alloc_null.prems have inv: "pool_inv (sys_heap s)" "\<not> frame_heap_mutex (sys_heap s)"
    by (simp_all add: frame_sys_inv_def)
  from new_frame_cases [OF this] alloc_null show ?case by (simp add: frame_sys_inv_def frame_state_def)
next
  case (ref s f)
  then have st: "frame_state s g" for g by (simp add: frame_sys_inv_def)
  have "frame_state (s\<lparr>sys_heap := ref_frame f (sys_heap s),
      sys_held := (sys_held s)(f := Suc (sys_held s f))\<rparr>) g" for g
    using st [of g] st [of f] ref.hyps
    by (cases "g = f") (auto simp: frame_state_def ref_frame_def split: if_splits)
  with ref.prems show ?case by (simp add: frame_sys_inv_def ref_frame_def)
next
  case (fill s f g)
  then have st: "frame_state s k" for k by (simp add: frame_sys_inv_def)
  have "frame_state (s\<lparr>sys_heap := upd_frame f g (sys_heap s)\<rparr>) k" for k
    using st [of k] fill.hyps
    by (cases "k = f") (auto simp: frame_state_def keeps_refs_def)
  with fill.prems show ?case by (simp add: frame_sys_inv_def)
next
  case (unref_more s f r h)
  then have st: "frame_state s g" for g by (simp add: frame_sys_inv_def)
  have "frame_state (s\<lparr>sys_heap := h, sys_held := (sys_held s)(f := sys_held s f - 1)\<rparr>) g" for g
    using st [of g] st [of f] unref_more.hyps
    by (cases "g = f") (auto simp: frame_state_def unref_dec_def split: if_splits)
  with unref_more.prems unref_more.hyps show ?case
    by (auto simp: frame_sys_inv_def unref_dec_def)
next
  case (unref_last s f r h)
  then have st: "frame_state s g" for g by (simp add: frame_sys_inv_def)
  have f: "f < nat count"
    using st [of f] unref_last by (auto simp: frame_state_def frame_sys_inv_def split: if_splits)
  have "frame_state (s\<lparr>sys_heap := h, sys_held := (sys_held s)(f := sys_held s f - 1),
      sys_dying := insert f (sys_dying s)\<rparr>) g" for g
    using st [of g] st [of f] unref_last.hyps
    by (cases "g = f") (auto simp: frame_state_def unref_dec_def split: if_splits)
  with f unref_last.prems unref_last.hyps show ?case
    by (auto simp: frame_sys_inv_def unref_dec_def)
next
  case (put f s h)
  then have st: "frame_state s g" for g by (simp add: frame_sys_inv_def)
  have f: "f < nat count" "f \<notin> set (free_frames (sys_heap s))"
    using put st [of f] by (auto simp: frame_sys_inv_def frame_state_def split: if_splits)
  then have "length (free_frames (sys_heap s)) < h_count (sys_heap s)"
    using put.prems free_frames_length_less [of "sys_heap s" "nat count" f]
    by (simp add: frame_sys_inv_def)
  with unref_put_room [of "sys_heap s" f] put have
    h: "pool_inv h \<and> \<not> frame_heap_mutex h \<and> h_count h = h_count (sys_heap s) \<and>
        h_frames h = h_frames (sys_heap s) \<and> free_frames h = free_frames (sys_heap s) @ [f]"
    by (auto simp: frame_sys_inv_def)
  have "frame_state (s\<lparr>sys_heap := h, sys_dying := sys_dying s - {f}\<rparr>) g" for g
    using st [of g] st [of f] put.hyps f h
    by (cases "g = f") (auto simp: frame_state_def split: if_splits)
  with f h put.prems show ?case by (auto simp: frame_sys_inv_def)
qed

lemma frame_reach_inv: "frame_reach sz count s \<Longrightarrow> frame_sys_inv count s"
  by (induction rule: frame_reach.induct) (auto intro: frame_sys_inv_init frame_step_inv)

text \<open>A heap of two frames after one \<open>new_frame\<close>.\<close>

lemma frame_reach_example:
  "\<exists>s. frame_reach 100 2 s \<and> sys_held s = (\<lambda>_. 0)(0 := 1) \<and> sys_dying s = {} \<and>
     free_frames (sys_heap s) = [1]"
proof -
  let ?h = "the (init_frame_heap 100 2)"
  let ?s = "\<lparr>sys_heap = ?h, sys_held = (\<lambda>_. 0), sys_dying = {}\<rparr>"
  let ?n = "snd (the (new_frame ?h))"
  have init: "frame_reach 100 2 ?s" by (rule frame_reach.start) (simp add: init_frame_heap_def)
  have new: "new_frame ?h = Some (Some 0, ?n)"
    by (simp add: init_frame_heap_def new_frame_def pool_take_def)
  from frame_step.alloc [of ?s 0 ?n] new
  have "frame_step ?s (?s\<lparr>sys_heap := ?n, sys_held := (\<lambda>_. 0)(0 := 1)\<rparr>)" by simp
  with init have "frame_reach 100 2 (?s\<lparr>sys_heap := ?n, sys_held := (\<lambda>_. 0)(0 := 1)\<rparr>)"
    by (rule frame_reach.step)
  moreover have "free_frames ?n = [1]"
    by (simp add: free_frames_def free_count_def ring_dist_def ring_slice_def init_frame_heap_def
        new_frame_def pool_take_def slot_next_def upd_frame_def)
  ultimately show ?thesis by (intro exI conjI) auto
qed

text \<open>
  C1: in every state the clients of the frame heap can reach, dropping a reference returns, leaves
  the heap mutex free, and appends the frame to the free frames exactly when it was the last
  reference; the branch that finds a frame at \<open>frame_heap_put\<close> is never taken.
\<close>

theorem unref_frame_returns:
  assumes "frame_reach sz count s" "0 < sys_held s f"
  shows "\<exists>h. unref_frame f (sys_heap s) = Some h \<and> \<not> frame_heap_mutex h \<and>
    free_frames h = free_frames (sys_heap s) @ (if sys_held s f = 1 then [f] else [])"
proof -
  let ?h = "sys_heap s"
  from assms(1) have inv: "frame_sys_inv count s" by (rule frame_reach_inv)
  then have st: "frame_state s f" by (simp add: frame_sys_inv_def)
  with assms(2) inv have f: "f < nat count" "f \<notin> set (free_frames ?h)"
    "f_ref_count (h_frames ?h f) = int (sys_held s f)" "f_destructor (h_frames ?h f) = None"
    by (auto simp: frame_state_def frame_sys_inv_def split: if_splits)
  let ?h1 = "upd_frame f (\<lambda>fr. fr\<lparr>f_ref_count := f_ref_count fr - 1\<rparr>) ?h"
  have "length (free_frames ?h1) < h_count ?h1"
    using inv f free_frames_length_less [of ?h "nat count" f] by (simp add: frame_sys_inv_def)
  then obtain h' where h': "unref_put f ?h1 = Some h'" "\<not> frame_heap_mutex h'"
    "free_frames h' = free_frames ?h @ [f]"
    using unref_put_room [of ?h1 f] inv by (auto simp: frame_sys_inv_def)
  show ?thesis
  proof (cases "sys_held s f = 1")
    case True
    then show ?thesis using h' f by (simp add: unref_frame.simps unref_dec_def)
  next
    case False
    with assms(2) f inv show ?thesis
      by (simp add: unref_frame.simps unref_dec_def frame_sys_inv_def)
  qed
qed

theorem unref_frame_returns_witness:
  "\<exists>s h. frame_reach 100 2 s \<and> sys_held s 0 = 1 \<and> unref_frame 0 (sys_heap s) = Some h \<and>
     \<not> frame_heap_mutex h \<and> free_frames h = [1, 0]"
proof -
  obtain s where s: "frame_reach 100 2 s" "sys_held s = (\<lambda>_. 0)(0 := 1)"
    "free_frames (sys_heap s) = [1]" using frame_reach_example by blast
  with unref_frame_returns [of 100 2 s 0] show ?thesis by auto
qed

text \<open>
  C2: \<open>new_frame\<close> returns \<open>NULL\<close> exactly when every frame of the heap is referenced or on its way
  back to the ring; otherwise it returns a frame of the heap that nobody holds, with one reference.
\<close>

theorem new_frame_exact:
  assumes "frame_reach sz count s"
  shows "\<exists>r h. new_frame (sys_heap s) = Some (r, h) \<and>
    (r = None \<longleftrightarrow> (\<forall>f < nat count. 0 < sys_held s f \<or> f \<in> sys_dying s)) \<and>
    (case r of None \<Rightarrow> True
      | Some f \<Rightarrow> f < nat count \<and> sys_held s f = 0 \<and> f \<notin> sys_dying s \<and>
          f_ref_count (h_frames h f) = 1)"
proof -
  from assms have inv: "frame_sys_inv count s" by (rule frame_reach_inv)
  then have st: "frame_state s f" for f by (simp add: frame_sys_inv_def)
  have free: "f \<in> set (free_frames (sys_heap s)) \<longleftrightarrow> sys_held s f = 0 \<and> f \<notin> sys_dying s"
    if "f < nat count" for f
    using st [of f] inv that by (auto simp: frame_state_def frame_sys_inv_def split: if_splits)
  show ?thesis
    using new_frame_cases [of "sys_heap s"] inv free
    by (fastforce simp: frame_sys_inv_def reset_frame_def split: option.splits)
qed

theorem new_frame_exact_witness:
  "\<exists>s h. frame_reach 100 2 s \<and> sys_held s 0 = 1 \<and> new_frame (sys_heap s) = Some (Some 1, h)"
proof -
  obtain s where s: "frame_reach 100 2 s" "sys_held s = (\<lambda>_. 0)(0 := 1)" "sys_dying s = {}"
    using frame_reach_example by blast
  from new_frame_exact [OF s(1)] obtain r h where r: "new_frame (sys_heap s) = Some (r, h)"
    "r = None \<longleftrightarrow> (\<forall>f < nat 2. 0 < sys_held s f \<or> f \<in> sys_dying s)"
    "case r of None \<Rightarrow> True | Some f \<Rightarrow> f < nat 2 \<and> sys_held s f = 0" by (auto split: option.splits)
  from r(2) s have "r \<noteq> None" by (auto intro!: exI [of _ 1])
  with r(3) s obtain f where "r = Some f" "f < 2" "f \<noteq> 0" by (auto split: if_splits)
  then have "r = Some 1" by auto
  with r(1) s show ?thesis by auto
qed

end
