(* ===== verification/Exchanger.thy ===== *)
theory Exchanger
  imports Frame
begin

text \<open>
  The frame exchanger of frame.c: a ring of slots and a pipe between an encoder thread (the slave)
  and the event loop (the master). The encoder threads of the program deliver frames with
  \<open>deliver_frame\<close>; the event loop takes them in \<open>exchanger_read\<close>, one per byte in the pipe. Every
  operation runs under the exchanger's mutex.
\<close>

record exchanger =
  ex_slot :: "nat \<Rightarrow> fptr option"
  ex_pending :: "nat \<Rightarrow> bool"
  ex_count :: nat
  slave_cur :: nat
  master_read :: nat
  master_write :: nat
  ex_pipe :: nat

definition ex_next :: "exchanger \<Rightarrow> nat \<Rightarrow> nat" where
  "ex_next ex i = Suc i mod ex_count ex"

text \<open>Without slots the source dereferences the uninitialised \<open>slave_cur\<close>.\<close>

definition new_exchanger :: "int \<Rightarrow> exchanger option" where
  "new_exchanger slots =
     (if slots \<le> 0 then None
      else Some \<lparr>ex_slot = (\<lambda>_. None), ex_pending = (\<lambda>_. False), ex_count = nat slots,
             slave_cur = 0, master_read = 0, master_write = 0, ex_pipe = 0\<rparr>)"

text \<open>
  \<open>exchanger_read\<close> with the result of its \<open>read\<close> of one byte; the result holds the frame to hand to
  the exchanger's callback. A \<open>read\<close> that fails for another reason than \<open>EAGAIN\<close> ends the process.
\<close>

definition exchanger_read :: "sys_ret \<Rightarrow> exchanger \<Rightarrow> (fptr option \<times> exchanger) option" where
  "exchanger_read ret ex =
     (case ret of
        Eagain \<Rightarrow> Some (None, ex)
      | Fail \<Rightarrow> None
      | Ret n \<Rightarrow>
          if n = 0 then None
          else
            let ex1 = ex\<lparr>ex_pipe := ex_pipe ex - n\<rparr> in
            (case ex_slot ex1 (master_read ex1) of
               None \<Rightarrow> Some (None, ex1\<lparr>ex_slot := (ex_slot ex1)(master_read ex1 := None),
                                       master_read := slave_cur ex1\<rparr>)
             | Some f \<Rightarrow> Some (Some f, ex1\<lparr>ex_slot := (ex_slot ex1)(master_read ex1 := None),
                                            master_read := ex_next ex1 (master_read ex1)\<rparr>)))"

definition exchange_frame :: "exchanger \<Rightarrow> fptr \<Rightarrow> int \<times> exchanger" where
  "exchange_frame ex f =
     (if ex_slot ex (master_write ex) \<noteq> None then (-1, ex)
      else (0, ex\<lparr>ex_slot := (ex_slot ex)(master_write ex := Some f),
                  ex_pending := (ex_pending ex)(master_write ex := True),
                  master_write := ex_next ex (master_write ex)\<rparr>))"

text \<open>\<open>get_next_frame\<close>; \<open>woken\<close> is the exchanger when the wait on the condition returns.\<close>

definition get_next_frame :: "exchanger \<Rightarrow> bool \<Rightarrow> exchanger \<Rightarrow> fptr option" where
  "get_next_frame ex wait woken =
     (let f = (if ex_pending ex (slave_cur ex) then ex_slot ex (slave_cur ex) else None) in
      if f = None \<and> wait
      then (if ex_pending woken (slave_cur woken) then ex_slot woken (slave_cur woken) else None)
      else f)"

text \<open>The part of \<open>deliver_frame\<close> on the ring: refused when one slot is left.\<close>

definition ex_push :: "fptr \<Rightarrow> exchanger \<Rightarrow> exchanger option" where
  "ex_push f ex =
     (if ex_next ex (slave_cur ex) = master_read ex then None
      else Some (ex\<lparr>ex_slot := (ex_slot ex)(slave_cur ex := Some f),
                    ex_pending := (ex_pending ex)(slave_cur ex := False),
                    ex_pipe := Suc (ex_pipe ex),
                    slave_cur := ex_next ex (slave_cur ex)\<rparr>))"

definition deliver_frame ::
  "sys_ret \<Rightarrow> exchanger \<Rightarrow> fptr \<Rightarrow> frame_heap \<Rightarrow> (int \<times> exchanger \<times> frame_heap) option" where
  "deliver_frame wret ex f h =
     (case ex_push f ex of
        None \<Rightarrow> do { h' \<leftarrow> unref_frame f h; Some (-1, ex, h') }
      | Some ex' \<Rightarrow>
          (case wret of
             Ret n \<Rightarrow> if n = 0 then None else Some (0, ex', h)
           | _ \<Rightarrow> None))"

text \<open>The event loop's side: the pipe is readable when it holds a byte.\<close>

definition ex_pop :: "exchanger \<Rightarrow> (fptr \<times> exchanger) option" where
  "ex_pop ex =
     (case exchanger_read (if ex_pipe ex = 0 then Eagain else Ret 1) ex of
        Some (Some f, ex') \<Rightarrow> Some (f, ex')
      | _ \<Rightarrow> None)"

subsection \<open>The exchanger is a queue\<close>

definition ex_frames :: "exchanger \<Rightarrow> fptr list" where
  "ex_frames ex = ring_slice (\<lambda>i. the (ex_slot ex i)) (ex_count ex) (master_read ex) (ex_pipe ex)"

definition ex_capacity :: "exchanger \<Rightarrow> nat" where
  "ex_capacity ex = ex_count ex - 1"

definition ex_inv :: "exchanger \<Rightarrow> bool" where
  "ex_inv ex \<longleftrightarrow>
     master_read ex < ex_count ex \<and> ex_pipe ex < ex_count ex \<and>
     slave_cur ex = (master_read ex + ex_pipe ex) mod ex_count ex \<and>
     (\<forall>k < ex_count ex. ex_slot ex ((master_read ex + k) mod ex_count ex) \<noteq> None \<longleftrightarrow> k < ex_pipe ex)"

lemma length_ex_frames: "length (ex_frames ex) = ex_pipe ex"
  by (simp add: ex_frames_def)

lemma ex_full:
  assumes "ex_inv ex"
  shows "ex_next ex (slave_cur ex) = master_read ex \<longleftrightarrow> Suc (ex_pipe ex) = ex_count ex"
proof (cases "Suc (ex_pipe ex) = ex_count ex")
  case True
  with assms show ?thesis by (simp add: ex_inv_def ex_next_def mod_simps flip: add_Suc_right)
next
  case False
  with assms have n: "Suc (ex_pipe ex) < ex_count ex" by (simp add: ex_inv_def)
  have "(master_read ex + Suc (ex_pipe ex)) mod ex_count ex \<noteq> master_read ex"
    using ring_index_inj [of "Suc (ex_pipe ex)" "ex_count ex" 0 "master_read ex"] n assms
    by (auto simp: ex_inv_def)
  with False assms show ?thesis by (simp add: ex_inv_def ex_next_def mod_simps)
qed

lemma ex_push_cases:
  assumes inv: "ex_inv ex"
  shows "case ex_push f ex of
      None \<Rightarrow> Suc (ex_pipe ex) = ex_count ex
    | Some ex' \<Rightarrow> Suc (ex_pipe ex) < ex_count ex \<and> ex_inv ex' \<and> ex_count ex' = ex_count ex \<and>
        ex_frames ex' = ex_frames ex @ [f]"
proof (cases "Suc (ex_pipe ex) = ex_count ex")
  case True
  then show ?thesis using ex_full [OF inv] by (simp add: ex_push_def)
next
  case False
  let ?N = "ex_count ex" and ?r = "master_read ex" and ?n = "ex_pipe ex" and ?s = "slave_cur ex"
  from False inv have n: "Suc ?n < ?N" and s: "?s = (?r + ?n) mod ?N" by (simp_all add: ex_inv_def)
  let ?ex' = "ex\<lparr>ex_slot := (ex_slot ex)(?s := Some f), ex_pending := (ex_pending ex)(?s := False),
                ex_pipe := Suc ?n, slave_cur := ex_next ex ?s\<rparr>"
  have push: "ex_push f ex = Some ?ex'" using False ex_full [OF inv] by (simp add: ex_push_def)
  have slots: "ex_slot ?ex' ((?r + k) mod ?N) \<noteq> None \<longleftrightarrow> k < Suc ?n" if k: "k < ?N" for k
  proof (cases "k = ?n")
    case True
    then show ?thesis by (simp add: s)
  next
    case False
    then have "(?r + k) mod ?N \<noteq> ?s" using ring_index_inj [of k ?N ?n ?r] k n s by auto
    with False k inv show ?thesis by (auto simp: ex_inv_def)
  qed
  have inv': "ex_inv ?ex'"
    using inv n slots by (auto simp: ex_inv_def ex_next_def mod_simps)
  have "ex_frames ?ex' = ring_slice ((\<lambda>i. the (ex_slot ex i))((?r + ?n) mod ?N := f)) ?N ?r (Suc ?n)"
    by (simp add: ex_frames_def fun_upd_def if_distrib s cong: if_cong)
  also have "\<dots> = ex_frames ex @ [f]"
    using n by (simp add: ring_slice_snoc ring_slice_update ex_frames_def)
  finally show ?thesis using push inv' n by simp
qed

lemma ex_pop_cases:
  assumes inv: "ex_inv ex"
  shows "case ex_pop ex of
      None \<Rightarrow> ex_pipe ex = 0
    | Some (f, ex') \<Rightarrow> ex_inv ex' \<and> ex_count ex' = ex_count ex \<and> ex_frames ex = f # ex_frames ex'"
proof (cases "ex_pipe ex")
  case 0
  then show ?thesis by (simp add: ex_pop_def exchanger_read_def)
next
  case (Suc m)
  let ?N = "ex_count ex" and ?r = "master_read ex"
  from inv Suc have r: "?r < ?N" and m: "Suc m < ?N" by (simp_all add: ex_inv_def)
  with inv Suc have "ex_slot ex ?r \<noteq> None" by (auto simp: ex_inv_def dest!: spec [of _ 0])
  then obtain f where f: "ex_slot ex ?r = Some f" by auto
  let ?ex' = "ex\<lparr>ex_pipe := m, ex_slot := (ex_slot ex)(?r := None), master_read := Suc ?r mod ?N\<rparr>"
  have pop: "ex_pop ex = Some (f, ?ex')"
    using Suc f by (simp add: ex_pop_def exchanger_read_def ex_next_def)
  have shift: "\<And>k. (Suc ?r mod ?N + k) mod ?N = (?r + Suc k) mod ?N" by (simp add: mod_simps)
  have slots: "ex_slot ?ex' ((?r + Suc k) mod ?N) \<noteq> None \<longleftrightarrow> k < m" if k: "k < ?N" for k
  proof (cases "Suc k = ?N")
    case True
    then have "(?r + Suc k) mod ?N = ?r" using r by simp
    with True m show ?thesis by auto
  next
    case False
    with k have k': "Suc k < ?N" by simp
    then have "(?r + Suc k) mod ?N \<noteq> ?r" using ring_index_inj [of "Suc k" ?N 0 ?r] r by auto
    moreover have "ex_slot ex ((?r + Suc k) mod ?N) \<noteq> None \<longleftrightarrow> Suc k < Suc m"
      using inv k' Suc unfolding ex_inv_def by metis
    ultimately show ?thesis by auto
  qed
  have inv': "ex_inv ?ex'"
    using inv m r slots by (simp add: ex_inv_def shift Suc)
  have "ex_frames ex = f # ring_slice (\<lambda>i. the (ex_slot ex i)) ?N (Suc ?r mod ?N) m"
    using f r by (simp add: ex_frames_def Suc ring_slice_Cons)
  also have "ring_slice (\<lambda>i. the (ex_slot ex i)) ?N (Suc ?r mod ?N) m = ex_frames ?ex'"
    unfolding ex_frames_def
  proof (simp, rule ring_slice_cong)
    fix k
    assume "k < m"
    with m r have "(?r + Suc k) mod ?N \<noteq> ?r" using ring_index_inj [of "Suc k" ?N 0 ?r] by auto
    then show "the (ex_slot ex ((Suc ?r mod ?N + k) mod ?N)) =
        the (if (Suc ?r mod ?N + k) mod ?N = ?r then None
             else ex_slot ex ((Suc ?r mod ?N + k) mod ?N))"
      by (simp only: shift if_False)
  qed
  finally show ?thesis using pop inv' by simp
qed

interpretation frame_exchange: bounded_fifo ex_push ex_pop ex_frames ex_capacity ex_inv
proof
  fix ex ex' f
  show "ex_inv ex \<Longrightarrow> ex_push f ex = None \<longleftrightarrow> length (ex_frames ex) = ex_capacity ex"
    using ex_push_cases [of ex f] by (auto simp: ex_frames_def ex_capacity_def split: option.splits)
  show "ex_inv ex \<Longrightarrow> ex_push f ex = Some ex' \<Longrightarrow>
      ex_frames ex' = ex_frames ex @ [f] \<and> ex_capacity ex' = ex_capacity ex \<and> ex_inv ex'"
    using ex_push_cases [of ex f] by (simp add: ex_capacity_def)
  show "ex_inv ex \<Longrightarrow> ex_pop ex = None \<longleftrightarrow> ex_frames ex = []"
    using ex_pop_cases [of ex] length_ex_frames [of ex] by (auto split: option.splits)
  show "ex_inv ex \<Longrightarrow> ex_pop ex = Some (f, ex') \<Longrightarrow>
      ex_frames ex = f # ex_frames ex' \<and> ex_capacity ex' = ex_capacity ex \<and> ex_inv ex'"
    using ex_pop_cases [of ex] by (simp add: ex_capacity_def)
  show "ex_inv ex \<Longrightarrow> length (ex_frames ex) \<le> ex_capacity ex"
    by (auto simp: ex_inv_def length_ex_frames ex_capacity_def)
qed

lemma new_exchanger_inv: "new_exchanger n = Some ex \<Longrightarrow>
    ex_inv ex \<and> ex_frames ex = [] \<and> ex_capacity ex = nat n - 1"
  by (auto simp: new_exchanger_def ex_inv_def ex_frames_def ex_capacity_def split: if_splits)

text \<open>
  C3: over any interleaving of deliveries by the encoder and reads by the event loop on a new
  exchanger, the frames handed to the stream are the accepted frames, in order, without loss or
  duplication, and at most one frame less than the number of slots is in flight.
\<close>

theorem exchanger_fifo:
  assumes "new_exchanger slots = Some ex" "fifo_run ex_push ex_pop ops ex = (acc, outs, ex')"
  shows "acc = outs @ ex_frames ex' \<and> length (ex_frames ex') \<le> nat slots - 1"
  using frame_exchange.run_fifo [OF _ assms(2)] new_exchanger_inv [OF assms(1)]
    frame_exchange.bounded [of ex'] by auto

theorem exchanger_fifo_witness:
  "(case fifo_run ex_push ex_pop [Enq 7, Enq 8, Deq, Enq 9, Enq 10] (the (new_exchanger 3)) of
      (acc, outs, ex') \<Rightarrow> acc = [7, 8, 9] \<and> outs = [7] \<and> acc = outs @ ex_frames ex')"
  using exchanger_fifo [of 3 "the (new_exchanger 3)" "[Enq 7, Enq 8, Deq, Enq 9, Enq 10]"]
  by (simp add: new_exchanger_def ex_push_def ex_pop_def ex_next_def exchanger_read_def)

text \<open>
  C4: a byte in the pipe always comes with a frame: on an exchanger used by \<open>deliver_frame\<close> and
  \<open>exchanger_read\<close> only, the branch "We lost a frame!" is never taken.
\<close>

theorem exchanger_never_loses:
  assumes "new_exchanger slots = Some ex" "fifo_run ex_push ex_pop ops ex = (acc, outs, ex')"
    and "0 < ex_pipe ex'"
  shows "\<exists>f ex''. exchanger_read (Ret 1) ex' = Some (Some f, ex'') \<and> ex_frames ex' = f # ex_frames ex''"
proof -
  have "ex_inv ex'"
    using frame_exchange.run_fifo [OF _ assms(2)] new_exchanger_inv [OF assms(1)] by auto
  with assms(3) ex_pop_cases [of ex'] obtain f ex'' where
    "ex_pop ex' = Some (f, ex'')" "ex_frames ex' = f # ex_frames ex''"
    by (auto split: option.splits)
  with assms(3) show ?thesis
    by (auto simp: ex_pop_def split: option.splits prod.splits)
qed

theorem exchanger_never_loses_witness:
  "(case fifo_run ex_push ex_pop [Enq 7, Enq 8, Deq] (the (new_exchanger 3)) of
      (acc, outs, ex') \<Rightarrow> 0 < ex_pipe ex' \<and> (\<exists>f ex''. exchanger_read (Ret 1) ex' = Some (Some f, ex'')))"
  using exchanger_never_loses [of 3 "the (new_exchanger 3)" "[Enq 7, Enq 8, Deq]"]
  by (simp add: new_exchanger_def ex_push_def ex_pop_def ex_next_def exchanger_read_def)

end
