(* ===== verification/Event.thy ===== *)
theory Event
  imports Prelude
begin

text \<open>
  event.c: time arithmetic and the event loop. An event is named by its address; the lists of
  events are built by insertion at the front, walked front to back, and only \<open>strip_events\<close> unlinks
  entries, after all walks of an iteration, so a walk sees the list as it was when it began and
  the lists are modelled as sequences of addresses. The soft queues are in theory SoftQueue.
\<close>

definition EVENT_TIME :: int where "EVENT_TIME = 1"
definition EVENT_FD :: int where "EVENT_FD = 2"
definition EVENT_ALWAYS :: int where "EVENT_ALWAYS = 3"
definition EVENT_SOFT_QUEUE :: int where "EVENT_SOFT_QUEUE = 4"

definition EVENT_F_ENABLED :: u32 where "EVENT_F_ENABLED = 1"
definition EVENT_F_REMOVE :: u32 where "EVENT_F_REMOVE = 2"
definition EVENT_F_ONESHOT :: u32 where "EVENT_F_ONESHOT = 4"
definition EVENT_F_RUNNING :: u32 where "EVENT_F_RUNNING = 8"

lemmas event_flags = EVENT_F_ENABLED_def EVENT_F_REMOVE_def EVENT_F_ONESHOT_def EVENT_F_RUNNING_def

subsection \<open>Time\<close>

text \<open>Seconds, microseconds and their differences are 32-bit \<open>long\<close> values; \<open>/\<close> and \<open>%\<close> truncate.\<close>

record time_ref =
  tv_sec :: int
  tv_usec :: int

definition time_diff :: "time_ref \<Rightarrow> time_ref \<Rightarrow> int" where
  "time_diff tr_start tr_end =
     s32 (s32 (s32 (s32 (s32 (tv_sec tr_end - tv_sec tr_start) * 1000000)
       + tv_usec tr_end) - tv_usec tr_start) + 500) sdiv 1000"

definition time_add :: "time_ref \<Rightarrow> int \<Rightarrow> time_ref" where
  "time_add tr msec =
     (let s = s32 (tv_sec tr + msec sdiv 1000);
          u = s32 (tv_usec tr + (msec smod 1000) * 1000)
      in if 1000000 \<le> u then \<lparr>tv_sec = s32 (s + 1), tv_usec = u - 1000000\<rparr>
         else \<lparr>tv_sec = s, tv_usec = u\<rparr>)"

subsection \<open>Events\<close>

text \<open>
  \<open>ev_func\<close> names the callback. The members of the union \<open>ev\<close> are separate fields; each event
  uses those of its type.
\<close>

record event =
  ev_func :: nat
  ev_type :: int
  ev_flags :: u32
  ev_fire :: time_ref
  ev_ival :: int
  ev_fd :: int
  ev_write :: bool

text \<open>
  The event lists and \<open>end_loop\<close>; \<open>ev_fresh\<close> is the next address \<open>malloc\<close> returns, and
  \<open>ev_clock\<close> the readings that the next calls of \<open>gettimeofday\<close> give.
\<close>

record ev_state =
  ev_mem :: "nat \<Rightarrow> event"
  ev_fresh :: nat
  time_event_list :: "nat list"
  fd_event_list :: "nat list"
  always_event_list :: "nat list"
  end_loop :: bool
  ev_clock :: "nat \<Rightarrow> time_ref"

definition upd_event :: "nat \<Rightarrow> (event \<Rightarrow> event) \<Rightarrow> ev_state \<Rightarrow> ev_state" where
  "upd_event e g st = st\<lparr>ev_mem := (ev_mem st)(e := g (ev_mem st e))\<rparr>"

definition has_flag :: "ev_state \<Rightarrow> nat \<Rightarrow> u32 \<Rightarrow> bool" where
  "has_flag st e f \<longleftrightarrow> ev_flags (ev_mem st e) AND f \<noteq> 0"

definition set_flag :: "nat \<Rightarrow> u32 \<Rightarrow> ev_state \<Rightarrow> ev_state" where
  "set_flag e f = upd_event e (\<lambda>ev. ev\<lparr>ev_flags := ev_flags ev OR f\<rparr>)"

definition clear_flag :: "nat \<Rightarrow> u32 \<Rightarrow> ev_state \<Rightarrow> ev_state" where
  "clear_flag e f = upd_event e (\<lambda>ev. ev\<lparr>ev_flags := ev_flags ev AND NOT f\<rparr>)"

definition time_now :: "ev_state \<Rightarrow> time_ref \<times> ev_state" where
  "time_now st = (ev_clock st 0, st\<lparr>ev_clock := \<lambda>n. ev_clock st (Suc n)\<rparr>)"

definition time_ago :: "time_ref \<Rightarrow> ev_state \<Rightarrow> int \<times> ev_state" where
  "time_ago tr st = (case time_now st of (now, st') \<Rightarrow> (time_diff tr now, st'))"

definition time_future :: "int \<Rightarrow> ev_state \<Rightarrow> time_ref \<times> ev_state" where
  "time_future msec st = (case time_now st of (now, st') \<Rightarrow> (time_add now msec, st'))"

definition new_event :: "nat \<Rightarrow> ev_state \<Rightarrow> nat \<times> ev_state" where
  "new_event f st =
     (ev_fresh st, st\<lparr>ev_fresh := Suc (ev_fresh st),
        ev_mem := (ev_mem st)(ev_fresh st := \<lparr>ev_func = f, ev_type = 0, ev_flags = 0,
          ev_fire = \<lparr>tv_sec = 0, tv_usec = 0\<rparr>, ev_ival = 0, ev_fd = 0, ev_write = False\<rparr>)\<rparr>)"

definition resched_event :: "nat \<Rightarrow> time_ref option \<Rightarrow> ev_state \<Rightarrow> ev_state" where
  "resched_event e tr st =
     (let (fire, st1) =
        (case tr of
           Some t \<Rightarrow> (t, st)
         | None \<Rightarrow>
             if has_flag st e EVENT_F_ENABLED
             then (time_add (ev_fire (ev_mem st e)) (ev_ival (ev_mem st e)), st)
             else time_future (ev_ival (ev_mem st e)) st)
      in set_flag e EVENT_F_ENABLED (clear_flag e EVENT_F_REMOVE
           (upd_event e (\<lambda>ev. ev\<lparr>ev_fire := fire\<rparr>) st1)))"

definition add_timer_event :: "int \<Rightarrow> u32 \<Rightarrow> nat \<Rightarrow> ev_state \<Rightarrow> nat \<times> ev_state" where
  "add_timer_event msec flags f st =
     (let (e, st1) = new_event f st;
          st2 = upd_event e (\<lambda>ev. ev\<lparr>ev_type := EVENT_TIME, ev_flags := flags, ev_ival := msec\<rparr>) st1;
          (now, st3) = time_now (st2\<lparr>time_event_list := e # time_event_list st2\<rparr>)
      in (e, resched_event e None (upd_event e (\<lambda>ev. ev\<lparr>ev_fire := now\<rparr>) st3)))"

definition add_alarm_event :: "time_ref \<Rightarrow> u32 \<Rightarrow> nat \<Rightarrow> ev_state \<Rightarrow> nat \<times> ev_state" where
  "add_alarm_event t flags f st =
     (let (e, st1) = new_event f st;
          st2 = upd_event e (\<lambda>ev. ev\<lparr>ev_type := EVENT_TIME, ev_flags := flags OR EVENT_F_ONESHOT\<rparr>) st1
      in (e, resched_event e (Some t) (st2\<lparr>time_event_list := e # time_event_list st2\<rparr>)))"

definition add_fd_event :: "int \<Rightarrow> bool \<Rightarrow> u32 \<Rightarrow> nat \<Rightarrow> ev_state \<Rightarrow> nat \<times> ev_state" where
  "add_fd_event fd write flags f st =
     (let (e, st1) = new_event f st;
          st2 = upd_event e (\<lambda>ev. ev\<lparr>ev_type := EVENT_FD, ev_flags := flags OR EVENT_F_ENABLED,
                  ev_fd := fd, ev_write := write\<rparr>) st1
      in (e, st2\<lparr>fd_event_list := e # fd_event_list st2\<rparr>))"

definition add_always_event :: "u32 \<Rightarrow> nat \<Rightarrow> ev_state \<Rightarrow> nat \<times> ev_state" where
  "add_always_event flags f st =
     (let (e, st1) = new_event f st;
          st2 = upd_event e (\<lambda>ev. ev\<lparr>ev_type := EVENT_ALWAYS,
                  ev_flags := flags OR EVENT_F_ENABLED\<rparr>) st1
      in (e, st2\<lparr>always_event_list := e # always_event_list st2\<rparr>))"

definition remove_event :: "nat \<Rightarrow> ev_state \<Rightarrow> ev_state" where
  "remove_event e st =
     clear_flag e (EVENT_F_RUNNING OR EVENT_F_ENABLED) (set_flag e EVENT_F_REMOVE st)"

definition set_event_interval :: "nat \<Rightarrow> int \<Rightarrow> ev_state \<Rightarrow> ev_state" where
  "set_event_interval e msec st =
     (let st1 = upd_event e (\<lambda>ev. ev\<lparr>ev_ival := msec\<rparr>) st
      in if has_flag st1 e EVENT_F_ENABLED then resched_event e None st1 else st1)"

definition set_event_enabled :: "nat \<Rightarrow> bool \<Rightarrow> ev_state \<Rightarrow> ev_state" where
  "set_event_enabled e enabled st =
     (let st1 = clear_flag e EVENT_F_ENABLED st
      in if enabled then set_flag e EVENT_F_ENABLED st1 else st1)"

definition get_event_enabled :: "nat \<Rightarrow> ev_state \<Rightarrow> int" where
  "get_event_enabled e st = (if has_flag st e EVENT_F_ENABLED then 1 else 0)"

definition exit_event_loop :: "ev_state \<Rightarrow> ev_state" where
  "exit_event_loop st = st\<lparr>end_loop := True\<rparr>"

definition strip_events :: "ev_state \<Rightarrow> nat list \<Rightarrow> nat list" where
  "strip_events st es = [e \<leftarrow> es. \<not> has_flag st e EVENT_F_REMOVE]"

subsection \<open>The event loop\<close>

text \<open>
  A callback acts on the events through the functions above: \<open>ev_op\<close> is one such call, and a
  callback is the sequence of its calls, chosen from its address, its event and the state.
\<close>

datatype ev_op =
    Op_timer int u32 nat
  | Op_alarm time_ref u32 nat
  | Op_resched nat "time_ref option"
  | Op_fd int bool u32 nat
  | Op_always u32 nat
  | Op_remove nat
  | Op_interval nat int
  | Op_enabled nat bool
  | Op_exit

type_synonym callback = "nat \<Rightarrow> nat \<Rightarrow> ev_state \<Rightarrow> ev_op list"

fun run_op :: "ev_op \<Rightarrow> ev_state \<Rightarrow> ev_state" where
  "run_op (Op_timer msec flags f) st = snd (add_timer_event msec flags f st)"
| "run_op (Op_alarm t flags f) st = snd (add_alarm_event t flags f st)"
| "run_op (Op_resched e tr) st = resched_event e tr st"
| "run_op (Op_fd fd w flags f) st = snd (add_fd_event fd w flags f st)"
| "run_op (Op_always flags f) st = snd (add_always_event flags f st)"
| "run_op (Op_remove e) st = remove_event e st"
| "run_op (Op_interval e msec) st = set_event_interval e msec st"
| "run_op (Op_enabled e b) st = set_event_enabled e b st"
| "run_op Op_exit st = exit_event_loop st"

definition call_back :: "callback \<Rightarrow> nat \<Rightarrow> ev_state \<Rightarrow> ev_state" where
  "call_back cb e st = fold run_op (cb (ev_func (ev_mem st e)) e st) st"

text \<open>The timeout computed by the first two walks: \<^term>\<open>None\<close> while \<open>st\<close> is \<open>NULL\<close>.\<close>

fun mark_time :: "nat list \<Rightarrow> int option \<Rightarrow> ev_state \<Rightarrow> int option \<times> ev_state" where
  "mark_time [] nexttime st = (nexttime, st)"
| "mark_time (e # es) nexttime st =
     (if has_flag st e EVENT_F_ENABLED then
        (let (ago, st1) = time_ago (ev_fire (ev_mem st e)) st;
             diff = (if s32 (- ago) < 5 then 0 else s32 (- ago));
             next' = (case nexttime of None \<Rightarrow> diff | Some t \<Rightarrow> if diff < t then diff else t)
         in mark_time es (Some next') (set_flag e EVENT_F_RUNNING st1))
      else mark_time es nexttime (clear_flag e EVENT_F_RUNNING st))"

fun mark_always :: "nat list \<Rightarrow> int option \<Rightarrow> ev_state \<Rightarrow> int option \<times> ev_state" where
  "mark_always [] nexttime st = (nexttime, st)"
| "mark_always (e # es) nexttime st =
     (if has_flag st e EVENT_F_ENABLED
      then mark_always es (Some 0) (set_flag e EVENT_F_RUNNING st)
      else mark_always es nexttime (clear_flag e EVENT_F_RUNNING st))"

definition select_timeout :: "int option \<Rightarrow> time_ref option" where
  "select_timeout nexttime =
     map_option (\<lambda>t. \<lparr>tv_sec = t sdiv 1000, tv_usec = (t smod 1000) * 1000\<rparr>) nexttime"

text \<open>The descriptors to wait for; \<open>FD_SET\<close> outside \<open>0..<FD_SETSIZE\<close> is undefined.\<close>

definition FD_SETSIZE :: int where "FD_SETSIZE = 1024"

fun mark_fd :: "nat list \<Rightarrow> int list \<times> int list \<times> int \<Rightarrow> ev_state \<Rightarrow>
    ((int list \<times> int list \<times> int) \<times> ev_state) option" where
  "mark_fd [] sets st = Some (sets, st)"
| "mark_fd (e # es) (rfds, wfds, highfd) st =
     (if has_flag st e EVENT_F_ENABLED then
        (let ev = ev_mem st e in
         if ev_fd ev < 0 \<or> FD_SETSIZE \<le> ev_fd ev then None
         else mark_fd es
           (if ev_write ev then rfds else ev_fd ev # rfds,
            if ev_write ev then ev_fd ev # wfds else wfds,
            max (ev_fd ev) highfd) (set_flag e EVENT_F_RUNNING st))
      else mark_fd es (rfds, wfds, highfd) (clear_flag e EVENT_F_RUNNING st))"

text \<open>The walks that call the callbacks; each returns the events it called.\<close>

fun run_time :: "callback \<Rightarrow> nat list \<Rightarrow> ev_state \<Rightarrow> nat list \<times> ev_state" where
  "run_time cb [] st = ([], st)"
| "run_time cb (e # es) st =
     (if \<not> has_flag st e EVENT_F_RUNNING then run_time cb es st
      else if end_loop st then ([], st)
      else
        (let (ago, st1) = time_ago (ev_fire (ev_mem st e)) st in
         if s32 (- ago) < 5 then
           (let st2 = (if has_flag st1 e EVENT_F_ONESHOT then set_flag e EVENT_F_REMOVE st1
                       else resched_event e None st1);
                (fired, st3) = run_time cb es (call_back cb e st2)
            in (e # fired, st3))
         else run_time cb es st1))"

fun run_ready :: "(ev_state \<Rightarrow> nat \<Rightarrow> bool) \<Rightarrow> callback \<Rightarrow> nat list \<Rightarrow> ev_state \<Rightarrow>
    nat list \<times> ev_state" where
  "run_ready ready cb [] st = ([], st)"
| "run_ready ready cb (e # es) st =
     (if \<not> has_flag st e EVENT_F_RUNNING then run_ready ready cb es st
      else if end_loop st then ([], st)
      else if ready st e then
        (let st1 = (if has_flag st e EVENT_F_ONESHOT then set_flag e EVENT_F_REMOVE st else st);
             (fired, st2) = run_ready ready cb es (call_back cb e st1)
         in (e # fired, st2))
      else run_ready ready cb es st)"

text \<open>The outcome of \<open>select\<close>: its return value and the two sets as it leaves them.\<close>

record select_ret =
  sel_ret :: int
  sel_rfds :: "int list"
  sel_wfds :: "int list"

definition fd_isset :: "select_ret \<Rightarrow> ev_state \<Rightarrow> nat \<Rightarrow> bool" where
  "fd_isset sel st e =
     (let ev = ev_mem st e in
      ev_fd ev \<in> set (if ev_write ev then sel_wfds sel else sel_rfds sel))"

text \<open>The three calling walks of an iteration.\<close>

definition run_walks :: "callback \<Rightarrow> select_ret \<Rightarrow> ev_state \<Rightarrow> nat list \<times> ev_state" where
  "run_walks cb sel st3 =
     (let (fired1, st4) = run_time cb (time_event_list st3) st3;
          (fired2, st5) = run_ready (\<lambda>_ _. True) cb (always_event_list st4) st4;
          (fired3, st6) = (if 0 < sel_ret sel then run_ready (fd_isset sel) cb (fd_event_list st5) st5
                           else ([], st5))
      in (fired1 @ fired2 @ fired3, st6))"

definition event_loop_once ::
  "callback \<Rightarrow> (int \<Rightarrow> int list \<Rightarrow> int list \<Rightarrow> time_ref option \<Rightarrow> select_ret) \<Rightarrow>
   ev_state \<Rightarrow> (nat list \<times> ev_state) option" where
  "event_loop_once cb select st = do {
     let (nexttime, st1) = mark_time (time_event_list st) None st;
     let (nexttime, st2) = mark_always (always_event_list st1) nexttime st1;
     ((rfds, wfds, highfd), st3) \<leftarrow> mark_fd (fd_event_list st2) ([], [], -1) st2;
     let sel = select (highfd + 1) rfds wfds (select_timeout nexttime);
     let (fired, st6) = run_walks cb sel st3;
     Some (fired,
       st6\<lparr>time_event_list := strip_events st6 (time_event_list st6),
           fd_event_list := strip_events st6 (fd_event_list st6),
           always_event_list := strip_events st6 (always_event_list st6)\<rparr>)
   }"

text \<open>
  \<open>event_loop\<close> over the outcomes of the successive calls of \<open>select\<close>; when they run out the process
  waits in \<open>select\<close>. The result holds the events called in each iteration.
\<close>

fun loop_iter :: "callback \<Rightarrow> bool \<Rightarrow>
    (int \<Rightarrow> int list \<Rightarrow> int list \<Rightarrow> time_ref option \<Rightarrow> select_ret) list \<Rightarrow> ev_state \<Rightarrow>
    (nat list list \<times> ev_state) option" where
  "loop_iter cb single [] st = Some ([], st)"
| "loop_iter cb single (select # sels) st = do {
     (fired, st1) \<leftarrow> event_loop_once cb select st;
     (if \<not> end_loop st1 \<and> \<not> single
      then do { (rest, st2) \<leftarrow> loop_iter cb single sels st1; Some (fired # rest, st2) }
      else Some ([fired], st1))
   }"

definition event_loop :: "callback \<Rightarrow> bool \<Rightarrow>
    (int \<Rightarrow> int list \<Rightarrow> int list \<Rightarrow> time_ref option \<Rightarrow> select_ret) list \<Rightarrow> ev_state \<Rightarrow>
    (nat list list \<times> ev_state) option" where
  "event_loop cb single sels st = loop_iter cb single sels (st\<lparr>end_loop := False\<rparr>)"


subsection \<open>Properties of the time arithmetic\<close>

lemma time_diff_eq: "time_diff a b =
    s32 ((tv_sec b - tv_sec a) * 1000000 + tv_usec b - tv_usec a + 500) sdiv 1000"
  by (simp add: time_diff_def)

text \<open>
  C7: \<open>time_diff\<close> measures, in milliseconds, what \<open>time_add\<close> added, as long as the interval stays
  below the 2147 seconds that fit a 32-bit count of microseconds.
\<close>

theorem time_diff_add:
  assumes "0 \<le> tv_usec t" "tv_usec t < 1000000" "0 \<le> tv_sec t" "tv_sec t < 2 ^ 31 - 2148"
    and "0 \<le> ms" "ms \<le> 2147482"
  shows "time_diff t (time_add t ms) = ms"
proof -
  define q where "q = ms div 1000"
  define r where "r = ms mod 1000"
  have d: "ms sdiv 1000 = q" "ms smod 1000 = r"
    using assms unfolding q_def r_def
    by (simp_all add: signed_divide_int_def signed_modulo_int_def sgn_if minus_mult_div_eq_mod)
  have r: "0 \<le> r" "r < 1000" and q: "0 \<le> q" "q \<le> 2147" and ms: "ms = q * 1000 + r"
    using assms unfolding q_def r_def by simp_all
  have total: "s32 (ms * 1000 + 500) sdiv 1000 = ms"
    using assms by (simp add: signed_divide_int_def sgn_if)
  define c where "c = (if 1000000 \<le> tv_usec t + r * 1000 then 1 else 0 :: int)"
  have sum: "time_add t ms = \<lparr>tv_sec = tv_sec t + q + c, tv_usec = tv_usec t + r * 1000 - c * 1000000\<rparr>"
    using assms r q by (simp add: time_add_def Let_def d c_def)
  have "time_diff t (time_add t ms) = s32 ((q + c) * 1000000 + (r * 1000 - c * 1000000) + 500) sdiv 1000"
    unfolding time_diff_eq sum by (simp add: algebra_simps)
  also have "(q + c) * 1000000 + (r * 1000 - c * 1000000) + 500 = ms * 1000 + 500"
    using ms by (simp add: algebra_simps)
  finally show ?thesis using total by simp
qed

theorem time_diff_add_witness:
  "time_diff \<lparr>tv_sec = 1500000000, tv_usec = 999500\<rparr>
     (time_add \<lparr>tv_sec = 1500000000, tv_usec = 999500\<rparr> 5000) = 5000"
  using time_diff_add [of "\<lparr>tv_sec = 1500000000, tv_usec = 999500\<rparr>" 5000] by simp

subsection \<open>What a callback can change\<close>

lemma has_flag_bit:
  "has_flag st e EVENT_F_ENABLED = bit (ev_flags (ev_mem st e)) 0"
  "has_flag st e EVENT_F_REMOVE = bit (ev_flags (ev_mem st e)) 1"
  "has_flag st e EVENT_F_ONESHOT = bit (ev_flags (ev_mem st e)) 2"
  "has_flag st e EVENT_F_RUNNING = bit (ev_flags (ev_mem st e)) 3"
  by (simp_all add: has_flag_def event_flags bit_iff_and_push_bit_not_eq_0)


lemma upd_event_simps [simp]:
  "ev_mem (upd_event e g st) = (ev_mem st)(e := g (ev_mem st e))"
  "ev_fresh (upd_event e g st) = ev_fresh st"
  "time_event_list (upd_event e g st) = time_event_list st"
  "fd_event_list (upd_event e g st) = fd_event_list st"
  "always_event_list (upd_event e g st) = always_event_list st"
  "end_loop (upd_event e g st) = end_loop st"
  by (simp_all add: upd_event_def)

lemma flag_bits [simp]:
  "bit EVENT_F_ENABLED n \<longleftrightarrow> n = 0" "bit EVENT_F_REMOVE n \<longleftrightarrow> n = 1"
  "bit EVENT_F_ONESHOT n \<longleftrightarrow> n = 2" "bit EVENT_F_RUNNING n \<longleftrightarrow> n = 3"
proof -
  have e: "EVENT_F_ENABLED = 2 ^ 0" "EVENT_F_REMOVE = 2 ^ 1" "EVENT_F_ONESHOT = 2 ^ 2"
    "EVENT_F_RUNNING = 2 ^ 3" by (simp_all add: event_flags)
  show "bit EVENT_F_ENABLED n \<longleftrightarrow> n = 0" "bit EVENT_F_REMOVE n \<longleftrightarrow> n = 1"
    "bit EVENT_F_ONESHOT n \<longleftrightarrow> n = 2" "bit EVENT_F_RUNNING n \<longleftrightarrow> n = 3"
    unfolding e bit_exp_iff by auto
qed

text \<open>Callers of the \<open>add_*\<close> functions never pass \<open>EVENT_F_RUNNING\<close>.\<close>

definition op_ok :: "ev_op \<Rightarrow> bool" where
  "op_ok op = (case op of
       Op_timer _ flags _ \<Rightarrow> flags AND EVENT_F_RUNNING = 0
     | Op_alarm _ flags _ \<Rightarrow> flags AND EVENT_F_RUNNING = 0
     | Op_fd _ _ flags _ \<Rightarrow> flags AND EVENT_F_RUNNING = 0
     | Op_always flags _ \<Rightarrow> flags AND EVENT_F_RUNNING = 0
     | _ \<Rightarrow> True)"

definition cb_ok :: "callback \<Rightarrow> bool" where
  "cb_ok cb \<longleftrightarrow> (\<forall>f e st. \<forall>op \<in> set (cb f e st). op_ok op)"

definition ev_lists :: "ev_state \<Rightarrow> nat list" where
  "ev_lists st = time_event_list st @ fd_event_list st @ always_event_list st"

definition ev_wf :: "ev_state \<Rightarrow> bool" where
  "ev_wf st \<longleftrightarrow> distinct (ev_lists st) \<and> (\<forall>e \<in> set (ev_lists st). e < ev_fresh st)"

text \<open>
  \<open>ev_ext st st'\<close>: between the two states events were only added, at the front and at new
  addresses, and no event became runnable.
\<close>

definition ev_ext :: "ev_state \<Rightarrow> ev_state \<Rightarrow> bool" where
  "ev_ext st st' \<longleftrightarrow>
     (\<exists>t f a. time_event_list st' = t @ time_event_list st \<and> fd_event_list st' = f @ fd_event_list st \<and>
        always_event_list st' = a @ always_event_list st \<and> distinct (t @ f @ a) \<and>
        set (t @ f @ a) \<subseteq> {ev_fresh st..<ev_fresh st'}) \<and>
     ev_fresh st \<le> ev_fresh st' \<and>
     (\<forall>e < ev_fresh st'. has_flag st' e EVENT_F_RUNNING \<longrightarrow>
        e < ev_fresh st \<and> has_flag st e EVENT_F_RUNNING)"

lemma ev_ext_same:
  assumes "ev_fresh st' = ev_fresh st" "time_event_list st' = time_event_list st"
    "fd_event_list st' = fd_event_list st" "always_event_list st' = always_event_list st"
    "\<And>e. e < ev_fresh st \<Longrightarrow> has_flag st' e EVENT_F_RUNNING \<Longrightarrow> has_flag st e EVENT_F_RUNNING"
  shows "ev_ext st st'"
  using assms by (auto simp: ev_ext_def)

lemma ev_ext_refl [simp]: "ev_ext st st"
  by (rule ev_ext_same) auto

lemma ev_ext_trans:
  assumes "ev_ext a b" "ev_ext b c"
  shows "ev_ext a c"
proof -
  from assms(1) obtain t f l where 1: "time_event_list b = t @ time_event_list a"
    "fd_event_list b = f @ fd_event_list a" "always_event_list b = l @ always_event_list a"
    "distinct (t @ f @ l)" "set (t @ f @ l) \<subseteq> {ev_fresh a..<ev_fresh b}" "ev_fresh a \<le> ev_fresh b"
    by (auto simp: ev_ext_def)
  from assms(2) obtain t' f' l' where 2: "time_event_list c = t' @ time_event_list b"
    "fd_event_list c = f' @ fd_event_list b" "always_event_list c = l' @ always_event_list b"
    "distinct (t' @ f' @ l')" "set (t' @ f' @ l') \<subseteq> {ev_fresh b..<ev_fresh c}" "ev_fresh b \<le> ev_fresh c"
    by (auto simp: ev_ext_def)
  have lo: "ev_fresh a \<le> x" "x < ev_fresh b" if "x \<in> set (t @ f @ l)" for x
    using subsetD [OF 1(5) that] by auto
  have hi: "ev_fresh b \<le> x" "x < ev_fresh c" if "x \<in> set (t' @ f' @ l')" for x
    using subsetD [OF 2(5) that] by auto
  have "set (t @ f @ l) \<inter> set (t' @ f' @ l') = {}"
    using lo(2) hi(1) by (metis disjoint_iff leD)
  then have "distinct ((t' @ t) @ (f' @ f) @ (l' @ l))" using 1(4) 2(4) by auto
  moreover have "set ((t' @ t) @ (f' @ f) @ (l' @ l)) \<subseteq> {ev_fresh a..<ev_fresh c}"
  proof
    fix x
    assume "x \<in> set ((t' @ t) @ (f' @ f) @ (l' @ l))"
    then have "x \<in> set (t @ f @ l) \<or> x \<in> set (t' @ f' @ l')" by auto
    then show "x \<in> {ev_fresh a..<ev_fresh c}" using lo [of x] hi [of x] 1(6) 2(6) by auto
  qed
  moreover have "\<forall>e < ev_fresh c. has_flag c e EVENT_F_RUNNING \<longrightarrow>
      e < ev_fresh a \<and> has_flag a e EVENT_F_RUNNING"
    using assms unfolding ev_ext_def by blast
  ultimately show ?thesis
    unfolding ev_ext_def using 1(1-3,6) 2(1-3,6)
    by - (rule conjI, rule exI [of _ "t' @ t"], rule exI [of _ "f' @ f"], rule exI [of _ "l' @ l"],
        simp_all)
qed

lemma ev_ext_wf:
  assumes "ev_ext st st'" "ev_wf st"
  shows "ev_wf st'"
proof -
  from assms(1) obtain t f l where 1: "time_event_list st' = t @ time_event_list st"
    "fd_event_list st' = f @ fd_event_list st" "always_event_list st' = l @ always_event_list st"
    "distinct (t @ f @ l)" "set (t @ f @ l) \<subseteq> {ev_fresh st..<ev_fresh st'}" "ev_fresh st \<le> ev_fresh st'"
    by (auto simp: ev_ext_def)
  have new: "ev_fresh st \<le> x" "x < ev_fresh st'" if "x \<in> set (t @ f @ l)" for x
    using subsetD [OF 1(5) that] by auto
  have old: "x < ev_fresh st" if "x \<in> set (ev_lists st)" for x using assms(2) that by (simp add: ev_wf_def)
  have "set (t @ f @ l) \<inter> set (ev_lists st) = {}"
    using new(1) old by (metis disjoint_iff leD)
  then have "distinct (ev_lists st')" using 1(1-4) assms(2) by (auto simp: ev_lists_def ev_wf_def)
  moreover have "x < ev_fresh st'" if "x \<in> set (ev_lists st')" for x
  proof -
    from that 1(1-3) have "x \<in> set (t @ f @ l) \<or> x \<in> set (ev_lists st)" by (auto simp: ev_lists_def)
    then show ?thesis using new [of x] old [of x] 1(6) by auto
  qed
  ultimately show ?thesis by (simp add: ev_wf_def)
qed

lemmas ev_defs = has_flag_bit set_flag_def clear_flag_def bit_or_iff bit_and_iff bit_not_iff
  time_now_def time_ago_def time_future_def new_event_def

lemma time_now_ext: "ev_ext st (snd (time_now st))"
  by (rule ev_ext_same) (simp_all add: ev_defs)

lemma set_flag_ext: "f \<in> {EVENT_F_ENABLED, EVENT_F_REMOVE} \<Longrightarrow> ev_ext st (set_flag e f st)"
  by (rule ev_ext_same) (auto simp: ev_defs split: if_splits)

lemma clear_flag_ext: "ev_ext st (clear_flag e f st)"
  by (rule ev_ext_same) (auto simp: ev_defs split: if_splits)

lemma resched_event_ext: "ev_ext st (resched_event e tr st)"
  by (rule ev_ext_same)
    (auto simp: resched_event_def ev_defs split: if_splits option.splits)

lemma ev_ext_new:
  assumes "ev_fresh st' = Suc (ev_fresh st)"
    and "(time_event_list st', fd_event_list st', always_event_list st') \<in>
      {(ev_fresh st # time_event_list st, fd_event_list st, always_event_list st),
       (time_event_list st, ev_fresh st # fd_event_list st, always_event_list st),
       (time_event_list st, fd_event_list st, ev_fresh st # always_event_list st)}"
    and "\<And>e. e < ev_fresh st \<Longrightarrow> ev_mem st' e = ev_mem st e"
    and "\<not> has_flag st' (ev_fresh st) EVENT_F_RUNNING"
  shows "ev_ext st st'"
proof -
  have "\<exists>t f a. time_event_list st' = t @ time_event_list st \<and> fd_event_list st' = f @ fd_event_list st \<and>
      always_event_list st' = a @ always_event_list st \<and> t @ f @ a = [ev_fresh st]"
    using assms(2) by (elim insertE) (force intro: exI [of _ "[ev_fresh st]"] exI [of _ "[]"])+
  then obtain t f a where "time_event_list st' = t @ time_event_list st"
    "fd_event_list st' = f @ fd_event_list st" "always_event_list st' = a @ always_event_list st"
    and new: "t @ f @ a = [ev_fresh st]" by blast
  moreover from new have "distinct (t @ f @ a)" "set (t @ f @ a) \<subseteq> {ev_fresh st..<ev_fresh st'}"
    unfolding new by (simp_all add: assms(1))
  moreover have "\<forall>e < Suc (ev_fresh st). has_flag st' e EVENT_F_RUNNING \<longrightarrow>
      e < ev_fresh st \<and> has_flag st e EVENT_F_RUNNING"
    using assms(3,4) by (auto simp: has_flag_def less_Suc_eq)
  ultimately show ?thesis unfolding ev_ext_def assms(1) by (intro conjI) (blast, simp_all)
qed

lemma add_event_ext:
  assumes "flags AND EVENT_F_RUNNING = 0"
  shows "ev_ext st (snd (add_timer_event msec flags f st))"
    and "ev_ext st (snd (add_alarm_event t flags f st))"
    and "ev_ext st (snd (add_fd_event fd w flags f st))"
    and "ev_ext st (snd (add_always_event flags f st))"
proof -
  have "bit (flags AND EVENT_F_RUNNING) 3 = False" using assms by simp
  then have [simp]: "\<not> bit flags 3" by (simp add: bit_and_iff)
  note defs = add_timer_event_def add_alarm_event_def add_fd_event_def add_always_event_def
    resched_event_def Let_def ev_defs
  show "ev_ext st (snd (add_timer_event msec flags f st))"
    by (rule ev_ext_new) (auto simp: defs split: if_splits)
  show "ev_ext st (snd (add_alarm_event t flags f st))"
    by (rule ev_ext_new) (auto simp: defs split: if_splits)
  show "ev_ext st (snd (add_fd_event fd w flags f st))"
    by (rule ev_ext_new) (auto simp: defs split: if_splits)
  show "ev_ext st (snd (add_always_event flags f st))"
    by (rule ev_ext_new) (auto simp: defs split: if_splits)
qed

lemma run_op_ext:
  assumes "op_ok op"
  shows "ev_ext st (run_op op st)"
proof (cases op)
  case (Op_remove e)
  then show ?thesis
    by (simp add: remove_event_def)
      (rule ev_ext_trans [OF set_flag_ext clear_flag_ext], simp)
next
  case (Op_interval e msec)
  have "ev_ext st (upd_event e (\<lambda>ev. ev\<lparr>ev_ival := msec\<rparr>) st)"
    by (rule ev_ext_same) (auto simp: has_flag_def split: if_splits)
  with Op_interval show ?thesis
    by (auto simp: set_event_interval_def Let_def intro: ev_ext_trans resched_event_ext)
next
  case (Op_enabled e b)
  have "ev_ext st (set_flag e EVENT_F_ENABLED (clear_flag e EVENT_F_ENABLED st))"
    by (rule ev_ext_trans [OF clear_flag_ext set_flag_ext]) simp
  with Op_enabled show ?thesis by (simp add: set_event_enabled_def Let_def clear_flag_ext)
next
  case Op_exit
  then show ?thesis by (simp add: exit_event_loop_def) (rule ev_ext_same, simp_all add: has_flag_def)
qed (use assms in \<open>simp_all add: op_ok_def add_event_ext resched_event_ext\<close>)

lemma run_ops_ext: "\<forall>op \<in> set ops. op_ok op \<Longrightarrow> ev_ext st (fold run_op ops st)"
  by (induction ops arbitrary: st) (auto intro: ev_ext_trans run_op_ext)

lemma call_back_ext: "cb_ok cb \<Longrightarrow> ev_ext st (call_back cb e st)"
  by (simp add: call_back_def cb_ok_def run_ops_ext)

lemma ev_ext_fresh: "ev_ext st st' \<Longrightarrow> ev_fresh st \<le> ev_fresh st'"
  by (simp add: ev_ext_def)

lemma ev_ext_running:
  "ev_ext st st' \<Longrightarrow> e < ev_fresh st' \<Longrightarrow> has_flag st' e EVENT_F_RUNNING \<Longrightarrow> has_flag st e EVENT_F_RUNNING"
  by (simp add: ev_ext_def)

lemma ev_ext_walk:
  assumes ext: "ev_ext st s" and low: "\<forall>x \<in> set (e # es). x < ev_fresh st"
    and IH: "\<forall>x \<in> set es. x < ev_fresh s \<Longrightarrow>
      ev_ext s st' \<and> set fs \<subseteq> {x \<in> set es. has_flag s x EVENT_F_RUNNING} \<and> D"
  shows "ev_ext st st' \<and> set fs \<subseteq> {x \<in> set es. has_flag st x EVENT_F_RUNNING} \<and> D"
proof -
  have low': "\<forall>x \<in> set es. x < ev_fresh s"
    using low ev_ext_fresh [OF ext] by (meson list.set_intros(2) less_le_trans)
  note ih = IH [OF low']
  have "x \<in> set es \<and> has_flag st x EVENT_F_RUNNING" if "x \<in> set fs" for x
    using ih that low' ev_ext_running [OF ext, of x] by blast
  moreover have "ev_ext st st'" using ih ev_ext_trans [OF ext] by blast
  ultimately show ?thesis using ih by blast
qed

lemma run_time_ext:
  assumes "cb_ok cb" "\<forall>e \<in> set es. e < ev_fresh st" "run_time cb es st = (fired, st')"
  shows "ev_ext st st' \<and> set fired \<subseteq> {e \<in> set es. has_flag st e EVENT_F_RUNNING} \<and>
    (distinct es \<longrightarrow> distinct fired)"
  using assms(2,3)
proof (induction es arbitrary: st fired)
  case Nil
  then show ?case by simp
next
  case (Cons e es)
  let ?st1 = "snd (time_ago (ev_fire (ev_mem st e)) st)"
  have st1: "ev_ext st ?st1" using time_now_ext [of st] by (simp add: time_ago_def split_beta)
  let ?st2 = "if has_flag ?st1 e EVENT_F_ONESHOT then set_flag e EVENT_F_REMOVE ?st1
    else resched_event e None ?st1"
  let ?st3 = "call_back cb e ?st2"
  have st2: "ev_ext st ?st2"
    using ev_ext_trans [OF st1 set_flag_ext [of EVENT_F_REMOVE]] ev_ext_trans [OF st1 resched_event_ext]
    by simp
  have st3: "ev_ext st ?st3" by (rule ev_ext_trans [OF st2 call_back_ext [OF assms(1)]])
  have step: "ev_ext st st' \<and> set fs \<subseteq> {x \<in> set es. has_flag st x EVENT_F_RUNNING} \<and>
      (distinct es \<longrightarrow> distinct fs)"
    if "ev_ext st s" "run_time cb es s = (fs, st')" for s fs
    by (rule ev_ext_walk [OF that(1) Cons.prems(1) Cons.IH [OF _ that(2)]])
  have eq: "run_time cb (e # es) st =
      (if \<not> has_flag st e EVENT_F_RUNNING then run_time cb es st
       else if end_loop st then ([], st)
       else if s32 (- fst (time_ago (ev_fire (ev_mem st e)) st)) < 5
       then (e # fst (run_time cb es ?st3), snd (run_time cb es ?st3))
       else run_time cb es ?st1)" by (simp add: Let_def split_beta)
  show ?case
  proof (cases "has_flag st e EVENT_F_RUNNING \<and> \<not> end_loop st \<and>
      s32 (- fst (time_ago (ev_fire (ev_mem st e)) st)) < 5")
    case True
    obtain fs where fs: "run_time cb es ?st3 = (fs, st')" "fired = e # fs"
      using Cons.prems(2) True unfolding eq by (metis fst_conv prod.collapse snd_conv)
    from step [OF st3 fs(1)] True fs(2) show ?thesis by auto
  next
    case False
    consider "fired = []" "st' = st" | "run_time cb es st = (fired, st')"
      | "run_time cb es ?st1 = (fired, st')"
      using Cons.prems(2) False unfolding eq by (metis prod.inject)
    then show ?thesis
      using step [OF ev_ext_refl, of fired] step [OF st1, of fired] by cases auto
  qed
qed

lemma run_ready_ext:
  assumes "cb_ok cb" "\<forall>e \<in> set es. e < ev_fresh st" "run_ready ready cb es st = (fired, st')"
  shows "ev_ext st st' \<and> set fired \<subseteq> {e \<in> set es. has_flag st e EVENT_F_RUNNING} \<and>
    (distinct es \<longrightarrow> distinct fired)"
  using assms(2,3)
proof (induction es arbitrary: st fired)
  case Nil
  then show ?case by simp
next
  case (Cons e es)
  let ?st1 = "if has_flag st e EVENT_F_ONESHOT then set_flag e EVENT_F_REMOVE st else st"
  let ?st2 = "call_back cb e ?st1"
  have "ev_ext st ?st1" by (simp add: set_flag_ext)
  then have st2: "ev_ext st ?st2" by (rule ev_ext_trans [OF _ call_back_ext [OF assms(1)]])
  have step: "ev_ext st st' \<and> set fs \<subseteq> {x \<in> set es. has_flag st x EVENT_F_RUNNING} \<and>
      (distinct es \<longrightarrow> distinct fs)"
    if "ev_ext st s" "run_ready ready cb es s = (fs, st')" for s fs
    by (rule ev_ext_walk [OF that(1) Cons.prems(1) Cons.IH [OF _ that(2)]])
  have eq: "run_ready ready cb (e # es) st =
      (if \<not> has_flag st e EVENT_F_RUNNING then run_ready ready cb es st
       else if end_loop st then ([], st)
       else if ready st e
       then (e # fst (run_ready ready cb es ?st2), snd (run_ready ready cb es ?st2))
       else run_ready ready cb es st)" by (simp add: Let_def split_beta)
  show ?case
  proof (cases "has_flag st e EVENT_F_RUNNING \<and> \<not> end_loop st \<and> ready st e")
    case True
    obtain fs where fs: "run_ready ready cb es ?st2 = (fs, st')" "fired = e # fs"
      using Cons.prems(2) True unfolding eq by (metis fst_conv prod.collapse snd_conv)
    from step [OF st2 fs(1)] True fs(2) show ?thesis by auto
  next
    case False
    consider "fired = []" "st' = st" | "run_ready ready cb es st = (fired, st')"
      using Cons.prems(2) False unfolding eq by (metis prod.inject)
    then show ?thesis using step [OF ev_ext_refl, of fired] by cases auto
  qed
qed

text \<open>The marking walks make exactly the enabled events runnable.\<close>

definition marked :: "nat list \<Rightarrow> ev_state \<Rightarrow> ev_state \<Rightarrow> bool" where
  "marked es st st' \<longleftrightarrow>
     ev_fresh st' = ev_fresh st \<and> time_event_list st' = time_event_list st \<and>
     fd_event_list st' = fd_event_list st \<and> always_event_list st' = always_event_list st \<and>
     (\<forall>e. has_flag st' e EVENT_F_ENABLED = has_flag st e EVENT_F_ENABLED \<and>
        has_flag st' e EVENT_F_RUNNING =
          (if e \<in> set es then has_flag st e EVENT_F_ENABLED else has_flag st e EVENT_F_RUNNING))"

lemma marked_Nil: "marked [] st st"
  by (simp add: marked_def)

lemma marked_Cons:
  assumes "marked es s st'" "ev_fresh s = ev_fresh st" "time_event_list s = time_event_list st"
    "fd_event_list s = fd_event_list st" "always_event_list s = always_event_list st"
    "ev_mem s = (ev_mem st)(e := ev_mem s e)"
    "ev_flags (ev_mem s e) = (if has_flag st e EVENT_F_ENABLED
       then ev_flags (ev_mem st e) OR EVENT_F_RUNNING
       else ev_flags (ev_mem st e) AND NOT EVENT_F_RUNNING)"
  shows "marked (e # es) st st'"
proof -
  have other: "ev_mem s x = ev_mem st x" if "x \<noteq> e" for x
    using assms(6) that by (metis fun_upd_other)
  have "has_flag s x EVENT_F_ENABLED = has_flag st x EVENT_F_ENABLED \<and>
      has_flag s x EVENT_F_RUNNING =
        (if x = e then has_flag st x EVENT_F_ENABLED else has_flag st x EVENT_F_RUNNING)" for x
    using other [of x] assms(7)
    by (cases "x = e") (simp_all add: has_flag_bit bit_or_iff bit_and_iff bit_not_iff)
  with assms(1-5) show ?thesis by (auto simp: marked_def)
qed

lemma mark_time_marked: "mark_time es nt st = (nt', st') \<Longrightarrow> marked es st st'"
proof (induction es arbitrary: nt st)
  case (Cons e es)
  let ?s = "if has_flag st e EVENT_F_ENABLED
    then set_flag e EVENT_F_RUNNING (snd (time_ago (ev_fire (ev_mem st e)) st))
    else clear_flag e EVENT_F_RUNNING st"
  from Cons.prems obtain nt2 where "mark_time es nt2 ?s = (nt', st')"
    by (auto simp: Let_def split_beta split: if_splits)
  from Cons.IH [OF this] show ?case
    by (rule marked_Cons) (auto simp: time_ago_def time_now_def set_flag_def clear_flag_def)
qed (simp add: marked_Nil)

lemma mark_always_marked: "mark_always es nt st = (nt', st') \<Longrightarrow> marked es st st'"
proof (induction es arbitrary: nt st)
  case (Cons e es)
  let ?s = "if has_flag st e EVENT_F_ENABLED then set_flag e EVENT_F_RUNNING st
    else clear_flag e EVENT_F_RUNNING st"
  from Cons.prems obtain nt2 where "mark_always es nt2 ?s = (nt', st')"
    by (auto split: if_splits)
  from Cons.IH [OF this] show ?case
    by (rule marked_Cons) (auto simp: set_flag_def clear_flag_def)
qed (simp add: marked_Nil)

lemma mark_fd_marked: "mark_fd es sets st = Some (sets', st') \<Longrightarrow> marked es st st'"
proof (induction es arbitrary: sets st)
  case (Cons e es)
  let ?s = "if has_flag st e EVENT_F_ENABLED then set_flag e EVENT_F_RUNNING st
    else clear_flag e EVENT_F_RUNNING st"
  from Cons.prems obtain sets2 where "mark_fd es sets2 ?s = Some (sets', st')"
    by (cases sets) (auto simp: Let_def split: if_splits)
  from Cons.IH [OF this] show ?case
    by (rule marked_Cons) (auto simp: set_flag_def clear_flag_def)
qed (simp add: marked_Nil)

lemma marked_trans: "marked xs a b \<Longrightarrow> marked ys b c \<Longrightarrow> marked (ys @ xs) a c"
  by (auto simp: marked_def)

lemma ev_ext_old:
  assumes "ev_ext st st'" "e < ev_fresh st"
  shows "e \<in> set (time_event_list st') \<longleftrightarrow> e \<in> set (time_event_list st)"
    "e \<in> set (always_event_list st') \<longleftrightarrow> e \<in> set (always_event_list st)"
    "e \<in> set (fd_event_list st') \<longleftrightarrow> e \<in> set (fd_event_list st)"
proof -
  from assms(1) obtain t f l where 1: "time_event_list st' = t @ time_event_list st"
    "fd_event_list st' = f @ fd_event_list st" "always_event_list st' = l @ always_event_list st"
    and sub: "set (t @ f @ l) \<subseteq> {ev_fresh st..<ev_fresh st'}"
    by (auto simp: ev_ext_def)
  have "e \<notin> set (t @ f @ l)" using subsetD [OF sub, of e] assms(2) by auto
  then show "e \<in> set (time_event_list st') \<longleftrightarrow> e \<in> set (time_event_list st)"
    "e \<in> set (always_event_list st') \<longleftrightarrow> e \<in> set (always_event_list st)"
    "e \<in> set (fd_event_list st') \<longleftrightarrow> e \<in> set (fd_event_list st)" by (simp_all add: 1)
qed

lemma run_walks_ext:
  assumes cb: "cb_ok cb" and wf: "ev_wf st" and run: "run_walks cb sel st = (fired, st')"
  shows "ev_ext st st' \<and> distinct fired \<and>
    set fired \<subseteq> {e \<in> set (ev_lists st). has_flag st e EVENT_F_RUNNING}"
proof -
  obtain f1 s4 where r1: "run_time cb (time_event_list st) st = (f1, s4)" by (rule prod.exhaust)
  obtain f2 s5 where r2: "run_ready (\<lambda>_ _. True) cb (always_event_list s4) s4 = (f2, s5)" by (rule prod.exhaust)
  obtain f3 s6 where r3: "(if 0 < sel_ret sel then run_ready (fd_isset sel) cb (fd_event_list s5) s5
      else ([], s5)) = (f3, s6)" by (rule prod.exhaust)
  from run r1 r2 r3 have res: "fired = f1 @ f2 @ f3" "st' = s6" by (simp_all add: run_walks_def)
  have low: "\<forall>e \<in> set (time_event_list s). e < ev_fresh s" "\<forall>e \<in> set (always_event_list s). e < ev_fresh s"
    "\<forall>e \<in> set (fd_event_list s). e < ev_fresh s" "distinct (time_event_list s)"
    "distinct (always_event_list s)" "distinct (fd_event_list s)"
    if "ev_wf s" for s using that by (auto simp: ev_wf_def ev_lists_def)
  from run_time_ext [OF cb low(1) [OF wf] r1] low(4) [OF wf]
  have x1: "ev_ext st s4" "set f1 \<subseteq> {e \<in> set (time_event_list st). has_flag st e EVENT_F_RUNNING}"
    "distinct f1" by auto
  note w4 = ev_ext_wf [OF x1(1) wf]
  from run_ready_ext [OF cb low(2) [OF w4] r2] low(5) [OF w4]
  have y2: "ev_ext s4 s5" "set f2 \<subseteq> {e \<in> set (always_event_list s4). has_flag s4 e EVENT_F_RUNNING}"
    "distinct f2" by auto
  note e5 = ev_ext_trans [OF x1(1) y2(1)]
  note w5 = ev_ext_wf [OF e5 wf]
  have y3: "ev_ext s5 s6" "set f3 \<subseteq> {e \<in> set (fd_event_list s5). has_flag s5 e EVENT_F_RUNNING}"
    "distinct f3"
  proof -
    consider "run_ready (fd_isset sel) cb (fd_event_list s5) s5 = (f3, s6)" | "f3 = []" "s6 = s5"
      using r3 by (cases "0 < sel_ret sel") simp_all
    then show "ev_ext s5 s6" "set f3 \<subseteq> {e \<in> set (fd_event_list s5). has_flag s5 e EVENT_F_RUNNING}"
      "distinct f3"
      using run_ready_ext [OF cb low(3) [OF w5], of "fd_isset sel" f3 s6] low(6) [OF w5]
      by (cases; simp)+
  qed
  have pre: "e < ev_fresh st \<and> has_flag st e EVENT_F_RUNNING"
    if "ev_ext st s" "e < ev_fresh s" "has_flag s e EVENT_F_RUNNING" for s e
    using that by (simp add: ev_ext_def)
  have x2: "set f2 \<subseteq> {e \<in> set (always_event_list st). has_flag st e EVENT_F_RUNNING}"
    using y2(2) low(2) [OF w4] pre [OF x1(1)] ev_ext_old(2) [OF x1(1)] by blast
  have x3: "set f3 \<subseteq> {e \<in> set (fd_event_list st). has_flag st e EVENT_F_RUNNING}"
    using y3(2) low(3) [OF w5] pre [OF e5] ev_ext_old(3) [OF e5] by blast
  have "distinct (f1 @ f2 @ f3)"
  proof -
    have "set (time_event_list st) \<inter> set (fd_event_list st) = {}"
      "set (time_event_list st) \<inter> set (always_event_list st) = {}"
      "set (fd_event_list st) \<inter> set (always_event_list st) = {}"
      using wf by (auto simp: ev_wf_def ev_lists_def)
    then have "set f1 \<inter> set f2 = {}" "set f1 \<inter> set f3 = {}" "set f2 \<inter> set f3 = {}"
      using x1(2) x2 x3 by blast+
    then show ?thesis using x1(3) y2(3) y3(3) by auto
  qed
  then show ?thesis
    using ev_ext_trans [OF e5 y3(1)] x1(2) x2 x3 by (auto simp: res ev_lists_def)
qed

lemma event_loop_once_walks:
  assumes "event_loop_once cb select st = Some (fired, st')"
  obtains s3 sel s6 where "marked (fd_event_list st @ always_event_list st @ time_event_list st) st s3"
    "run_walks cb sel s3 = (fired, s6)"
    "st' = s6\<lparr>time_event_list := strip_events s6 (time_event_list s6),
           fd_event_list := strip_events s6 (fd_event_list s6),
           always_event_list := strip_events s6 (always_event_list s6)\<rparr>"
proof -
  obtain n1 s1 where m1: "mark_time (time_event_list st) None st = (n1, s1)" by (rule prod.exhaust)
  obtain n2 s2 where m2: "mark_always (always_event_list s1) n1 s1 = (n2, s2)" by (rule prod.exhaust)
  obtain rfds wfds highfd s3 where m3: "mark_fd (fd_event_list s2) ([], [], -1) s2 = Some ((rfds, wfds, highfd), s3)"
    using assms m1 m2 by (cases "mark_fd (fd_event_list s2) ([], [], -1) s2") (auto simp: event_loop_once_def)
  let ?sel = "select (highfd + 1) rfds wfds (select_timeout n2)"
  obtain f s6 where r: "run_walks cb ?sel s3 = (f, s6)" by (rule prod.exhaust)
  from assms m1 m2 m3 r have out: "fired = f" "st' = s6\<lparr>time_event_list := strip_events s6 (time_event_list s6),
           fd_event_list := strip_events s6 (fd_event_list s6),
           always_event_list := strip_events s6 (always_event_list s6)\<rparr>"
    by (simp_all add: event_loop_once_def)
  note k1 = mark_time_marked [OF m1] and k2 = mark_always_marked [OF m2] and k3 = mark_fd_marked [OF m3]
  have "always_event_list s1 = always_event_list st" "fd_event_list s2 = fd_event_list st"
    using k1 k2 by (simp_all add: marked_def)
  with marked_trans [OF marked_trans [OF k1 k2] k3]
  have "marked (fd_event_list st @ always_event_list st @ time_event_list st) st s3" by simp
  with that r out show ?thesis by blast
qed

text \<open>
  C5: in one iteration of the event loop every callback runs at most once, only for events that
  were registered and enabled when the iteration began, whatever the callbacks add, remove or
  reschedule meanwhile; afterwards no removed event is left in the lists and the lists are still
  disjoint and without duplicates.
\<close>

theorem event_loop_once_calls:
  assumes "cb_ok cb" "ev_wf st" "event_loop_once cb select st = Some (fired, st')"
  shows "distinct fired \<and>
    (\<forall>e \<in> set fired. e \<in> set (ev_lists st) \<and> has_flag st e EVENT_F_ENABLED) \<and>
    (\<forall>e \<in> set (ev_lists st'). \<not> has_flag st' e EVENT_F_REMOVE) \<and> ev_wf st'"
proof -
  from event_loop_once_walks [OF assms(3)] obtain s3 sel s6 where
    m: "marked (fd_event_list st @ always_event_list st @ time_event_list st) st s3"
    and r: "run_walks cb sel s3 = (fired, s6)"
    and st': "st' = s6\<lparr>time_event_list := strip_events s6 (time_event_list s6),
           fd_event_list := strip_events s6 (fd_event_list s6),
           always_event_list := strip_events s6 (always_event_list s6)\<rparr>" .
  have w3: "ev_wf s3" "ev_lists s3 = ev_lists st"
    using m assms(2) by (simp_all add: marked_def ev_wf_def ev_lists_def)
  from run_walks_ext [OF assms(1) w3(1) r] have x: "ev_ext s3 s6" "distinct fired"
    "set fired \<subseteq> {e \<in> set (ev_lists st). has_flag s3 e EVENT_F_RUNNING}" by (auto simp: w3(2))
  have "has_flag st e EVENT_F_ENABLED" if "e \<in> set (ev_lists st)" "has_flag s3 e EVENT_F_RUNNING" for e
    using m that by (auto simp: marked_def ev_lists_def split: if_splits)
  moreover have "ev_wf st'"
    using ev_ext_wf [OF x(1) w3(1)] by (auto simp: st' ev_wf_def ev_lists_def strip_events_def)
  moreover have "\<forall>e \<in> set (ev_lists st'). \<not> has_flag st' e EVENT_F_REMOVE"
    by (auto simp: st' ev_lists_def strip_events_def has_flag_def)
  ultimately show ?thesis using x(2,3) by blast
qed

text \<open>Two readable descriptors; the callback of the first event called removes the other one.\<close>

definition two_fd_state :: ev_state where
  "two_fd_state =
     snd (add_fd_event 5 False 0 1 (snd (add_fd_event 4 False 0 0
       \<lparr>ev_mem = (\<lambda>_. undefined), ev_fresh = 0, time_event_list = [], fd_event_list = [],
        always_event_list = [], end_loop = False, ev_clock = (\<lambda>_. \<lparr>tv_sec = 0, tv_usec = 0\<rparr>)\<rparr>)))"

definition remove_other :: callback where
  "remove_other f e st = (if f = 1 then [Op_remove 0] else [])"

definition all_ready :: "int \<Rightarrow> int list \<Rightarrow> int list \<Rightarrow> time_ref option \<Rightarrow> select_ret" where
  "all_ready n rfds wfds t = \<lparr>sel_ret = int (length rfds + length wfds), sel_rfds = rfds, sel_wfds = wfds\<rparr>"

lemma two_fd_state_eq:
  "fd_event_list two_fd_state = [1, 0]" "time_event_list two_fd_state = []"
  "always_event_list two_fd_state = []" "ev_fresh two_fd_state = 2" "\<not> end_loop two_fd_state"
  "ev_mem two_fd_state 0 = \<lparr>ev_func = 0, ev_type = EVENT_FD, ev_flags = 1,
     ev_fire = \<lparr>tv_sec = 0, tv_usec = 0\<rparr>, ev_ival = 0, ev_fd = 4, ev_write = False\<rparr>"
  "ev_mem two_fd_state 1 = \<lparr>ev_func = 1, ev_type = EVENT_FD, ev_flags = 1,
     ev_fire = \<lparr>tv_sec = 0, tv_usec = 0\<rparr>, ev_ival = 0, ev_fd = 5, ev_write = False\<rparr>"
  by (simp_all add: two_fd_state_def add_fd_event_def new_event_def Let_def event_flags)

lemma remove_other_ok: "cb_ok remove_other"
  by (simp add: cb_ok_def remove_other_def op_ok_def)

theorem event_loop_once_calls_witness:
  "\<exists>st'. event_loop_once remove_other all_ready two_fd_state = Some ([1], st') \<and>
     fd_event_list st' = [1] \<and> ev_wf st'"
proof -
  let ?r = "event_loop_once remove_other all_ready two_fd_state"
  have r: "map_option (\<lambda>(fired, st'). (fired, fd_event_list st')) ?r = Some ([1], [1])"
    by (simp add: event_loop_once_def two_fd_state_eq two_fd_state_eq(7) [simplified] Let_def has_flag_def event_flags set_flag_def
        clear_flag_def FD_SETSIZE_def run_walks_def fd_isset_def all_ready_def call_back_def
        remove_other_def remove_event_def strip_events_def)
  then obtain st' where st': "?r = Some ([1], st')" "fd_event_list st' = [1]" by auto
  have "ev_wf two_fd_state" by (simp add: ev_wf_def ev_lists_def two_fd_state_eq)
  from event_loop_once_calls [OF remove_other_ok this st'(1)] st' show ?thesis by blast
qed

text \<open>
  C6: an event that a callback removes in the middle of a walk is not called in the rest of that
  walk, even though its list entry is unlinked only at the end of the iteration.
\<close>

theorem removed_event_not_called:
  assumes "cb_ok cb" "\<forall>x \<in> set es. x < ev_fresh st"
  shows "e \<notin> set (fst (run_time cb es (remove_event e st))) \<and>
    e \<notin> set (fst (run_ready ready cb es (remove_event e st)))"
proof -
  have no: "\<not> has_flag (remove_event e st) e EVENT_F_RUNNING"
    by (simp add: remove_event_def has_flag_bit set_flag_def clear_flag_def bit_and_iff bit_or_iff bit_not_iff)
  have low: "\<forall>x \<in> set es. x < ev_fresh (remove_event e st)"
    using assms(2) by (simp add: remove_event_def set_flag_def clear_flag_def)
  from run_time_ext [OF assms(1) low prod.collapse [symmetric]]
    run_ready_ext [OF assms(1) low prod.collapse [symmetric], of ready] no
  show ?thesis by blast
qed

theorem removed_event_not_called_witness:
  "0 \<notin> set (fst (run_ready (\<lambda>_ _. True) remove_other [1, 0] (remove_event 0 two_fd_state)))"
  using removed_event_not_called [OF remove_other_ok, of "[1, 0]" two_fd_state 0 "\<lambda>_ _. True"]
  by (simp add: two_fd_state_eq)

end
