(* ===== verification/Pmsg.thy ===== *)
theory Pmsg
  imports Prelude
begin

text \<open>
  pmsg.c: request and response messages. A message owns one buffer; the pointers it holds
  (\<open>method\<close>, \<open>uri\<close>, \<open>proto_id\<close>, the names and values of the fields) point into that buffer and are
  modelled as offsets, \<open>NULL\<close> as \<^term>\<open>None\<close>. \<open>max_len\<close> is the length of the buffer.
  \<open>parse_pmsg\<close> writes terminators into the buffer in place. A read or write outside the buffer, and
  a write behind the array of \<open>MAX_FIELDS\<close> fields, are faults. \<open>malloc\<close> is taken to succeed.
\<close>

definition MAX_FIELDS :: nat where "MAX_FIELDS = 32"

datatype msg_type = PMSG_REQ | PMSG_RESP

text \<open>The union \<open>sl\<close>; \<open>No_line\<close> is its indeterminate content after \<open>new_pmsg\<close>.\<close>

datatype start_line = No_line | Req nat nat | Stat int "nat option"

record pmsg =
  pm_buf :: string
  pm_len :: nat
  pm_fields :: "(nat \<times> nat) list"
  pm_type :: msg_type
  pm_proto_id :: "nat option"
  pm_sl :: start_line

definition new_pmsg :: "nat \<Rightarrow> pmsg" where
  "new_pmsg sz = \<lparr>pm_buf = replicate sz NUL, pm_len = 0, pm_fields = [], pm_type = PMSG_REQ,
     pm_proto_id = None, pm_sl = No_line\<rparr>"

definition put_str :: "string \<Rightarrow> nat \<Rightarrow> string \<Rightarrow> string" where
  "put_str buf off s = take off buf @ s @ drop (off + length s) buf"

subsection \<open>Building a message\<close>

definition add_pmsg_string :: "pmsg \<Rightarrow> string \<Rightarrow> nat option \<times> pmsg" where
  "add_pmsg_string msg s =
     (if length (pm_buf msg) < pm_len msg + (length s + 1) then (None, msg)
      else (Some (pm_len msg),
            msg\<lparr>pm_buf := put_str (pm_buf msg) (pm_len msg) (s @ [NUL]),
                pm_len := pm_len msg + (length s + 1)\<rparr>))"

definition add_header :: "pmsg \<Rightarrow> string \<Rightarrow> string \<Rightarrow> int \<times> pmsg" where
  "add_header msg name value =
     (if length (pm_fields msg) = MAX_FIELDS then (-1, msg)
      else case add_pmsg_string msg name of
        (None, msg1) \<Rightarrow> (-1, msg1)
      | (Some n, msg1) \<Rightarrow>
          (case add_pmsg_string msg1 value of
             (None, msg2) \<Rightarrow> (-1, msg2)
           | (Some v, msg2) \<Rightarrow> (0, msg2\<lparr>pm_fields := pm_fields msg2 @ [(n, v)]\<rparr>)))"

text \<open>\<open>vsnprintf\<close> of a text at an offset: at most the room that is left, always terminated.\<close>

definition vsnprintf_at :: "string \<Rightarrow> nat \<Rightarrow> string \<Rightarrow> string" where
  "vsnprintf_at buf off s =
     (let room = length buf - off in
      if room = 0 then buf else put_str buf off (take (room - 1) s @ [NUL]))"

definition add_header_printf :: "pmsg \<Rightarrow> string \<Rightarrow> string \<Rightarrow> int \<times> pmsg" where
  "add_header_printf msg name text =
     (let msg1 = msg\<lparr>pm_buf := vsnprintf_at (pm_buf msg) (pm_len msg) text\<rparr>;
          len = length text
      in
      if length (pm_fields msg1) = MAX_FIELDS then (-1, msg1)
      else if length (pm_buf msg1) \<le> pm_len msg1 + len then (-1, msg1)
      else
        let v = pm_len msg1 in
        (case add_pmsg_string (msg1\<lparr>pm_len := pm_len msg1 + (len + 1)\<rparr>) name of
           (None, msg2) \<Rightarrow> (-1, msg2)
         | (Some n, msg2) \<Rightarrow> (0, msg2\<lparr>pm_fields := pm_fields msg2 @ [(n, v)]\<rparr>)))"

subsection \<open>Reading a message\<close>

fun find_field :: "string \<Rightarrow> (nat \<times> nat) list \<Rightarrow> string \<Rightarrow> nat \<Rightarrow> nat option option" where
  "find_field buf [] name i = Some None"
| "find_field buf ((n, v) # fs) name i = do {
     s \<leftarrow> cstr_at buf n;
     if strcaseeq s name then Some (Some i) else find_field buf fs name (Suc i)
   }"

text \<open>The outer option is the fault, the inner one the \<open>NULL\<close> result.\<close>

definition get_header :: "pmsg \<Rightarrow> string \<Rightarrow> nat option option" where
  "get_header msg name =
     map_option (map_option (\<lambda>i. snd (pm_fields msg ! i))) (find_field (pm_buf msg) (pm_fields msg) name 0)"

definition replace_header :: "pmsg \<Rightarrow> string \<Rightarrow> string \<Rightarrow> (int \<times> pmsg) option" where
  "replace_header msg name value = do {
     r \<leftarrow> find_field (pm_buf msg) (pm_fields msg) name 0;
     (case r of
        None \<Rightarrow> Some (add_header msg name value)
      | Some i \<Rightarrow> do {
          let (n, v) = pm_fields msg ! i;
          old \<leftarrow> cstr_at (pm_buf msg) v;
          if length old < length value then
            (case add_pmsg_string msg value of
               (None, msg1) \<Rightarrow> Some (-1, msg1)
             | (Some p, msg1) \<Rightarrow> Some (0, msg1\<lparr>pm_fields := (pm_fields msg1)[i := (n, p)]\<rparr>))
          else Some (0, msg\<lparr>pm_buf := put_str (pm_buf msg) v (value @ [NUL])\<rparr>)
        })
   }"

fun copy_fields :: "pmsg \<Rightarrow> string \<Rightarrow> (nat \<times> nat) list \<Rightarrow> string \<Rightarrow> (int \<times> pmsg) option" where
  "copy_fields dest buf [] name = Some (0, dest)"
| "copy_fields dest buf ((n, v) # fs) name = do {
     s \<leftarrow> cstr_at buf n;
     if strcaseeq s name then do {
       val \<leftarrow> cstr_at buf v;
       (count, dest') \<leftarrow> copy_fields (snd (add_header dest s val)) buf fs name;
       Some (count + 1, dest')
     }
     else copy_fields dest buf fs name
   }"

definition copy_headers :: "pmsg \<Rightarrow> pmsg \<Rightarrow> string \<Rightarrow> (int \<times> pmsg) option" where
  "copy_headers dest src name = copy_fields dest (pm_buf src) (pm_fields src) name"

text \<open>
  \<open>get_param\<close> on the terminated string \<open>value\<close>; \<open>dest\<close> holds the size of the destination, \<^term>\<open>None\<close>
  for \<open>NULL\<close>. The result is the return value with what was written to \<open>dest\<close>. The pointer is
  advanced before it is looked at, which on an empty string leaves the string.
\<close>

definition SEMI :: char where "SEMI = CHR 0x3B"

definition param_value :: "string \<Rightarrow> nat option \<Rightarrow> int \<times> string option" where
  "param_value c dest =
     (case dest of
        None \<Rightarrow> (1, None)
      | Some sz \<Rightarrow>
          if sz = 0 then (1, None)
          else
            let val = take sz (takeWhile (\<lambda>x. x \<noteq> SEMI) c) in
            if length val = sz then (-1, Some val) else (1, Some (val @ [NUL])))"

lemma strchr_length: "strchr s c = Some t \<Longrightarrow> length t \<le> length s"
  by (auto dest: strchr_suffix)

function get_param_from :: "string \<Rightarrow> string \<Rightarrow> nat option \<Rightarrow> (int \<times> string option) option" where
  "get_param_from [] tag dest = None"
| "get_param_from (x # c) tag dest =
     (let hit = strncaseeq c tag (length tag);
          c' = (if hit then drop (length tag) c else c)
      in
      if hit \<and> (c' = [] \<or> hd c' = SEMI)
      then Some (1, case dest of Some sz \<Rightarrow> if 0 < sz then Some [NUL] else None | None \<Rightarrow> None)
      else if hit \<and> hd c' = CHR ''='' then Some (param_value (tl c') dest)
      else case strchr c' SEMI of
          None \<Rightarrow> Some (0, None)
        | Some c'' \<Rightarrow> get_param_from c'' tag dest)"
  by pat_completeness auto

termination
  by (relation "measure (\<lambda>(c, _, _). length c)") (auto dest!: strchr_length split: if_splits)

definition get_param :: "string option \<Rightarrow> string \<Rightarrow> nat option \<Rightarrow> (int \<times> string option) option" where
  "get_param value tag dest =
     (case value of None \<Rightarrow> Some (-1, None) | Some v \<Rightarrow> get_param_from v tag dest)"

subsection \<open>Parsing\<close>

text \<open>
  The scanning loops: from \<open>i\<close>, the first position below \<open>len\<close> where \<open>p\<close> fails. They are used
  with \<open>len\<close> inside the buffer.
\<close>

definition scan :: "(char \<Rightarrow> bool) \<Rightarrow> string \<Rightarrow> nat \<Rightarrow> nat \<Rightarrow> nat" where
  "scan p d len i = i + length (takeWhile p (drop i (take len d)))"

definition delim :: "string \<Rightarrow> nat \<Rightarrow> nat \<Rightarrow> char \<Rightarrow> char \<Rightarrow> nat" where
  "delim d len i term1 term2 =
     scan (\<lambda>c. \<not> (c = term1 \<or> c = term2 \<or> c = CR \<or> c = LF)) d len i"

definition skip_spaces :: "string \<Rightarrow> nat \<Rightarrow> nat \<Rightarrow> nat" where
  "skip_spaces d len i = scan (\<lambda>c. c = SP) d len i"

text \<open>
  The start line gives the return value \<open>-1\<close> (\<open>Inl\<close>) or the position behind the line with the
  protocol and start line of the message. Both come with the buffer.
\<close>

type_synonym parsed_line = "string \<times> (nat \<times> msg_type \<times> nat \<times> start_line) option"

definition parse_resp_line :: "string \<Rightarrow> nat \<Rightarrow> parsed_line option" where
  "parse_resp_line d len = do {
     let i = delim d len 0 SP NUL;
     c \<leftarrow> rd d i;
     if c \<noteq> SP then Some (d, None)
     else do {
       d \<leftarrow> wr d i NUL;
       let i = skip_spaces d len (i + 1);
       if len < i + 4 \<or> \<not> isdigit (d ! i) \<or> \<not> isdigit (d ! (i + 1)) \<or> \<not> isdigit (d ! (i + 2)) \<or>
          d ! (i + 3) \<noteq> SP
       then Some (d, None)
       else do {
         let code = int (read_digits 0 (drop i d));
         let i = skip_spaces d len (i + 4);
         let reason = i;
         let i = delim d len i NUL NUL;
         d \<leftarrow> wr d i NUL;
         Some (d, Some (i + 1, PMSG_RESP, 0, Stat code (Some reason)))
       }
     }
   }"

definition parse_req_line :: "string \<Rightarrow> nat \<Rightarrow> parsed_line option" where
  "parse_req_line d len = do {
     let i = delim d len 0 SP NUL;
     if len \<le> i \<or> d ! i \<noteq> SP then Some (d, None)
     else do {
       d \<leftarrow> wr d i NUL;
       let uri = skip_spaces d len (i + 1);
       let i = delim d len uri SP NUL;
       if len \<le> i \<or> d ! i \<noteq> SP then Some (d, None)
       else do {
         d \<leftarrow> wr d i NUL;
         let proto = skip_spaces d len (i + 1);
         let i = delim d len proto NUL NUL;
         d \<leftarrow> wr d i NUL;
         Some (d, Some (i + 1, PMSG_REQ, proto, Req 0 uri))
       }
     }
   }"

text \<open>
  A header line: the position of the colon behind the name at \<open>i\<close>, with the space behind the name
  terminated; then, from the colon, the value and the position behind the line.
\<close>

definition header_colon :: "string \<Rightarrow> nat \<Rightarrow> nat \<Rightarrow> string \<times> nat option" where
  "header_colon d len i =
     (let i = delim d len i SP (CHR '':'') in
      if len \<le> i then (d, None)
      else
        let (d, i) = (if d ! i = SP then (d[i := NUL], skip_spaces (d[i := NUL]) len (i + 1)) else (d, i)) in
        if len \<le> i \<or> d ! i \<noteq> CHR '':'' then (d, None) else (d, Some i))"

definition header_value :: "string \<Rightarrow> nat \<Rightarrow> nat \<Rightarrow> (string \<times> (nat \<times> nat) option) option" where
  "header_value d len i = do {
     let d = d[i := NUL];
     let value = scan (\<lambda>c. c = SP \<or> c = TAB) d len (i + 1);
     let i = delim d len value NUL NUL;
     d \<leftarrow> wr d i NUL;
     if len \<le> i + 1 \<or> d ! (i + 1) \<noteq> LF then Some (d, None) else Some (d, Some (value, i + 2))
   }"

text \<open>One round of the header loop: a return value, or the field found and the next position.\<close>

datatype header_result = H_return int | H_field nat nat nat

definition parse_header :: "string \<Rightarrow> nat \<Rightarrow> nat \<Rightarrow> nat \<Rightarrow> (string \<times> header_result) option" where
  "parse_header d len i header_count = do {
     let i = (if i < len \<and> d ! i = CR then i + 1 else i);
     if i = len then Some (d, H_return (int len))
     else do {
       c \<leftarrow> rd d i;
       if c = LF then Some (d, H_return (int (i + 1)))
       else if c = TAB \<or> c = SP then Some (d, H_return (-1))
       else if MAX_FIELDS \<le> header_count then None
       else case header_colon d len i of
           (d, None) \<Rightarrow> Some (d, H_return (-1))
         | (d, Some k) \<Rightarrow> do {
             (d, r) \<leftarrow> header_value d len k;
             (case r of None \<Rightarrow> Some (d, H_return (-1)) | Some (value, j) \<Rightarrow> Some (d, H_field i value j))
           }
     }
   }"

lemma scan_ge: "i \<le> scan p d len i"
  by (simp add: scan_def)

lemma header_colon_pos:
  assumes "header_colon d len i = (d', Some k)"
  shows "i \<le> k \<and> k < len"
proof -
  let ?j = "delim d len i SP (CHR '':'')"
  have j: "i \<le> ?j" by (simp add: delim_def scan_ge)
  moreover have "?j \<le> skip_spaces e len (?j + 1)" for e
    using scan_ge [of "?j + 1"] by (simp add: skip_spaces_def Suc_leD)
  ultimately show ?thesis
    using assms by (auto simp: header_colon_def Let_def split: if_splits intro: order_trans)
qed

lemma header_value_pos:
  assumes "header_value d len k = Some (d', Some (value, j))"
  shows "k < value \<and> value < j \<and> j \<le> len"
proof -
  let ?d = "d[k := NUL]"
  let ?v = "scan (\<lambda>c. c = SP \<or> c = TAB) ?d len (k + 1)"
  let ?e = "delim ?d len ?v NUL NUL"
  have "k + 1 \<le> ?v" "?v \<le> ?e" by (simp_all only: delim_def scan_ge)
  moreover have "value = ?v \<and> j = ?e + 2 \<and> ?e + 2 \<le> len"
    using assms by (auto simp: header_value_def Let_def split: if_splits bind_splits)
  ultimately show ?thesis by linarith
qed

lemma parse_header_advances:
  assumes "parse_header d len i n = Some (d', H_field name value j)"
  shows "i < j \<and> j \<le> len"
proof -
  let ?i = "if i < len \<and> d ! i = CR then i + 1 else i"
  from assms obtain e k where "header_colon d len ?i = (e, Some k)"
    "header_value e len k = Some (d', Some (value, j))"
    by (auto simp: parse_header_def Let_def split: if_splits bind_splits option.splits prod.splits)
  with header_colon_pos [of d len ?i] header_value_pos [of e len k]
  have "?i \<le> k" "k < j" "j \<le> len" by auto
  then show ?thesis by (auto split: if_splits)
qed

function parse_headers :: "string \<Rightarrow> nat \<Rightarrow> nat \<Rightarrow> (nat \<times> nat) list \<Rightarrow>
    (int \<times> string \<times> (nat \<times> nat) list) option" where
  "parse_headers d len i fs =
     (case parse_header d len i (length fs) of
        None \<Rightarrow> None
      | Some (d', H_return r) \<Rightarrow> Some (r, d', fs)
      | Some (d', H_field name value j) \<Rightarrow> parse_headers d' len j (fs @ [(name, value)]))"
  by pat_completeness auto

termination
  by (relation "measure (\<lambda>(d, len, i, fs). len - i)") (auto dest: parse_header_advances)

declare parse_headers.simps [simp del]

text \<open>Behind trailing spaces and a \<open>\r\<close> that was not overwritten.\<close>

definition line_end :: "string \<Rightarrow> nat \<Rightarrow> nat \<Rightarrow> nat" where
  "line_end d len i =
     (let i = skip_spaces d len i in if i < len \<and> d ! i = CR then i + 1 else i)"

definition is_resp :: "string \<Rightarrow> nat \<Rightarrow> bool option" where
  "is_resp d len =
     (let i = scan (\<lambda>c. c \<noteq> SP \<and> c \<noteq> CHR ''/'') d len 0 in
      if i = len then None else Some (d ! i = CHR ''/''))"

definition parse_pmsg :: "pmsg \<Rightarrow> (int \<times> pmsg) option" where
  "parse_pmsg msg =
     (let d = pm_buf msg; len = pm_len msg; msg = msg\<lparr>pm_fields := []\<rparr> in
      if len < 4 then Some (-1, msg)
      else case is_resp d len of
        None \<Rightarrow> Some (-1, msg)
      | Some resp \<Rightarrow> do {
          (d, line) \<leftarrow> (if resp then parse_resp_line d len else parse_req_line d len);
          (case line of
             None \<Rightarrow> Some (-1, msg\<lparr>pm_buf := d\<rparr>)
           | Some (i, ty, proto, sl) \<Rightarrow> do {
               let msg = msg\<lparr>pm_type := ty, pm_proto_id := Some proto, pm_sl := sl\<rparr>;
               let i = line_end d len i;
               if len \<le> i \<or> d ! i \<noteq> LF then Some (-1, msg\<lparr>pm_buf := d\<rparr>)
               else do {
                 (r, d, fs) \<leftarrow> parse_headers d len (i + 1) [];
                 Some (r, msg\<lparr>pm_buf := d, pm_fields := fs\<rparr>)
               }
             })
        })"

subsection \<open>The scanning loops\<close>

lemma scan_Suc: "scan p d len i =
    (if i < len \<and> i < length d \<and> p (d ! i) then scan p d len (Suc i) else i)"
proof (cases "i < len \<and> i < length d")
  case True
  then have "drop i (take len d) = d ! i # drop (Suc i) (take len d)"
    by (metis Cons_nth_drop_Suc length_take min_less_iff_conj nth_take)
  with True show ?thesis by (simp add: scan_def)
qed (auto simp: scan_def)

lemma scan_le_stop: "i \<le> j \<Longrightarrow> \<not> p (d ! j) \<Longrightarrow> scan p d len i \<le> j"
proof (induction "j - i" arbitrary: i)
  case 0
  then have "i = j" by simp
  with 0 show ?case by (subst scan_Suc) simp
next
  case (Suc n)
  then have "scan p d len (Suc i) \<le> j" by simp
  with Suc.prems show ?case by (subst scan_Suc) simp
qed

lemma scan_stops: "len \<le> length d \<Longrightarrow> scan p d len i < len \<Longrightarrow> \<not> p (d ! scan p d len i)"
proof (induction "len - i" arbitrary: i)
  case 0
  then show ?case using scan_ge [of i p d len] by simp
next
  case (Suc n)
  show ?case
  proof (cases "p (d ! i)")
    case True
    with Suc.prems Suc.hyps(2) have eq: "scan p d len i = scan p d len (Suc i)"
      using scan_Suc [of p d len i] by auto
    show ?thesis using Suc.hyps(1) [of "Suc i"] Suc.hyps(2) Suc.prems unfolding eq by simp
  next
    case False
    then have "scan p d len i = i" using scan_Suc [of p d len i] by simp
    with False show ?thesis by simp
  qed
qed

lemma scan_cong:
  assumes "drop i d = drop i d'"
  shows "scan p d len i = scan p d' len i"
  by (simp add: scan_def drop_take assms)

lemma drop_mono_eq: "drop i d = drop i d' \<Longrightarrow> i \<le> j \<Longrightarrow> drop j d = drop j d'"
  by (metis drop_drop le_add_diff_inverse2)

lemma nth_drop_eq:
  assumes "drop i d = drop i d'" "i \<le> j" "j < length d"
  shows "d ! j = d' ! j"
proof -
  have "j < length d'" using arg_cong [OF assms(1), of length] assms(2,3) by simp
  then have "drop i d ! (j - i) = d ! j" "drop i d' ! (j - i) = d' ! j" using assms(2,3) by simp_all
  with assms(1) show ?thesis by simp
qed

subsection \<open>Terminated strings\<close>

definition terminated :: "string \<Rightarrow> nat \<Rightarrow> bool" where
  "terminated d off \<longleftrightarrow> (\<exists>t. off \<le> t \<and> t < length d \<and> d ! t = NUL)"

definition nuls_grow :: "string \<Rightarrow> string \<Rightarrow> bool" where
  "nuls_grow d d' \<longleftrightarrow> length d' = length d \<and> (\<forall>t < length d. d ! t = NUL \<longrightarrow> d' ! t = NUL)"

lemma cstr_at_terminated: "cstr_at d off \<noteq> None \<longleftrightarrow> terminated d off"
proof -
  have "NUL \<in> set (drop off d) \<longleftrightarrow> (\<exists>t. off \<le> t \<and> t < length d \<and> d ! t = NUL)"
  proof
    assume "NUL \<in> set (drop off d)"
    then obtain k where "k < length d - off" "d ! (off + k) = NUL" by (auto simp: in_set_conv_nth)
    then show "\<exists>t. off \<le> t \<and> t < length d \<and> d ! t = NUL" by (intro exI [of _ "off + k"]) simp
  next
    assume "\<exists>t. off \<le> t \<and> t < length d \<and> d ! t = NUL"
    then obtain t where "off \<le> t" "t < length d" "d ! t = NUL" by blast
    then have "t - off < length (drop off d)" "drop off d ! (t - off) = NUL" by auto
    then show "NUL \<in> set (drop off d)" by (metis nth_mem)
  qed
  then show ?thesis by (simp add: cstr_at_def terminated_def)
qed

lemma terminated_grow: "terminated d off \<Longrightarrow> nuls_grow d d' \<Longrightarrow> terminated d' off"
  by (auto simp: terminated_def nuls_grow_def)

lemma nuls_grow_refl [simp]: "nuls_grow d d"
  by (simp add: nuls_grow_def)

lemma nuls_grow_trans: "nuls_grow a b \<Longrightarrow> nuls_grow b c \<Longrightarrow> nuls_grow a c"
  by (simp add: nuls_grow_def)

lemma nuls_grow_update [simp]: "nuls_grow d (d[i := NUL])"
  by (cases "i < length d") (auto simp: nuls_grow_def nth_list_update)

lemma terminated_mono: "terminated d k \<Longrightarrow> i \<le> k \<Longrightarrow> terminated d i"
  unfolding terminated_def by (meson le_trans)

lemma terminated_update: "off \<le> i \<Longrightarrow> i < length d \<Longrightarrow> terminated (d[i := NUL]) off"
  by (auto simp: terminated_def intro: exI [of _ i])

subsection \<open>Memory safety of the parser\<close>

text \<open>The position of a blank line inside the message.\<close>

definition blank_line :: "string \<Rightarrow> nat \<Rightarrow> nat \<Rightarrow> bool" where
  "blank_line d len p \<longleftrightarrow> p + 3 < len \<and> len \<le> length d \<and>
     d ! p = CR \<and> d ! (p + 1) = LF \<and> d ! (p + 2) = CR \<and> d ! (p + 3) = LF"

lemma blank_line_cong:
  assumes "drop i d = drop i d'" "length d = length d'" "i \<le> p"
  shows "blank_line d len p = blank_line d' len p"
  using nth_drop_eq [OF assms(1), of p] nth_drop_eq [OF assms(1), of "p + 1"]
    nth_drop_eq [OF assms(1), of "p + 2"] nth_drop_eq [OF assms(1), of "p + 3"] assms(2,3)
  by (auto simp: blank_line_def)

lemma delim_le_blank: "blank_line d len p \<Longrightarrow> i \<le> p \<Longrightarrow> delim d len i t1 t2 \<le> p"
  unfolding delim_def by (rule scan_le_stop) (auto simp: blank_line_def)

lemma skip_spaces_le_blank: "blank_line d len p \<Longrightarrow> i \<le> p \<Longrightarrow> skip_spaces d len i \<le> p"
  unfolding skip_spaces_def by (rule scan_le_stop) (auto simp: blank_line_def)

lemma blank_line_update: "blank_line d len p \<Longrightarrow> i < p \<Longrightarrow> blank_line (d[i := c]) len p"
  by (simp add: blank_line_def)

lemma header_colon_safe:
  assumes bl: "blank_line d len p" and i: "i \<le> p" and res: "header_colon d len i = (d', r)"
  shows "nuls_grow d d' \<and> blank_line d' len p \<and>
    (case r of None \<Rightarrow> True | Some k \<Rightarrow> i \<le> k \<and> k < p \<and> drop k d' = drop k d)"
proof -
  let ?j = "delim d len i SP (CHR '':'')"
  let ?e = "d[?j := NUL]"
  let ?k = "skip_spaces ?e len (?j + 1)"
  have j: "i \<le> ?j" "?j \<le> p" using delim_le_blank [OF bl i] by (simp_all add: delim_def scan_ge)
  have len: "p < len" "len \<le> length d" "d ! p = CR" using bl by (simp_all add: blank_line_def)
  show ?thesis
  proof (cases "d ! ?j = SP")
    case True
    then have "?j \<noteq> p" using len by auto
    then have j': "?j < p" using j by simp
    have e: "blank_line ?e len p" by (rule blank_line_update [OF bl j'])
    have k: "?j + 1 \<le> ?k" "?k \<le> p"
      using skip_spaces_le_blank [OF e, of "?j + 1"] j' by (simp_all add: skip_spaces_def scan_ge del: add_Suc_right One_nat_def)
    have res': "(d', r) = (?e, if len \<le> ?k \<or> ?e ! ?k \<noteq> CHR '':'' then None else Some ?k)"
      using res True j' len by (auto simp: header_colon_def Let_def)
    have "?k < p" if "?e ! ?k = CHR '':''"
      using that k(2) e by (cases "?k = p") (auto simp: blank_line_def char_consts)
    moreover have "drop ?k ?e = drop ?k d" using k(1) by (intro drop_list_update_le) simp
    ultimately show ?thesis using res' e k j by auto
  next
    case False
    have "?j < p" if "d ! ?j = CHR '':''"
      using that j len by (cases "?j = p") (auto simp: char_consts)
    with False res j len bl show ?thesis by (auto simp: header_colon_def Let_def split: if_splits)
  qed
qed

lemma header_value_safe:
  assumes bl: "blank_line d len p" and k: "k < p"
  shows "\<exists>d' r. header_value d len k = Some (d', r) \<and> nuls_grow d d' \<and> terminated d' k \<and>
    (case r of None \<Rightarrow> True | Some (value, j) \<Rightarrow>
       terminated d' value \<and> k + 2 \<le> j \<and> j \<le> p + 2 \<and> d ! (j - 1) = LF \<and> drop j d' = drop j d)"
proof -
  let ?d = "d[k := NUL]"
  let ?v = "scan (\<lambda>c. c = SP \<or> c = TAB) ?d len (k + 1)"
  let ?e = "delim ?d len ?v NUL NUL"
  have bl1: "blank_line ?d len p" by (rule blank_line_update [OF bl k])
  have v: "k + 1 \<le> ?v" "?v \<le> p"
    using k bl1 scan_ge by (auto intro!: scan_le_stop simp: blank_line_def simp del: One_nat_def)
  have e: "?v \<le> ?e" "?e \<le> p" by (simp add: delim_def scan_ge) (rule delim_le_blank [OF bl1 v(2)])
  have len: "p + 3 < len" "len \<le> length d" using bl by (simp_all add: blank_line_def)
  let ?d' = "?d[?e := NUL]"
  have res: "header_value d len k =
      Some (?d', if len \<le> ?e + 1 \<or> ?d' ! (?e + 1) \<noteq> LF then None else Some (?v, ?e + 2))"
    using e len by (simp add: header_value_def Let_def)
  have "nuls_grow d ?d'" by (rule nuls_grow_trans [OF nuls_grow_update nuls_grow_update])
  moreover have "terminated ?d' k" "terminated ?d' ?v"
    using e v len by (auto intro!: terminated_update)
  moreover have "?d' ! (?e + 1) = d ! (?e + 1)" using e v by (simp add: nth_list_update)
  moreover have "drop (?e + 2) ?d' = drop (?e + 2) d" using e v by simp
  ultimately show ?thesis using res e v by auto
qed

lemma parse_header_safe:
  assumes bl: "blank_line d len p" and i: "i \<le> p" and n: "i < p \<Longrightarrow> n < MAX_FIELDS"
  shows "\<exists>d' r. parse_header d len i n = Some (d', r) \<and> nuls_grow d d' \<and>
    (case r of H_return _ \<Rightarrow> True | H_field name value j \<Rightarrow>
       terminated d' name \<and> terminated d' value \<and> i + 1 < j \<and> j \<le> p + 2 \<and> d ! (j - 1) = LF \<and>
       drop j d' = drop j d)"
proof -
  let ?i = "if i < len \<and> d ! i = CR then i + 1 else i"
  have len: "p + 3 < len" "len \<le> length d" "d ! p = CR" "d ! (p + 1) = LF"
    using bl by (simp_all add: blank_line_def)
  show ?thesis
  proof (cases "i = p")
    case True
    then show ?thesis using len by (simp add: parse_header_def Let_def)
  next
    case False
    then have i': "i \<le> ?i" "?i \<le> p" and n': "n < MAX_FIELDS" using i n by auto
    obtain e r where col: "header_colon d len ?i = (e, r)" by (rule prod.exhaust)
    note safe = header_colon_safe [OF bl i'(2) col]
    have start: "parse_header d len i n =
        (if d ! ?i = LF then Some (d, H_return (int (?i + 1)))
         else if d ! ?i = TAB \<or> d ! ?i = SP then Some (d, H_return (-1))
         else case r of
             None \<Rightarrow> Some (e, H_return (-1))
           | Some k \<Rightarrow> do {
               (d', v) \<leftarrow> header_value e len k;
               (case v of None \<Rightarrow> Some (d', H_return (-1)) | Some (value, j) \<Rightarrow> Some (d', H_field ?i value j))
             })"
      using i' len n' col by (simp add: parse_header_def Let_def split: option.split)
    show ?thesis
    proof (cases r)
      case None
      with start safe show ?thesis by auto
    next
      case (Some k)
      with safe have k: "?i \<le> k" "k < p" "drop k e = drop k d" "nuls_grow d e" "blank_line e len p" by auto
      from header_value_safe [OF k(5,2)] obtain d' v where v: "header_value e len k = Some (d', v)"
        "nuls_grow e d'" "terminated d' k" "case v of None \<Rightarrow> True | Some (value, j) \<Rightarrow>
           terminated d' value \<and> k + 2 \<le> j \<and> j \<le> p + 2 \<and> e ! (j - 1) = LF \<and> drop j d' = drop j e"
        by blast
      have t: "terminated d' ?i" by (rule terminated_mono [OF v(3) k(1)])
      have g: "nuls_grow d d'" by (rule nuls_grow_trans [OF k(4) v(2)])
      show ?thesis
      proof (cases v)
        case None
        with start Some v(1) g show ?thesis by auto
      next
        case (Some vj)
        obtain val j where vj: "v = Some (val, j)" using Some by (cases vj) simp
        with v(4) have j: "terminated d' val" "k + 2 \<le> j" "j \<le> p + 2" "e ! (j - 1) = LF"
          "drop j d' = drop j e" by auto
        have "drop j d' = drop j d" using j(5) drop_mono_eq [OF k(3), of j] j(2) by simp
        moreover have "d ! (j - 1) = LF"
          using nth_drop_eq [OF k(3), of "j - 1"] j(2-4) len k(4) by (simp add: nuls_grow_def)
        moreover have "i + 1 < j" using j(2) k(1) i'(1) by linarith
        ultimately show ?thesis using start \<open>r = Some k\<close> v(1) vj g t j by auto
      qed
    qed
  qed
qed

lemma count_LF_step:
  assumes "i < j" "j \<le> length d" "d ! (j - 1) = LF"
  shows "count_list (take i d) LF + 1 \<le> count_list (take j d) LF"
proof -
  obtain m where m: "j = Suc m" using assms(1) by (cases j) auto
  with assms have "take j d = take m d @ [LF]" by (simp add: take_Suc_conv_app_nth)
  moreover have "take m d = take i d @ drop i (take m d)"
    using assms(1) m by (metis append_take_drop_id less_Suc_eq_le min.absorb1 take_take)
  ultimately show ?thesis by (metis count_list.simps count_list_append add.commute add_le_cancel_right
      le_add1 One_nat_def add_0_right add_Suc_right)
qed

definition fields_ok :: "string \<Rightarrow> (nat \<times> nat) list \<Rightarrow> bool" where
  "fields_ok d fs \<longleftrightarrow> (\<forall>(n, v) \<in> set fs. terminated d n \<and> terminated d v)"

lemma fields_ok_grow: "fields_ok d fs \<Longrightarrow> nuls_grow d d' \<Longrightarrow> fields_ok d' fs"
  by (auto simp: fields_ok_def intro: terminated_grow)

lemma parse_headers_safe:
  assumes "blank_line d0 len p" "length d = length d0" "drop i d = drop i d0" "i \<le> p \<or> i = p + 2"
    "fields_ok d fs" "length fs < count_list (take i d0) LF" "count_list (take p d0) LF \<le> MAX_FIELDS"
  shows "\<exists>r d' fs'. parse_headers d len i fs = Some (r, d', fs') \<and> nuls_grow d d' \<and> fields_ok d' fs'"
  using assms(2-6)
proof (induction "len - i" arbitrary: d i fs rule: less_induct)
  case less
  have len: "p + 3 < len" "len \<le> length d0" using assms(1) by (simp_all add: blank_line_def)
  show ?case
  proof (cases "i = p + 2")
    case True
    then have "d ! (p + 2) = CR" "d ! (p + 3) = LF"
      using nth_drop_eq [OF less.prems(2), of "p + 2"] nth_drop_eq [OF less.prems(2), of "p + 3"]
        assms(1) less.prems(1) by (simp_all add: blank_line_def)
    then have "parse_header d len i (length fs) = Some (d, H_return (int (p + 4)))"
      using True len less.prems(1) by (simp add: parse_header_def Let_def eval_nat_numeral)
    then show ?thesis using less.prems(4) by (subst parse_headers.simps) simp
  next
    case False
    then have i: "i \<le> p" using less.prems(3) by simp
    have bl: "blank_line d len p"
      using blank_line_cong [OF less.prems(2,1) i] assms(1) by simp
    have "count_list (take i d0) LF \<le> count_list (take p d0) LF"
      using i by (metis count_list_append le_add1 take_add le_add_diff_inverse)
    then have n: "length fs < MAX_FIELDS" using less.prems(5) assms(7) by simp
    from parse_header_safe [OF bl i, of "length fs"] n obtain d' r where
      r: "parse_header d len i (length fs) = Some (d', r)" "nuls_grow d d'"
      "case r of H_return _ \<Rightarrow> True | H_field name value j \<Rightarrow>
       terminated d' name \<and> terminated d' value \<and> i + 1 < j \<and> j \<le> p + 2 \<and> d ! (j - 1) = LF \<and>
       drop j d' = drop j d" by blast
    have ok: "fields_ok d' fs" by (rule fields_ok_grow [OF less.prems(4) r(2)])
    show ?thesis
    proof (cases r)
      case (H_return ret)
      then show ?thesis using r(1,2) ok by (subst parse_headers.simps) simp
    next
      case (H_field name val j)
      with r(3) have j: "terminated d' name" "terminated d' val" "i + 1 < j" "j \<le> p + 2"
        "d ! (j - 1) = LF" "drop j d' = drop j d" by auto
      have lf: "d0 ! (j - 1) = LF"
        using nth_drop_eq [OF less.prems(2), of "j - 1"] j(3-5) less.prems(1) len by simp
      have "j \<noteq> p + 1" using lf assms(1) by (auto simp: blank_line_def)
      then have j': "j \<le> p \<or> j = p + 2" using j(4) by linarith
      have "length fs + 1 < count_list (take j d0) LF"
        using count_LF_step [of i j d0] less.prems(5) lf j(3,4) len by simp
      moreover have "drop j d' = drop j d0" using j(6) drop_mono_eq [OF less.prems(2), of j] j(3) by simp
      moreover have "length d' = length d0" using r(2) less.prems(1) by (simp add: nuls_grow_def)
      moreover have "fields_ok d' (fs @ [(name, val)])" using ok j(1,2) by (simp add: fields_ok_def)
      ultimately have "\<exists>r d'' fs'. parse_headers d' len j (fs @ [(name, val)]) = Some (r, d'', fs') \<and>
          nuls_grow d' d'' \<and> fields_ok d'' fs'"
        using less.hyps [of j d' "fs @ [(name, val)]"] j' j(3,4) len by simp
      moreover have "parse_headers d len i fs = parse_headers d' len j (fs @ [(name, val)])"
        using r(1) H_field by (subst parse_headers.simps) simp
      ultimately show ?thesis using nuls_grow_trans [OF r(2)] by auto
    qed
  qed
qed

lemma parse_req_line_safe:
  assumes bl: "blank_line d len p"
  shows "\<exists>d' r. parse_req_line d len = Some (d', r) \<and> nuls_grow d d' \<and>
    (case r of None \<Rightarrow> True | Some (i, ty, proto, sl) \<Rightarrow>
       i \<le> p + 1 \<and> drop i d' = drop i d \<and> ty = PMSG_REQ \<and> terminated d' proto \<and>
       (\<exists>uri. sl = Req 0 uri \<and> terminated d' 0 \<and> terminated d' uri))"
proof -
  have len: "p + 3 < len" "len \<le> length d" "d ! p = CR" using bl by (simp_all add: blank_line_def)
  let ?i1 = "delim d len 0 SP NUL"
  have i1: "?i1 \<le> p" by (rule delim_le_blank [OF bl]) simp
  show ?thesis
  proof (cases "d ! ?i1 = SP")
    case False
    then show ?thesis by (simp add: parse_req_line_def Let_def)
  next
    case True
    then have i1': "?i1 < p" using i1 len by (cases "?i1 = p") auto
    let ?d1 = "d[?i1 := NUL]"
    have bl1: "blank_line ?d1 len p" by (rule blank_line_update [OF bl i1'])
    let ?u = "skip_spaces ?d1 len (?i1 + 1)"
    have u: "?i1 + 1 \<le> ?u" "?u \<le> p"
      by (simp only: skip_spaces_def scan_ge) (rule skip_spaces_le_blank [OF bl1], use i1' in simp)
    let ?i2 = "delim ?d1 len ?u SP NUL"
    have i2: "?u \<le> ?i2" "?i2 \<le> p" by (simp only: delim_def scan_ge) (rule delim_le_blank [OF bl1 u(2)])
    have s1: "parse_req_line d len = (if ?d1 ! ?i2 \<noteq> SP then Some (?d1, None) else do {
         d2 \<leftarrow> wr ?d1 ?i2 NUL;
         let proto = skip_spaces d2 len (?i2 + 1);
         let i = delim d2 len proto NUL NUL;
         d3 \<leftarrow> wr d2 i NUL;
         Some (d3, Some (i + 1, PMSG_REQ, proto, Req 0 ?u)) })"
      using True i1' i2 len by (simp add: parse_req_line_def Let_def)
    show ?thesis
    proof (cases "?d1 ! ?i2 = SP")
      case False
      then show ?thesis using s1 by simp
    next
      case True
      then have i2': "?i2 < p" using i2 bl1 by (cases "?i2 = p") (auto simp: blank_line_def)
      let ?d2 = "?d1[?i2 := NUL]"
      have bl2: "blank_line ?d2 len p" by (rule blank_line_update [OF bl1 i2'])
      let ?q = "skip_spaces ?d2 len (?i2 + 1)"
      have q: "?i2 + 1 \<le> ?q" "?q \<le> p"
        by (simp only: skip_spaces_def scan_ge) (rule skip_spaces_le_blank [OF bl2], use i2' in simp)
      let ?i3 = "delim ?d2 len ?q NUL NUL"
      have i3: "?q \<le> ?i3" "?i3 \<le> p" by (simp only: delim_def scan_ge) (rule delim_le_blank [OF bl2 q(2)])
      let ?d3 = "?d2[?i3 := NUL]"
      have s2: "parse_req_line d len = Some (?d3, Some (?i3 + 1, PMSG_REQ, ?q, Req 0 ?u))"
        using s1 True i2 i3 len by (simp add: Let_def)
      have t: "terminated ?d3 ?i3" using i3 len by (intro terminated_update) simp_all
      have "nuls_grow d ?d3" by (meson nuls_grow_trans nuls_grow_update)
      moreover have "drop (?i3 + 1) ?d3 = drop (?i3 + 1) d" using i3 q i2 u by simp
      moreover have "terminated ?d3 0" "terminated ?d3 ?u" "terminated ?d3 ?q"
        using terminated_mono [OF t] i3 q i2 by (simp_all add: le_trans)
      ultimately show ?thesis using s2 i3 by auto
    qed
  qed
qed

lemma parse_resp_line_safe:
  assumes bl: "blank_line d len p"
  shows "\<exists>d' r. parse_resp_line d len = Some (d', r) \<and> nuls_grow d d' \<and>
    (case r of None \<Rightarrow> True | Some (i, ty, proto, sl) \<Rightarrow>
       i \<le> p + 1 \<and> drop i d' = drop i d \<and> ty = PMSG_RESP \<and> terminated d' proto \<and>
       (\<exists>code reason. sl = Stat code (Some reason) \<and> terminated d' reason))"
proof -
  have len: "p + 3 < len" "len \<le> length d" "d ! p = CR" using bl by (simp_all add: blank_line_def)
  let ?i1 = "delim d len 0 SP NUL"
  have i1: "?i1 \<le> p" by (rule delim_le_blank [OF bl]) simp
  show ?thesis
  proof (cases "d ! ?i1 = SP")
    case False
    then show ?thesis using i1 len by (simp add: parse_resp_line_def Let_def)
  next
    case True
    then have i1': "?i1 < p" using i1 len by (cases "?i1 = p") auto
    let ?d1 = "d[?i1 := NUL]"
    have bl1: "blank_line ?d1 len p" by (rule blank_line_update [OF bl i1'])
    let ?i2 = "skip_spaces ?d1 len (?i1 + 1)"
    have i2: "?i1 + 1 \<le> ?i2" "?i2 \<le> p"
      by (simp only: skip_spaces_def scan_ge) (rule skip_spaces_le_blank [OF bl1], use i1' in simp)
    let ?ok = "\<not> (len < ?i2 + 4 \<or> \<not> isdigit (?d1 ! ?i2) \<or> \<not> isdigit (?d1 ! (?i2 + 1)) \<or>
      \<not> isdigit (?d1 ! (?i2 + 2)) \<or> ?d1 ! (?i2 + 3) \<noteq> SP)"
    let ?code = "int (read_digits 0 (drop ?i2 ?d1))"
    have s1: "parse_resp_line d len = (if \<not> ?ok then Some (?d1, None) else do {
         let i = skip_spaces ?d1 len (?i2 + 4);
         let reason = i;
         let i = delim ?d1 len i NUL NUL;
         d2 \<leftarrow> wr ?d1 i NUL;
         Some (d2, Some (i + 1, PMSG_RESP, 0, Stat ?code (Some reason))) })"
      using True i1' len by (simp add: parse_resp_line_def Let_def)
    show ?thesis
    proof (cases ?ok)
      case False
      then show ?thesis using s1 by (simp only: not_False_eq_True if_True) auto
    next
      case True
      have "?d1 ! p = CR" "\<not> isdigit CR" using bl1 by (simp_all add: blank_line_def isdigit_def char_consts)
      then have "?i2 \<noteq> p" "?i2 + 1 \<noteq> p" "?i2 + 2 \<noteq> p" "?i2 + 3 \<noteq> p" using True by auto
      then have i2': "?i2 + 4 \<le> p" using i2 by linarith
      let ?r = "skip_spaces ?d1 len (?i2 + 4)"
      have r: "?i2 + 4 \<le> ?r" "?r \<le> p"
        by (simp only: skip_spaces_def scan_ge) (rule skip_spaces_le_blank [OF bl1 i2'])
      let ?i3 = "delim ?d1 len ?r NUL NUL"
      have i3: "?r \<le> ?i3" "?i3 \<le> p" by (simp only: delim_def scan_ge) (rule delim_le_blank [OF bl1 r(2)])
      let ?d2 = "?d1[?i3 := NUL]"
      have s2: "parse_resp_line d len = Some (?d2, Some (?i3 + 1, PMSG_RESP, 0, Stat ?code (Some ?r)))"
        using s1 True i3 len by (simp only: Let_def if_False not_False_eq_True) simp
      have t: "terminated ?d2 ?i3" using i3 len by (intro terminated_update) simp_all
      have "nuls_grow d ?d2" by (meson nuls_grow_trans nuls_grow_update)
      moreover have "drop (?i3 + 1) ?d2 = drop (?i3 + 1) d" using i3 r i2 by simp
      moreover have "terminated ?d2 0" "terminated ?d2 ?r"
        using terminated_mono [OF t] i3 by (simp_all add: le_trans)
      ultimately show ?thesis using s2 i3 by auto
    qed
  qed
qed

lemma line_end_le:
  assumes "i \<le> p + 1" "i \<le> p \<Longrightarrow> d ! p = CR" "d ! (p + 1) = LF"
  shows "line_end d len i \<le> p + 1"
proof (cases "i \<le> p")
  case True
  with assms(2) have "skip_spaces d len i \<le> p" unfolding skip_spaces_def by (intro scan_le_stop) simp_all
  then show ?thesis by (simp add: line_end_def Let_def)
next
  case False
  then have "i = p + 1" using assms(1) by simp
  with assms(3) have "skip_spaces d len i = i" unfolding skip_spaces_def by (subst scan_Suc) simp
  with assms(3) \<open>i = p + 1\<close> show ?thesis by (simp add: line_end_def)
qed

lemma parse_headers_count:
  "parse_headers d len i fs = Some (r, d', fs') \<Longrightarrow> length fs \<le> MAX_FIELDS \<Longrightarrow> length fs' \<le> MAX_FIELDS"
proof (induction d len i fs rule: parse_headers.induct)
  case (1 d len i fs)
  show ?case
  proof (cases "parse_header d len i (length fs)")
    case None
    with 1 show ?thesis by (simp add: parse_headers.simps [of d])
  next
    case (Some dr)
    then obtain e h where e: "parse_header d len i (length fs) = Some (e, h)" by (cases dr) simp
    show ?thesis
    proof (cases h)
      case (H_return x)
      with e 1 show ?thesis by (simp add: parse_headers.simps [of d])
    next
      case (H_field name val j)
      from e H_field have "length fs < MAX_FIELDS"
        by (auto simp: parse_header_def Let_def split: if_splits bind_splits option.splits prod.splits)
      with e H_field 1 show ?thesis by (simp add: parse_headers.simps [of d])
    qed
  qed
qed

text \<open>A message whose strings all end inside its buffer.\<close>

definition line_ok :: "string \<Rightarrow> start_line \<Rightarrow> bool" where
  "line_ok d sl = (case sl of
       No_line \<Rightarrow> False
     | Req m u \<Rightarrow> terminated d m \<and> terminated d u
     | Stat _ r \<Rightarrow> (case r of None \<Rightarrow> False | Some r \<Rightarrow> terminated d r))"

definition msg_ok :: "pmsg \<Rightarrow> bool" where
  "msg_ok msg \<longleftrightarrow>
     length (pm_fields msg) \<le> MAX_FIELDS \<and> fields_ok (pm_buf msg) (pm_fields msg) \<and>
     (case pm_proto_id msg of None \<Rightarrow> False | Some p \<Rightarrow> terminated (pm_buf msg) p) \<and>
     line_ok (pm_buf msg) (pm_sl msg)"

lemma parse_pmsg_ok:
  assumes bl: "blank_line (pm_buf msg) (pm_len msg) p"
    and few: "count_list (take p (pm_buf msg)) LF \<le> MAX_FIELDS"
  shows "\<exists>r msg'. parse_pmsg msg = Some (r, msg') \<and> (0 \<le> r \<longrightarrow> msg_ok msg')"
proof -
  let ?d = "pm_buf msg" and ?len = "pm_len msg"
  have len: "p + 3 < ?len" "?len \<le> length ?d" using bl by (simp_all add: blank_line_def)
  show ?thesis
  proof (cases "is_resp ?d ?len")
    case None
    then show ?thesis by (simp add: parse_pmsg_def Let_def)
  next
    case (Some resp)
    let ?pl = "if resp then parse_resp_line ?d ?len else parse_req_line ?d ?len"
    have "\<exists>d' r. ?pl = Some (d', r) \<and> nuls_grow ?d d' \<and>
      (case r of None \<Rightarrow> True | Some (i, ty, proto, sl) \<Rightarrow>
         i \<le> p + 1 \<and> drop i d' = drop i ?d \<and> terminated d' proto \<and> line_ok d' sl)"
      using parse_resp_line_safe [OF bl] parse_req_line_safe [OF bl]
      by (fastforce simp: line_ok_def split: option.splits)
    then obtain d' r where r: "?pl = Some (d', r)" "nuls_grow ?d d'"
      "case r of None \<Rightarrow> True | Some (i, ty, proto, sl) \<Rightarrow>
         i \<le> p + 1 \<and> drop i d' = drop i ?d \<and> terminated d' proto \<and> line_ok d' sl" by blast
    show ?thesis
    proof (cases r)
      case None
      with r(1) Some len show ?thesis by (simp add: parse_pmsg_def Let_def)
    next
      case (Some x)
      obtain i ty proto sl where x: "r = Some (i, ty, proto, sl)" using Some by (cases x) auto
      with r(3) have i: "i \<le> p + 1" "drop i d' = drop i ?d" "terminated d' proto" "line_ok d' sl" by auto
      let ?k = "line_end d' ?len i"
      have eq: "parse_pmsg msg =
        (if ?len \<le> ?k \<or> d' ! ?k \<noteq> LF then Some (-1, msg\<lparr>pm_fields := [], pm_type := ty,
             pm_proto_id := Some proto, pm_sl := sl, pm_buf := d'\<rparr>)
         else do {
           (r, d, fs) \<leftarrow> parse_headers d' ?len (?k + 1) [];
           Some (r, msg\<lparr>pm_type := ty, pm_proto_id := Some proto, pm_sl := sl, pm_buf := d, pm_fields := fs\<rparr>)
         })"
        using \<open>is_resp ?d ?len = Some resp\<close> r(1) x len by (simp add: parse_pmsg_def Let_def)
      show ?thesis
      proof (cases "?len \<le> ?k \<or> d' ! ?k \<noteq> LF")
        case True
        then show ?thesis unfolding eq by simp
      next
        case False
        have ik: "i \<le> ?k"
          using scan_ge [of i] by (auto simp: line_end_def skip_spaces_def Let_def intro: le_SucI)
        have lf: "?d ! ?k = LF"
          using nth_drop_eq [OF i(2) ik] False len r(2) by (simp add: nuls_grow_def)
        have "?k \<le> p + 1"
        proof (rule line_end_le [OF i(1)])
          show "d' ! p = CR" if "i \<le> p"
            using nth_drop_eq [OF i(2) that] bl r(2) by (auto simp: blank_line_def nuls_grow_def)
          show "d' ! (p + 1) = LF"
            using nth_drop_eq [OF i(2,1)] bl r(2) by (auto simp: blank_line_def nuls_grow_def)
        qed
        moreover have "?k \<noteq> p" using lf bl by (auto simp: blank_line_def)
        ultimately have kp: "?k + 1 \<le> p \<or> ?k + 1 = p + 2" by linarith
        have "0 < count_list (take (?k + 1) ?d) LF"
          using count_LF_step [of 0 "?k + 1" ?d] lf kp len by force
        moreover have "length d' = length ?d" using r(2) by (simp add: nuls_grow_def)
        moreover have "drop (?k + 1) d' = drop (?k + 1) ?d" using drop_mono_eq [OF i(2)] ik by simp
        ultimately obtain r' d'' fs where h: "parse_headers d' ?len (?k + 1) [] = Some (r', d'', fs)"
          "nuls_grow d' d''" "fields_ok d'' fs"
          using parse_headers_safe [OF bl, of d' "?k + 1" "[]"] kp few by (auto simp: fields_ok_def)
        have "line_ok d'' sl" using i(4) h(2)
          by (auto simp: line_ok_def intro: terminated_grow split: start_line.splits option.splits)
        moreover have "length fs \<le> MAX_FIELDS" by (rule parse_headers_count [OF h(1)]) simp
        ultimately show ?thesis
          using False h terminated_grow [OF i(3) h(2)] unfolding eq by (simp add: msg_ok_def)
      qed
    qed
  qed
qed

text \<open>
  C8: the parser is memory safe on every message with a blank line and at most \<open>MAX_FIELDS\<close> line
  ends before it: it returns, never touches a byte outside the buffer or a field outside the array,
  and when it reports success every string of the message ends inside the buffer.
\<close>

theorem parse_pmsg_safe:
  assumes "blank_line (pm_buf msg) (pm_len msg) p" "count_list (take p (pm_buf msg)) LF \<le> MAX_FIELDS"
  shows "\<exists>r msg'. parse_pmsg msg = Some (r, msg') \<and> (0 \<le> r \<longrightarrow> msg_ok msg')"
  using parse_pmsg_ok [OF assms] .

theorem parse_pmsg_safe_witness:
  "\<exists>r msg'. parse_pmsg (new_pmsg 0\<lparr>pm_buf := ''OPTIONS * RTSP/1.0'' @ CRLF @ ''CSeq: 1'' @ CRLF @ CRLF,
      pm_len := 31\<rparr>) = Some (r, msg') \<and> (0 \<le> r \<longrightarrow> msg_ok msg')"
  using parse_pmsg_safe [of "new_pmsg 0\<lparr>pm_buf := ''OPTIONS * RTSP/1.0'' @ CRLF @ ''CSeq: 1'' @ CRLF @ CRLF,
      pm_len := 31\<rparr>" 27]
  by (simp add: blank_line_def new_pmsg_def MAX_FIELDS_def char_consts)

subsection \<open>Parsing a printed message\<close>

text \<open>The text of a header, and what is left of it in the buffer once it is parsed.\<close>

definition print_header :: "string \<times> string \<Rightarrow> string" where
  "print_header h = fst h @ '': '' @ snd h @ CRLF"

definition cut_header :: "string \<times> string \<Rightarrow> string" where
  "cut_header h = fst h @ NUL # SP # snd h @ [NUL, LF]"

definition header_text :: "string \<times> string \<Rightarrow> bool" where
  "header_text h \<longleftrightarrow>
     fst h \<noteq> [] \<and> hd (fst h) \<noteq> TAB \<and> set (fst h) \<inter> {SP, CHR '':'', CR, LF, NUL} = {} \<and>
     set (snd h) \<inter> {CR, LF, NUL} = {} \<and> (snd h = [] \<or> hd (snd h) \<notin> {SP, TAB})"

fun header_offsets :: "nat \<Rightarrow> (string \<times> string) list \<Rightarrow> (nat \<times> nat) list" where
  "header_offsets i [] = []"
| "header_offsets i (h # hs) =
     (i, i + length (fst h) + 2) # header_offsets (i + length (fst h) + length (snd h) + 4) hs"

lemma scan_append:
  assumes "\<forall>x \<in> set s. p x" "\<not> p c" "length pre + length s < len"
  shows "scan p (pre @ s @ c # post) len (length pre) = length pre + length s"
proof -
  from assms(3) obtain m where "len = length pre + (length s + Suc m)"
    by (metis add_Suc_right less_imp_Suc_add add.assoc)
  then show ?thesis using assms(1,2) by (simp add: scan_def)
qed

lemma cstr_at_append:
  assumes "NUL \<notin> set s"
  shows "cstr_at (pre @ s @ NUL # post) (length pre) = Some s"
proof -
  have "takeWhile (\<lambda>c. c \<noteq> NUL) (s @ NUL # post) = s @ takeWhile (\<lambda>c. c \<noteq> NUL) (NUL # post)"
    by (rule takeWhile_append2) (use assms in auto)
  then show ?thesis by (simp add: cstr_at_def)
qed

lemma parse_header_print:
  assumes h: "header_text (n, v)" and len: "length pre + length n + length v + 4 \<le> len" and k: "k < MAX_FIELDS"
  shows "parse_header (pre @ print_header (n, v) @ post) len (length pre) k =
    Some (pre @ cut_header (n, v) @ post,
      H_field (length pre) (length pre + length n + 2) (length pre + length n + length v + 4))"
proof -
  let ?i = "length pre" and ?n = "length n" and ?v = "length v"
  let ?d0 = "pre @ n @ CHR '':'' # SP # v @ CR # LF # post"
  have d0: "pre @ print_header (n, v) @ post = ?d0" by (simp add: print_header_def SP_def)
  from h obtain c n' where n: "n = c # n'" "c \<noteq> TAB" "c \<noteq> SP" "c \<noteq> CR" "c \<noteq> LF"
    by (cases n) (auto simp: header_text_def)
  have "delim ?d0 len ?i SP (CHR '':'') = ?i + ?n"
    unfolding delim_def using h len by (intro scan_append) (auto simp: header_text_def)
  then have col: "header_colon ?d0 len ?i = (?d0, Some (?i + ?n))"
    using len by (simp add: header_colon_def Let_def nth_append SP_def)
  let ?d1 = "(pre @ n @ [NUL]) @ [SP] @ v @ CR # LF # post"
  have d1: "?d0[?i + ?n := NUL] = ?d1" by (simp add: list_update_append)
  obtain x rest where x: "v @ CR # LF # post = x # rest" "x \<noteq> SP" "x \<noteq> TAB"
    using h by (cases v) (auto simp: header_text_def)
  have "scan (\<lambda>c. c = SP \<or> c = TAB) ?d1 len (length (pre @ n @ [NUL])) = length (pre @ n @ [NUL]) + length [SP]"
    unfolding x(1) using x(2,3) len by (intro scan_append) simp_all
  then have val: "scan (\<lambda>c. c = SP \<or> c = TAB) ?d1 len (?i + ?n + 1) = ?i + ?n + 2" by simp
  let ?pre2 = "pre @ n @ [NUL, SP]"
  have d1': "?d1 = ?pre2 @ v @ CR # LF # post" by simp
  have "delim (?pre2 @ v @ CR # LF # post) len (length ?pre2) NUL NUL = length ?pre2 + ?v"
    unfolding delim_def using h len by (intro scan_append) (auto simp: header_text_def)
  then have e: "delim ?d1 len (?i + ?n + 2) NUL NUL = ?i + ?n + 2 + ?v" unfolding d1' by simp
  have cut: "?d1[?i + ?n + 2 + ?v := NUL] = pre @ cut_header (n, v) @ post"
    unfolding d1' cut_header_def by (simp add: list_update_append)
  have lf: "(pre @ cut_header (n, v) @ post) ! (?i + ?n + 2 + ?v + 1) = LF"
    unfolding cut_header_def by (simp add: nth_append)
  have "header_value ?d0 len (?i + ?n) =
      Some (pre @ cut_header (n, v) @ post, Some (?i + ?n + 2, ?i + ?n + ?v + 4))"
    unfolding header_value_def Let_def d1 val e using cut lf len
    by (simp add: add.commute add.left_commute del: append.assoc)
  moreover have "?d0 ! ?i = c" "?i < len" "?i < length ?d0" using n len by (simp_all add: nth_append)
  ultimately show ?thesis
    unfolding d0 using n col k by (simp add: parse_header_def Let_def)
qed

lemma length_print_header [simp]: "length (print_header h) = length (fst h) + length (snd h) + 4"
  by (simp add: print_header_def)

lemma length_cut_header [simp]: "length (cut_header h) = length (fst h) + length (snd h) + 4"
  by (simp add: cut_header_def)

lemma parse_headers_print:
  assumes "\<forall>h \<in> set hs. header_text h" "length fs + length hs \<le> MAX_FIELDS"
    "length pre + length (concat (map print_header hs)) + 2 \<le> len"
  shows "parse_headers (pre @ concat (map print_header hs) @ CRLF @ post) len (length pre) fs =
    Some (int (length pre + length (concat (map print_header hs)) + 2),
      pre @ concat (map cut_header hs) @ CRLF @ post, fs @ header_offsets (length pre) hs)"
  using assms
proof (induction hs arbitrary: pre fs)
  case Nil
  then have "parse_header (pre @ CRLF @ post) len (length pre) (length fs) =
      Some (pre @ CRLF @ post, H_return (int (length pre + 2)))"
    by (simp add: parse_header_def Let_def nth_append)
  then show ?case by (subst parse_headers.simps) simp
next
  case (Cons h hs)
  obtain n v where h: "h = (n, v)" by (cases h)
  let ?post = "concat (map print_header hs) @ CRLF @ post"
  let ?pre = "pre @ cut_header (n, v)"
  have "parse_header (pre @ print_header (n, v) @ ?post) len (length pre) (length fs) =
      Some (pre @ cut_header (n, v) @ ?post,
        H_field (length pre) (length pre + length n + 2) (length pre + length n + length v + 4))"
    by (rule parse_header_print) (use Cons.prems h in auto)
  then have "parse_headers (pre @ print_header (n, v) @ ?post) len (length pre) fs =
      parse_headers (?pre @ ?post) len (length ?pre) (fs @ [(length pre, length pre + length n + 2)])"
    by (subst parse_headers.simps) (simp add: add.assoc)
  moreover have "length ?pre + length (concat (map print_header hs)) + 2 \<le> len"
    using Cons.prems(3) h by simp
  ultimately show ?case
    using Cons.IH [of "fs @ [(length pre, length pre + length n + 2)]" ?pre] Cons.prems h
    by (simp add: add.assoc)
qed

definition read_fields :: "string \<Rightarrow> (nat \<times> nat) list \<Rightarrow> (string option \<times> string option) list" where
  "read_fields d fs = map (\<lambda>(n, v). (cstr_at d n, cstr_at d v)) fs"

lemma read_fields_simps [simp]:
  "read_fields d [] = []"
  "read_fields d ((n, v) # fs) = (cstr_at d n, cstr_at d v) # read_fields d fs"
  by (simp_all add: read_fields_def)

lemma read_fields_cut:
  assumes "\<forall>h \<in> set hs. header_text h"
  shows "read_fields (pre @ concat (map cut_header hs) @ post) (header_offsets (length pre) hs) =
    map (\<lambda>(n, v). (Some n, Some v)) hs"
  using assms
proof (induction hs arbitrary: pre)
  case Nil
  then show ?case by simp
next
  case (Cons h hs)
  obtain n v where h: "h = (n, v)" by (cases h)
  let ?rest = "concat (map cut_header hs) @ post"
  let ?pre = "pre @ cut_header (n, v)"
  have nul: "NUL \<notin> set n" "NUL \<notin> set v" using Cons.prems h by (auto simp: header_text_def)
  have "cstr_at (pre @ n @ NUL # (SP # v @ [NUL, LF] @ ?rest)) (length pre) = Some n"
    by (rule cstr_at_append [OF nul(1)])
  moreover have "cstr_at ((pre @ n @ [NUL, SP]) @ v @ NUL # (LF # ?rest)) (length (pre @ n @ [NUL, SP])) = Some v"
    by (rule cstr_at_append [OF nul(2)])
  moreover have "read_fields (?pre @ ?rest) (header_offsets (length ?pre) hs) = map (\<lambda>(n, v). (Some n, Some v)) hs"
    using Cons.IH [of ?pre] Cons.prems by simp
  ultimately show ?case by (simp add: h cut_header_def [of "(n, v)"] add.assoc eval_nat_numeral)
qed

text \<open>A request as a client writes it.\<close>

definition print_request :: "string \<Rightarrow> string \<Rightarrow> string \<Rightarrow> (string \<times> string) list \<Rightarrow> string" where
  "print_request method uri proto hs =
     method @ SP # uri @ SP # proto @ CRLF @ concat (map print_header hs) @ CRLF"

definition word :: "string \<Rightarrow> bool" where
  "word s \<longleftrightarrow> s \<noteq> [] \<and> set s \<inter> {SP, CR, LF, NUL} = {}"

lemma parse_req_line_print:
  assumes "word method" "word uri" "word proto" and len: "length method + length uri + length proto + 4 \<le> len"
  shows "parse_req_line (method @ SP # uri @ SP # proto @ CRLF @ post) len =
    Some (method @ NUL # uri @ NUL # proto @ NUL # LF # post,
      Some (length method + length uri + length proto + 3, PMSG_REQ,
        length method + length uri + 2, Req 0 (length method + 1)))"
proof -
  let ?m = "length method" and ?u = "length uri" and ?p = "length proto"
  have skip: "skip_spaces (pre @ w @ r) len (length pre) = length pre" if "word w" for pre w r
    using that unfolding skip_spaces_def by (cases w; subst scan_Suc) (auto simp: word_def nth_append)
  let ?d0 = "method @ SP # uri @ SP # proto @ CRLF @ post"
  have i1: "delim ?d0 len 0 SP NUL = ?m"
    unfolding delim_def by (rule scan_append [where pre = "[]", simplified]) (use assms(1) len in \<open>auto simp: word_def\<close>)
  let ?pre1 = "method @ [NUL]"
  have d1: "?d0[?m := NUL] = ?pre1 @ uri @ SP # proto @ CRLF @ post" by (simp add: list_update_append)
  have i2: "delim (?pre1 @ uri @ SP # proto @ CRLF @ post) len (length ?pre1) SP NUL = length ?pre1 + ?u"
    unfolding delim_def by (rule scan_append) (use assms(2) len in \<open>auto simp: word_def\<close>)
  let ?pre2 = "method @ NUL # uri @ [NUL]"
  have d2: "(?pre1 @ uri @ SP # proto @ CRLF @ post)[?m + ?u + 1 := NUL] = ?pre2 @ proto @ CR # LF # post"
    by (simp add: list_update_append)
  have i3: "delim (?pre2 @ proto @ CR # LF # post) len (length ?pre2) NUL NUL = length ?pre2 + ?p"
    unfolding delim_def by (rule scan_append) (use assms(3) len in \<open>auto simp: word_def\<close>)
  have d3: "(?pre2 @ proto @ CR # LF # post)[?m + ?u + ?p + 2 := NUL] = ?pre2 @ proto @ NUL # LF # post"
    by (simp add: list_update_append)
  have "parse_req_line ?d0 len = do {
       d \<leftarrow> wr ?d0 ?m NUL;
       let uri' = skip_spaces d len (?m + 1);
       let i = delim d len uri' SP NUL;
       if len \<le> i \<or> d ! i \<noteq> SP then Some (d, None)
       else do {
         d \<leftarrow> wr d i NUL;
         let proto' = skip_spaces d len (i + 1);
         let i = delim d len proto' NUL NUL;
         d \<leftarrow> wr d i NUL;
         Some (d, Some (i + 1, PMSG_REQ, proto', Req 0 uri'))
       } }"
    using i1 len by (simp add: parse_req_line_def Let_def nth_append)
  also have "\<dots> = do {
         d \<leftarrow> wr (?pre1 @ uri @ SP # proto @ CRLF @ post) (?m + ?u + 1) NUL;
         let proto' = skip_spaces d len (?m + ?u + 2);
         let i = delim d len proto' NUL NUL;
         d \<leftarrow> wr d i NUL;
         Some (d, Some (i + 1, PMSG_REQ, proto', Req 0 (?m + 1))) }"
  proof -
    have "wr ?d0 ?m NUL = Some (?pre1 @ uri @ SP # proto @ CRLF @ post)" unfolding d1 [symmetric] by simp
    moreover have "skip_spaces (?pre1 @ uri @ SP # proto @ CRLF @ post) len (?m + 1) = ?m + 1"
      using skip [OF assms(2), of ?pre1 "SP # proto @ CRLF @ post"] by simp
    moreover have "delim (?pre1 @ uri @ SP # proto @ CRLF @ post) len (?m + 1) SP NUL = ?m + ?u + 1"
      using i2 by simp
    moreover have "(?pre1 @ uri @ SP # proto @ CRLF @ post) ! (?m + ?u + 1) = SP" by (simp add: nth_append)
    ultimately show ?thesis using len by (simp del: append.assoc)
  qed
  also have "\<dots> = Some (?pre2 @ proto @ NUL # LF # post,
      Some (?m + ?u + ?p + 3, PMSG_REQ, ?m + ?u + 2, Req 0 (?m + 1)))"
  proof -
    have "wr (?pre1 @ uri @ SP # proto @ CRLF @ post) (?m + ?u + 1) NUL = Some (?pre2 @ proto @ CR # LF # post)"
      unfolding d2 [symmetric] by simp
    moreover have "skip_spaces (?pre2 @ proto @ CR # LF # post) len (?m + ?u + 2) = ?m + ?u + 2"
      using skip [OF assms(3), of ?pre2 "CR # LF # post"] by simp
    moreover have "delim (?pre2 @ proto @ CR # LF # post) len (?m + ?u + 2) NUL NUL = ?m + ?u + ?p + 2"
      using i3 by simp
    moreover have "wr (?pre2 @ proto @ CR # LF # post) (?m + ?u + ?p + 2) NUL = Some (?pre2 @ proto @ NUL # LF # post)"
      unfolding d3 [symmetric] by simp
    ultimately show ?thesis by (simp del: append.assoc)
  qed
  finally show ?thesis by simp
qed

lemma line_end_LF: "line_end (pre @ LF # post) len (length pre) = length pre"
proof -
  have "skip_spaces (pre @ LF # post) len (length pre) = length pre"
    unfolding skip_spaces_def by (subst scan_Suc) simp
  then show ?thesis by (simp add: line_end_def)
qed

lemma is_resp_print:
  assumes "CHR ''/'' \<notin> set w" "SP \<notin> set w" "length w < len" "c = SP \<or> c = CHR ''/''"
  shows "is_resp (w @ c # post) len = Some (c = CHR ''/'')"
proof -
  have "scan (\<lambda>c. c \<noteq> SP \<and> c \<noteq> CHR ''/'') (w @ c # post) len 0 = length w"
    by (rule scan_append [where pre = "[]", simplified]) (use assms in auto)
  with assms(3) show ?thesis by (simp add: is_resp_def nth_append)
qed

text \<open>The parser on a printed request reaches the header loop behind the request line.\<close>

definition cut_line :: "string \<Rightarrow> string \<Rightarrow> string \<Rightarrow> string" where
  "cut_line method uri proto = method @ NUL # uri @ NUL # proto @ [NUL, LF]"

lemma parse_pmsg_print:
  assumes "word method" "CHR ''/'' \<notin> set method" "word uri" "word proto"
    and "pm_buf msg = print_request method uri proto hs @ post"
    and "length (print_request method uri proto hs) \<le> pm_len msg"
  shows "parse_pmsg msg = do {
      (r, d, fs) \<leftarrow> parse_headers (cut_line method uri proto @ concat (map print_header hs) @ CRLF @ post)
        (pm_len msg) (length (cut_line method uri proto)) [];
      Some (r, msg\<lparr>pm_type := PMSG_REQ, pm_proto_id := Some (length method + length uri + 2),
        pm_sl := Req 0 (length method + 1), pm_buf := d, pm_fields := fs\<rparr>) }"
proof -
  let ?len = "pm_len msg" and ?hs = "concat (map print_header hs)"
  have buf: "pm_buf msg = method @ SP # uri @ SP # proto @ CRLF @ (?hs @ CRLF @ post)"
    using assms(5) by (simp add: print_request_def)
  have len: "length method + length uri + length proto + 6 + length ?hs \<le> ?len"
    using assms(6) by (simp add: print_request_def)
  have line: "parse_req_line (pm_buf msg) ?len = Some (method @ NUL # uri @ NUL # proto @ NUL # LF # ?hs @ CRLF @ post,
      Some (length method + length uri + length proto + 3, PMSG_REQ,
        length method + length uri + 2, Req 0 (length method + 1)))"
    unfolding buf by (rule parse_req_line_print [OF assms(1,3,4)]) (use len in simp)
  have resp: "is_resp (pm_buf msg) ?len = Some False"
    unfolding buf using is_resp_print [of "method" ?len SP] assms(1,2) len by (auto simp: word_def SP_def)
  have "line_end ((method @ NUL # uri @ NUL # proto @ [NUL]) @ LF # ?hs @ CRLF @ post) ?len
      (length (method @ NUL # uri @ NUL # proto @ [NUL])) = length (method @ NUL # uri @ NUL # proto @ [NUL])"
    by (rule line_end_LF)
  with line resp len show ?thesis
    by (simp add: parse_pmsg_def Let_def nth_append eval_nat_numeral add.assoc cut_line_def)
qed

text \<open>
  C9: parsing a printed request with at most \<open>MAX_FIELDS\<close> headers consumes exactly the request,
  whatever follows it in the buffer, and gives back its method, URI, protocol and headers.
\<close>

theorem parse_print_request:
  assumes "word method" "CHR ''/'' \<notin> set method" "word uri" "word proto"
    and "\<forall>h \<in> set hs. header_text h" "length hs \<le> MAX_FIELDS"
    and "pm_buf msg = print_request method uri proto hs @ post"
    and "length (print_request method uri proto hs) \<le> pm_len msg"
  shows "\<exists>msg' u q. parse_pmsg msg = Some (int (length (print_request method uri proto hs)), msg') \<and>
    pm_type msg' = PMSG_REQ \<and> pm_sl msg' = Req 0 u \<and> pm_proto_id msg' = Some q \<and>
    cstr_at (pm_buf msg') 0 = Some method \<and> cstr_at (pm_buf msg') u = Some uri \<and>
    cstr_at (pm_buf msg') q = Some proto \<and>
    read_fields (pm_buf msg') (pm_fields msg') = map (\<lambda>(n, v). (Some n, Some v)) hs"
proof -
  let ?hs = "concat (map print_header hs)" and ?cs = "concat (map cut_header hs)"
  let ?line = "cut_line method uri proto"
  have len: "length ?line + length ?hs + 2 = length (print_request method uri proto hs)"
    by (simp add: print_request_def cut_line_def)
  have "parse_headers (?line @ ?hs @ CRLF @ post) (pm_len msg) (length ?line) [] =
      Some (int (length ?line + length ?hs + 2), ?line @ ?cs @ CRLF @ post, [] @ header_offsets (length ?line) hs)"
    by (rule parse_headers_print) (use assms(5,6,8) len in auto)
  with parse_pmsg_print [OF assms(1-4,7,8)] len
  have eq: "parse_pmsg msg = Some (int (length (print_request method uri proto hs)),
      msg\<lparr>pm_type := PMSG_REQ, pm_proto_id := Some (length method + length uri + 2),
        pm_sl := Req 0 (length method + 1), pm_buf := ?line @ ?cs @ CRLF @ post,
        pm_fields := header_offsets (length ?line) hs\<rparr>)" by simp
  have nul: "NUL \<notin> set method" "NUL \<notin> set uri" "NUL \<notin> set proto" using assms(1,3,4) by (auto simp: word_def)
  have "cstr_at ([] @ method @ NUL # (uri @ NUL # proto @ [NUL, LF] @ ?cs @ CRLF @ post)) (length ([] :: string)) = Some method"
    by (rule cstr_at_append [OF nul(1)])
  moreover have "cstr_at ((method @ [NUL]) @ uri @ NUL # (proto @ [NUL, LF] @ ?cs @ CRLF @ post)) (length (method @ [NUL])) = Some uri"
    by (rule cstr_at_append [OF nul(2)])
  moreover have "cstr_at ((method @ NUL # uri @ [NUL]) @ proto @ NUL # (LF # ?cs @ CRLF @ post)) (length (method @ NUL # uri @ [NUL])) = Some proto"
    by (rule cstr_at_append [OF nul(3)])
  moreover have "read_fields (?line @ ?cs @ CRLF @ post) (header_offsets (length ?line) hs) = map (\<lambda>(n, v). (Some n, Some v)) hs"
    by (rule read_fields_cut [OF assms(5)])
  ultimately show ?thesis by (simp add: eq cut_line_def)
qed

theorem parse_print_request_witness:
  "\<exists>msg' u q. parse_pmsg (new_pmsg 0\<lparr>pm_buf := print_request ''PLAY'' ''rtsp://cam/live'' ''RTSP/1.0''
        [(''CSeq'', ''7''), (''Session'', ''a1b2'')], pm_len := 57\<rparr>) = Some (57, msg') \<and>
     pm_sl msg' = Req 0 u \<and> cstr_at (pm_buf msg') u = Some ''rtsp://cam/live'' \<and>
     read_fields (pm_buf msg') (pm_fields msg') =
       [(Some ''CSeq'', Some ''7''), (Some ''Session'', Some ''a1b2'')] \<and> pm_proto_id msg' = Some q"
  using parse_print_request [of "''PLAY''" "''rtsp://cam/live''" "''RTSP/1.0''"
      "[(''CSeq'', ''7''), (''Session'', ''a1b2'')]"
      "new_pmsg 0\<lparr>pm_buf := print_request ''PLAY'' ''rtsp://cam/live'' ''RTSP/1.0''
        [(''CSeq'', ''7''), (''Session'', ''a1b2'')], pm_len := 57\<rparr>" "[]"]
  by (simp add: word_def header_text_def MAX_FIELDS_def print_request_def char_consts) blast

lemma parse_header_full:
  assumes "header_text (n, v)" "MAX_FIELDS \<le> k" "length pre + length n \<le> len"
  shows "parse_header (pre @ print_header (n, v) @ post) len (length pre) k = None"
proof -
  from assms(1) obtain c n' where "n = c # n'" "c \<noteq> TAB" "c \<noteq> SP" "c \<noteq> CR" "c \<noteq> LF"
    by (cases n) (auto simp: header_text_def)
  with assms(2,3) show ?thesis by (simp add: parse_header_def print_header_def Let_def nth_append)
qed

lemma parse_headers_overflow:
  assumes "\<forall>h \<in> set hs. header_text h" "length fs \<le> MAX_FIELDS" "MAX_FIELDS < length fs + length hs"
    "length pre + length (concat (map print_header hs)) + 2 \<le> len"
  shows "parse_headers (pre @ concat (map print_header hs) @ CRLF @ post) len (length pre) fs = None"
  using assms
proof (induction hs arbitrary: pre fs)
  case (Cons h hs)
  obtain n v where h: "h = (n, v)" by (cases h)
  let ?post = "concat (map print_header hs) @ CRLF @ post"
  let ?pre = "pre @ cut_header (n, v)"
  show ?case
  proof (cases "length fs = MAX_FIELDS")
    case True
    have "parse_header (pre @ print_header (n, v) @ ?post) len (length pre) (length fs) = None"
      by (rule parse_header_full) (use True Cons.prems h in auto)
    then show ?thesis by (subst parse_headers.simps) (simp add: h)
  next
    case False
    have "parse_header (pre @ print_header (n, v) @ ?post) len (length pre) (length fs) =
        Some (pre @ cut_header (n, v) @ ?post,
          H_field (length pre) (length pre + length n + 2) (length pre + length n + length v + 4))"
      by (rule parse_header_print) (use False Cons.prems h in auto)
    then have "parse_headers (pre @ print_header (n, v) @ ?post) len (length pre) fs =
        parse_headers (?pre @ ?post) len (length ?pre) (fs @ [(length pre, length pre + length n + 2)])"
      by (subst parse_headers.simps) (simp add: add.assoc)
    moreover have "length ?pre + length (concat (map print_header hs)) + 2 \<le> len"
      using Cons.prems(4) h by simp
    ultimately show ?thesis
      using Cons.IH [of "fs @ [(length pre, length pre + length n + 2)]" ?pre] Cons.prems h False by simp
  qed
qed simp

text \<open>
  C12: the parser writes behind the array of fields on every well-formed request with more than
  \<open>MAX_FIELDS\<close> headers.
\<close>

theorem parse_pmsg_field_overflow:
  assumes "word method" "CHR ''/'' \<notin> set method" "word uri" "word proto"
    and "\<forall>h \<in> set hs. header_text h" "MAX_FIELDS < length hs"
    and "pm_buf msg = print_request method uri proto hs @ post"
    and "length (print_request method uri proto hs) \<le> pm_len msg"
  shows "parse_pmsg msg = None"
proof -
  let ?line = "cut_line method uri proto"
  have "parse_headers (?line @ concat (map print_header hs) @ CRLF @ post) (pm_len msg) (length ?line) [] = None"
    by (rule parse_headers_overflow) (use assms(5,6,8) in \<open>auto simp: print_request_def cut_line_def\<close>)
  with parse_pmsg_print [OF assms(1-4,7,8)] show ?thesis by simp
qed

theorem parse_pmsg_field_overflow_witness:
  "parse_pmsg (new_pmsg 0\<lparr>pm_buf := print_request ''OPTIONS'' ''*'' ''RTSP/1.0'' (replicate 33 (''A'', ''b'')),
     pm_len := 220\<rparr>) = None"
  by (rule parse_pmsg_field_overflow [of "''OPTIONS''" "''*''" "''RTSP/1.0''" "replicate 33 (''A'', ''b'')" _ "[]"])
    (simp_all add: word_def header_text_def MAX_FIELDS_def print_request_def char_consts map_replicate_const
      eval_nat_numeral)

subsection \<open>Looking up and adding headers\<close>

text \<open>The contract of the header functions, on the list of headers a message stands for.\<close>

fun lookup_header :: "(string \<times> string) list \<Rightarrow> string \<Rightarrow> string option" where
  "lookup_header [] name = None"
| "lookup_header ((n, v) # hs) name = (if strcaseeq n name then Some v else lookup_header hs name)"

definition holds_headers :: "pmsg \<Rightarrow> (string \<times> string) list \<Rightarrow> bool" where
  "holds_headers msg hs \<longleftrightarrow>
     read_fields (pm_buf msg) (pm_fields msg) = map (\<lambda>(n, v). (Some n, Some v)) hs"

lemma find_field_lookup:
  assumes "read_fields d fs = map (\<lambda>(n, v). (Some n, Some v)) hs"
  shows "\<exists>r. find_field d fs name i = Some r \<and>
    (case r of None \<Rightarrow> lookup_header hs name = None
     | Some k \<Rightarrow> i \<le> k \<and> k < i + length fs \<and> lookup_header hs name = cstr_at d (snd (fs ! (k - i))))"
  using assms
proof (induction fs arbitrary: hs i)
  case Nil
  then show ?case by simp
next
  case (Cons f fs)
  obtain n v where f: "f = (n, v)" by (cases f)
  from Cons.prems f obtain nm vl hs' where hs: "hs = (nm, vl) # hs'" "cstr_at d n = Some nm" "cstr_at d v = Some vl"
    "read_fields d fs = map (\<lambda>(n, v). (Some n, Some v)) hs'" by (cases hs) auto
  from Cons.IH [OF hs(4), of "Suc i"] obtain r where r: "find_field d fs name (Suc i) = Some r"
    "case r of None \<Rightarrow> lookup_header hs' name = None
     | Some k \<Rightarrow> Suc i \<le> k \<and> k < Suc i + length fs \<and> lookup_header hs' name = cstr_at d (snd (fs ! (k - Suc i)))" by blast
  show ?case
  proof (cases "strcaseeq nm name")
    case True
    then show ?thesis using f hs by simp
  next
    case False
    have "(f # fs) ! (k - i) = fs ! (k - Suc i)" if "Suc i \<le> k" for k
      using that by (simp add: nth_Cons' )
    with False show ?thesis using f hs r by (cases r) auto
  qed
qed

text \<open>
  C10: \<open>get_header\<close> finds the value of the first header whose name matches up to case, and \<open>NULL\<close>
  exactly when there is none.
\<close>

theorem get_header_lookup:
  assumes "holds_headers msg hs"
  shows "\<exists>r. get_header msg name = Some r \<and>
    lookup_header hs name = (case r of None \<Rightarrow> None | Some v \<Rightarrow> cstr_at (pm_buf msg) v)"
proof -
  from find_field_lookup [of "pm_buf msg" "pm_fields msg" hs name 0] assms obtain r where
    r: "find_field (pm_buf msg) (pm_fields msg) name 0 = Some r"
    "case r of None \<Rightarrow> lookup_header hs name = None
     | Some k \<Rightarrow> lookup_header hs name = cstr_at (pm_buf msg) (snd (pm_fields msg ! k))"
    unfolding holds_headers_def by (auto split: option.splits)
  then show ?thesis by (cases r) (simp_all add: get_header_def)
qed

theorem get_header_lookup_witness:
  "\<exists>r. get_header (snd (add_header (new_pmsg 64) ''CSeq'' ''7'')) ''cseq'' = Some r \<and>
     lookup_header [(''CSeq'', ''7'')] ''cseq'' =
       (case r of None \<Rightarrow> None | Some v \<Rightarrow> cstr_at (pm_buf (snd (add_header (new_pmsg 64) ''CSeq'' ''7''))) v)"
  by (rule get_header_lookup)
    (simp add: holds_headers_def add_header_def add_pmsg_string_def new_pmsg_def MAX_FIELDS_def
      put_str_def cstr_at_def NUL_def)

text \<open>Adding strings only writes behind \<open>msg_len\<close>.\<close>

definition built :: "pmsg \<Rightarrow> (string \<times> string) list \<Rightarrow> bool" where
  "built msg hs \<longleftrightarrow> pm_len msg \<le> length (pm_buf msg) \<and> length (pm_fields msg) \<le> MAX_FIELDS \<and>
     read_fields (take (pm_len msg) (pm_buf msg)) (pm_fields msg) = map (\<lambda>(n, v). (Some n, Some v)) hs"

lemma cstr_at_prefix: "cstr_at d off = Some s \<Longrightarrow> cstr_at (d @ e) off = Some s"
  by (auto simp: cstr_at_def takeWhile_append1 split: if_splits)

lemma cstr_at_take: "cstr_at (take n d) off = Some s \<Longrightarrow> cstr_at d off = Some s"
  using cstr_at_prefix [of "take n d" off s "drop n d"] by simp

lemma read_fields_prefix:
  assumes "read_fields d fs = map (\<lambda>(n, v). (Some n, Some v)) hs"
  shows "read_fields (d @ e) fs = map (\<lambda>(n, v). (Some n, Some v)) hs"
  using assms
proof (induction fs arbitrary: hs)
  case (Cons f fs)
  then show ?case by (cases f; cases hs) (auto simp: cstr_at_prefix)
qed simp

lemma built_holds: "built msg hs \<Longrightarrow> holds_headers msg hs"
  unfolding built_def holds_headers_def
  using read_fields_prefix [of "take (pm_len msg) (pm_buf msg)" "pm_fields msg" hs "drop (pm_len msg) (pm_buf msg)"]
  by simp

lemma add_pmsg_string_built:
  assumes "built msg hs" "NUL \<notin> set s" "add_pmsg_string msg s = (r, msg')"
  shows "built msg' hs \<and> pm_fields msg' = pm_fields msg \<and> pm_sl msg' = pm_sl msg \<and>
    pm_type msg' = pm_type msg \<and> pm_proto_id msg' = pm_proto_id msg \<and>
    (case r of
       None \<Rightarrow> msg' = msg \<and> length (pm_buf msg) < pm_len msg + length s + 1
     | Some p \<Rightarrow> pm_len msg' = pm_len msg + length s + 1 \<and> length (pm_buf msg') = length (pm_buf msg) \<and>
         take (pm_len msg) (pm_buf msg') = take (pm_len msg) (pm_buf msg) \<and>
         cstr_at (take (pm_len msg') (pm_buf msg')) p = Some s)"
proof (cases "length (pm_buf msg) < pm_len msg + (length s + 1)")
  case True
  with assms show ?thesis by (auto simp: add_pmsg_string_def)
next
  case False
  let ?pre = "take (pm_len msg) (pm_buf msg)"
  from False assms have r: "r = Some (pm_len msg)" "pm_buf msg' = ?pre @ s @ NUL # drop (pm_len msg + (length s + 1)) (pm_buf msg)"
    "pm_len msg' = pm_len msg + length s + 1" "pm_fields msg' = pm_fields msg" "pm_sl msg' = pm_sl msg"
    "pm_type msg' = pm_type msg" "pm_proto_id msg' = pm_proto_id msg"
    by (auto simp: add_pmsg_string_def put_str_def)
  have pre: "length ?pre = pm_len msg" using assms(1) by (simp add: built_def)
  have t: "take (pm_len msg') (pm_buf msg') = ?pre @ s @ [NUL]" using pre by (simp add: r)
  have "cstr_at (?pre @ s @ NUL # []) (length ?pre) = Some s" by (rule cstr_at_append [OF assms(2)])
  moreover have "read_fields (?pre @ s @ [NUL]) (pm_fields msg) = map (\<lambda>(n, v). (Some n, Some v)) hs"
    using assms(1) by (intro read_fields_prefix) (simp add: built_def)
  moreover have "length (pm_buf msg') = length (pm_buf msg)" using False pre unfolding r(2) by simp
  moreover have "take (pm_len msg) (pm_buf msg') = ?pre" using pre by (simp add: r(2))
  ultimately show ?thesis using False assms(1) t r by (simp add: built_def)
qed

lemma add_header_built:
  assumes "built msg hs" "NUL \<notin> set n" "NUL \<notin> set v" "add_header msg n v = (r, msg')"
  shows "(r = 0 \<and> built msg' (hs @ [(n, v)]) \<or> r = -1 \<and> built msg' hs) \<and>
    pm_sl msg' = pm_sl msg \<and> pm_type msg' = pm_type msg \<and> pm_proto_id msg' = pm_proto_id msg \<and>
    length (pm_buf msg') = length (pm_buf msg) \<and>
    take (pm_len msg) (pm_buf msg') = take (pm_len msg) (pm_buf msg) \<and>
    pm_len msg + (if r = 0 then length n + length v + 2 else 0) \<le> pm_len msg' \<and>
    (r = 0 \<longleftrightarrow> length (pm_fields msg) < MAX_FIELDS \<and>
       pm_len msg + length n + length v + 2 \<le> length (pm_buf msg))"
proof (cases "length (pm_fields msg) = MAX_FIELDS")
  case True
  with assms show ?thesis by (auto simp: add_header_def)
next
  case False
  then have few: "length (pm_fields msg) < MAX_FIELDS" using assms(1) by (simp add: built_def)
  obtain p1 m1 where 1: "add_pmsg_string msg n = (p1, m1)" by (rule prod.exhaust)
  note b1 = add_pmsg_string_built [OF assms(1,2) 1]
  show ?thesis
  proof (cases p1)
    case None
    with 1 b1 False assms show ?thesis by (auto simp: add_header_def)
  next
    case (Some n')
    obtain p2 m2 where 2: "add_pmsg_string m1 v = (p2, m2)" by (rule prod.exhaust)
    from b1 have "built m1 hs" by simp
    note b2 = add_pmsg_string_built [OF this assms(3) 2]
    show ?thesis
    proof (cases p2)
      case None
      with 1 2 b1 b2 False assms \<open>p1 = Some n'\<close> show ?thesis by (auto simp: add_header_def)
    next
      case (Some v')
      with 1 2 \<open>p1 = Some n'\<close> False assms(4) have r: "r = 0" "msg' = m2\<lparr>pm_fields := pm_fields m2 @ [(n', v')]\<rparr>"
        by (auto simp: add_header_def)
      have n': "cstr_at (take (pm_len m1) (pm_buf m1)) n' = Some n" using b1 \<open>p1 = Some n'\<close> by auto
      have v': "cstr_at (take (pm_len m2) (pm_buf m2)) v' = Some v" "pm_len m1 \<le> pm_len m2"
        "take (pm_len m1) (pm_buf m2) = take (pm_len m1) (pm_buf m1)" using b2 Some by auto
      have "take (pm_len m1) (take (pm_len m2) (pm_buf m2)) = take (pm_len m1) (pm_buf m1)" using v' by simp
      with n' cstr_at_take [of "pm_len m1" "take (pm_len m2) (pm_buf m2)" n' n]
      have "cstr_at (take (pm_len m2) (pm_buf m2)) n' = Some n" by simp
      moreover have "take (pm_len msg) (take (pm_len m1) (pm_buf m2)) = take (pm_len msg) (take (pm_len m1) (pm_buf m1))"
        by (simp only: v'(3))
      then have "take (pm_len msg) (pm_buf m2) = take (pm_len msg) (pm_buf msg)"
        using b1 \<open>p1 = Some n'\<close> by (simp add: min_def)
      ultimately show ?thesis using b1 b2 v' r few Some \<open>p1 = Some n'\<close>
        by (auto simp: built_def read_fields_def)
    qed
  qed
qed

text \<open>
  C11: \<open>add_header\<close> appends the header when a field and the bytes for both strings are left, and
  otherwise reports the error and leaves the headers of the message as they were; it never writes
  outside the buffer.
\<close>

theorem add_header_refines:
  assumes "built msg hs" "NUL \<notin> set n" "NUL \<notin> set v"
  shows "\<exists>r msg'. add_header msg n v = (r, msg') \<and>
    (if length (pm_fields msg) < MAX_FIELDS \<and> pm_len msg + length n + length v + 2 \<le> length (pm_buf msg)
     then r = 0 \<and> built msg' (hs @ [(n, v)]) else r = -1 \<and> built msg' hs)"
  using add_header_built [OF assms] by (cases "add_header msg n v") fastforce

theorem add_header_refines_witness:
  "built (snd (add_header (new_pmsg 512) ''CSeq'' ''7'')) [(''CSeq'', ''7'')]"
  using add_header_refines [of "new_pmsg 512" "[]" "''CSeq''" "''7''"]
  by (auto simp: built_def new_pmsg_def MAX_FIELDS_def NUL_def)

end
