(* ===== verification/Conn.thy ===== *)
theory Conn
  imports Fifo Pmsg
begin

text \<open>
  The connection of tcp.c and its circular send buffer: queueing data, writing it to the socket,
  and sending a response message. The descriptor events of a connection exist as long as the
  connection does; what changes is whether the write event is enabled and whether there is a second
  read event, and these are fields of the record.
\<close>

subsection \<open>Connections\<close>

definition SEND_BUF :: nat where "SEND_BUF = 65536"
definition REQ_BUF :: nat where "REQ_BUF = 4096"
definition COOKIE :: nat where "COOKIE = 128"
definition MAX_INTERLEAVE_CHANNELS :: nat where "MAX_INTERLEAVE_CHANNELS = 8"

datatype conn_proto = CONN_PROTO_START | CONN_PROTO_RTSP | CONN_PROTO_HTTP | CONN_PROTO_SIP

text \<open>
  \<open>proto_state\<close>: the interleaved channels of an RTSP connection (endpoint and \<open>rtcp\<close> flag), or the
  HTTP location whose stream the connection follows.
\<close>

datatype proto_state = No_state | Rtsp_conn "(nat option \<times> bool) list" | Http_session nat

record conn =
  c_fd :: int
  c_second_fd :: int
  c_client_addr :: string
  c_second_read_event :: bool
  c_write_enabled :: bool
  c_proto :: conn_proto
  c_tunnel_cookie :: string
  c_base64_count :: int
  c_req_buf :: "byte list"
  c_req_len :: nat
  c_send_buf :: "nat \<Rightarrow> byte"
  c_send_r :: nat
  c_send_w :: nat
  c_drop_after :: bool
  c_proto_state :: proto_state

text \<open>The connection \<open>do_accept\<close> creates; \<open>garbage\<close> is what \<open>malloc\<close> left in the buffers.\<close>

definition new_conn :: "int \<Rightarrow> string \<Rightarrow> byte list \<Rightarrow> (nat \<Rightarrow> byte) \<Rightarrow> conn" where
  "new_conn fd addr req_garbage send_garbage =
     \<lparr>c_fd = fd, c_second_fd = -1, c_client_addr = addr, c_second_read_event = False,
      c_write_enabled = False, c_proto = CONN_PROTO_START, c_tunnel_cookie = [],
      c_base64_count = -1, c_req_buf = req_garbage, c_req_len = 0, c_send_buf = send_garbage,
      c_send_r = 0, c_send_w = 0, c_drop_after = False, c_proto_state = No_state\<rparr>"

subsection \<open>The send buffer\<close>

definition avail_send_buf :: "conn \<Rightarrow> nat" where
  "avail_send_buf c =
     (if c_send_w c < c_send_r c then c_send_r c - c_send_w c - 1
      else SEND_BUF - c_send_w c + c_send_r c - 1)"

definition put_byte :: "byte \<Rightarrow> conn \<Rightarrow> conn" where
  "put_byte b c =
     (let w = c_send_w c + 1 in
      c\<lparr>c_send_buf := (c_send_buf c)(c_send_w c := b), c_send_w := if w = SEND_BUF then 0 else w\<rparr>)"

definition send_data :: "conn \<Rightarrow> byte list \<Rightarrow> int \<times> conn" where
  "send_data c d =
     (if avail_send_buf c < length d then (1, c)
      else (0, (fold put_byte d c)\<lparr>c_write_enabled := True\<rparr>))"

text \<open>The longest piece that one \<open>write\<close> can take, and the effect of a \<open>write\<close> of \<open>n\<close> bytes of it.\<close>

definition write_len :: "conn \<Rightarrow> nat" where
  "write_len c =
     (if c_send_w c < c_send_r c then SEND_BUF - c_send_r c else c_send_w c - c_send_r c)"

definition wrote :: "nat \<Rightarrow> conn \<Rightarrow> byte list \<times> conn" where
  "wrote n c =
     (let r = c_send_r c + n in
      (map (\<lambda>k. c_send_buf c (c_send_r c + k)) [0..<n],
       c\<lparr>c_send_r := if r = SEND_BUF then 0 else r\<rparr>))"

text \<open>
  The loop shared by \<open>conn_write\<close> and \<open>tcp_conn_flush\<close> over the results of the calls of \<open>write\<close>; a
  \<open>write\<close> takes at most the bytes it is given. It ends with an empty buffer, with an error, or is
  still spinning on \<open>EAGAIN\<close> when the given results are used up.
\<close>

datatype flush_end = Flushed | Write_error | Spinning

fun flush :: "sys_ret list \<Rightarrow> conn \<Rightarrow> byte list \<times> flush_end \<times> conn" where
  "flush rets c =
     (if c_send_r c = c_send_w c then ([], Flushed, c)
      else case rets of
        [] \<Rightarrow> ([], Spinning, c)
      | ret # rets' \<Rightarrow>
          (case ret of
             Eagain \<Rightarrow> flush rets' c
           | Fail \<Rightarrow> ([], Write_error, c)
           | Ret n \<Rightarrow>
               if n = 0 then ([], Write_error, c)
               else
                 let (out, c1) = wrote (min n (write_len c)) c;
                     (outs, e, c2) = flush rets' c1
                 in (out @ outs, e, c2)))"

declare flush.simps [simp del]

text \<open>\<open>conn_write\<close>: the last component tells whether the connection is to be dropped.\<close>

definition conn_write :: "sys_ret list \<Rightarrow> conn \<Rightarrow> byte list \<times> conn \<times> bool" where
  "conn_write rets c =
     (case flush rets c of
        (out, Write_error, c') \<Rightarrow> (out, c', True)
      | (out, Spinning, c') \<Rightarrow> (out, c', False)
      | (out, Flushed, c') \<Rightarrow>
          if c_drop_after c' then (out, c', True) else (out, c'\<lparr>c_write_enabled := False\<rparr>, False))"

definition tcp_conn_flush :: "sys_ret list \<Rightarrow> conn \<Rightarrow> byte list \<times> conn" where
  "tcp_conn_flush rets c = (case flush rets c of (out, _, c') \<Rightarrow> (out, c'))"

subsection \<open>Interleaved data\<close>

text \<open>\<open>interleave_send\<close>; \<open>rets\<close> are the results of \<open>write\<close> if the buffer has to be flushed first.\<close>

definition interleave_head :: "nat \<Rightarrow> nat \<Rightarrow> byte list" where
  "interleave_head chan len = 36 # word_of_nat chan # PUT_16 (word_of_nat len :: u32)"

definition interleave_send ::
  "sys_ret list \<Rightarrow> conn \<Rightarrow> nat \<Rightarrow> byte list list \<Rightarrow> int \<times> byte list \<times> conn" where
  "interleave_send rets c chan v =
     (let len = sum_list (map length v);
          (out, c1) = (if avail_send_buf c < len + 4 then tcp_conn_flush rets c else ([], c))
      in
      if avail_send_buf c1 < len + 4 then (1, out, c1)
      else (0, out, fold (\<lambda>d c. snd (send_data c d)) v (snd (send_data c1 (interleave_head chan len)))))"

subsection \<open>Sending a response\<close>







subsection \<open>The send buffer is a queue of bytes\<close>

definition conn_inv :: "conn \<Rightarrow> bool" where
  "conn_inv c \<longleftrightarrow> c_send_r c < SEND_BUF \<and> c_send_w c < SEND_BUF"

definition pending :: "conn \<Rightarrow> byte list" where
  "pending c =
     ring_slice (c_send_buf c) SEND_BUF (c_send_r c) (ring_dist SEND_BUF (c_send_r c) (c_send_w c))"

definition send_capacity :: "conn \<Rightarrow> nat" where
  "send_capacity c = SEND_BUF - 1"

lemma SEND_BUF_pos [simp]: "0 < SEND_BUF" "SEND_BUF \<noteq> 0"
  by (simp_all add: SEND_BUF_def)

lemma length_pending: "length (pending c) = ring_dist SEND_BUF (c_send_r c) (c_send_w c)"
  by (simp add: pending_def)

lemma avail_pending: "conn_inv c \<Longrightarrow> avail_send_buf c + length (pending c) = SEND_BUF - 1"
  by (auto simp: avail_send_buf_def length_pending ring_dist_def conn_inv_def)

lemma pending_less: "conn_inv c \<Longrightarrow> length (pending c) < SEND_BUF"
  unfolding length_pending by (rule ring_dist_less) (simp_all add: conn_inv_def)

lemma put_byte_pending:
  assumes inv: "conn_inv c" and room: "0 < avail_send_buf c"
  shows "conn_inv (put_byte b c) \<and> pending (put_byte b c) = pending c @ [b]"
proof -
  let ?r = "c_send_r c"
  define n where "n = ring_dist SEND_BUF ?r (c_send_w c)"
  have n: "Suc n < SEND_BUF" using avail_pending [OF inv] room by (simp add: length_pending n_def)
  have w: "(?r + n) mod SEND_BUF = c_send_w c"
    unfolding n_def using inv by (simp add: ring_dist_end conn_inv_def)
  have "Suc (c_send_w c) mod SEND_BUF = c_send_w (put_byte b c)"
    using inv by (simp add: put_byte_def conn_inv_def Let_def)
  then have w': "c_send_w (put_byte b c) = (?r + Suc n) mod SEND_BUF" unfolding ring_step w by simp
  have "ring_dist SEND_BUF ?r (c_send_w (put_byte b c)) = Suc n"
    unfolding w' using inv n by (intro ring_dist_unique) (simp_all add: conn_inv_def)
  then have "pending (put_byte b c) = ring_slice ((c_send_buf c)((?r + n) mod SEND_BUF := b)) SEND_BUF ?r (Suc n)"
    unfolding w by (simp add: pending_def put_byte_def Let_def)
  also have "\<dots> = pending c @ [b]"
    using n by (simp add: ring_slice_snoc ring_slice_update pending_def n_def)
  finally show ?thesis using inv w' by (simp add: conn_inv_def) (simp add: put_byte_def Let_def)
qed

lemma put_bytes_pending:
  "conn_inv c \<Longrightarrow> length d \<le> avail_send_buf c \<Longrightarrow>
     conn_inv (fold put_byte d c) \<and> pending (fold put_byte d c) = pending c @ d"
proof (induction d arbitrary: c)
  case (Cons b d)
  have 1: "conn_inv (put_byte b c)" "pending (put_byte b c) = pending c @ [b]"
    using put_byte_pending [of c b] Cons.prems by auto
  have "length d \<le> avail_send_buf (put_byte b c)"
    using avail_pending [OF 1(1)] avail_pending [OF Cons.prems(1)] 1(2) Cons.prems(2) by simp
  with Cons.IH [OF 1(1)] 1 show ?case by simp
qed simp

lemma send_fields [simp]:
  "pending (c\<lparr>c_write_enabled := b\<rparr>) = pending c" "conn_inv (c\<lparr>c_write_enabled := b\<rparr>) = conn_inv c"
  "avail_send_buf (c\<lparr>c_write_enabled := b\<rparr>) = avail_send_buf c"
  by (simp_all add: pending_def conn_inv_def avail_send_buf_def)

lemma send_data_pending:
  assumes "conn_inv c"
  shows "case send_data c d of (r, c') \<Rightarrow> conn_inv c' \<and>
    (if length d \<le> avail_send_buf c then r = 0 \<and> pending c' = pending c @ d else r = 1 \<and> c' = c)"
  using put_bytes_pending [OF assms, of d] assms by (simp add: send_data_def)

lemma wrote_pending:
  assumes inv: "conn_inv c" and n: "n \<le> write_len c" and res: "wrote n c = (out, c')"
  shows "conn_inv c' \<and> pending c = out @ pending c' \<and> length out = n"
proof -
  let ?r = "c_send_r c" and ?w = "c_send_w c" and ?N = SEND_BUF
  let ?d = "ring_dist ?N ?r ?w"
  have rw: "?r < ?N" "?w < ?N" using inv by (simp_all add: conn_inv_def)
  have le: "?r + n \<le> ?N" "n \<le> ?d" using n rw by (auto simp: write_len_def ring_dist_def split: if_splits)
  have out: "out = ring_slice (c_send_buf c) ?N ?r n" using res le(1)
    by (auto simp: wrote_def Let_def ring_slice_def)
  have c': "c_send_r c' = (?r + n) mod ?N" "c_send_w c' = ?w" "c_send_buf c' = c_send_buf c"
    using res le(1) by (auto simp: wrote_def Let_def)
  have "?w = ((?r + n) mod ?N + (?d - n)) mod ?N"
  proof -
    have "((?r + n) mod ?N + (?d - n)) mod ?N = (?r + n + (?d - n)) mod ?N" by (rule mod_add_left_eq)
    also have "?r + n + (?d - n) = ?r + ?d" using le(2) by simp
    finally show ?thesis using ring_dist_end [OF rw] by simp
  qed
  then have "ring_dist ?N ((?r + n) mod ?N) ?w = ?d - n"
    using ring_dist_unique [of "(?r + n) mod ?N" ?N "?d - n"] ring_dist_less [OF rw] by simp
  then have "pending c' = ring_slice (c_send_buf c) ?N ((?r + n) mod ?N) (?d - n)"
    by (simp add: pending_def c')
  moreover have "pending c = ring_slice (c_send_buf c) ?N ?r (n + (?d - n))"
    using le(2) by (simp add: pending_def)
  ultimately show ?thesis using rw out c' by (simp add: ring_slice_append conn_inv_def)
qed

definition send_byte :: "byte \<Rightarrow> conn \<Rightarrow> conn option" where
  "send_byte b c = (case send_data c [b] of (r, c') \<Rightarrow> if r = 0 then Some c' else None)"

definition write_byte :: "conn \<Rightarrow> (byte \<times> conn) option" where
  "write_byte c =
     (if c_send_r c = c_send_w c then None
      else case wrote (min 1 (write_len c)) c of (out, c') \<Rightarrow> Some (hd out, c'))"

lemma pending_empty: "conn_inv c \<Longrightarrow> pending c = [] \<longleftrightarrow> c_send_r c = c_send_w c"
  by (simp add: pending_def conn_inv_def ring_dist_eq_0)

lemma write_len_pos: "conn_inv c \<Longrightarrow> c_send_r c \<noteq> c_send_w c \<Longrightarrow> 0 < write_len c"
  by (auto simp: write_len_def conn_inv_def)

interpretation send_queue: bounded_fifo send_byte write_byte pending send_capacity conn_inv
proof
  fix c c' b
  show "conn_inv c \<Longrightarrow> send_byte b c = None \<longleftrightarrow> length (pending c) = send_capacity c"
    using send_data_pending [of c "[b]"] avail_pending [of c]
    by (auto simp: send_byte_def send_capacity_def split: prod.splits if_splits)
  show "conn_inv c \<Longrightarrow> send_byte b c = Some c' \<Longrightarrow>
      pending c' = pending c @ [b] \<and> send_capacity c' = send_capacity c \<and> conn_inv c'"
    using send_data_pending [of c "[b]"]
    by (auto simp: send_byte_def send_capacity_def split: prod.splits if_splits)
  show "conn_inv c \<Longrightarrow> write_byte c = None \<longleftrightarrow> pending c = []"
    by (auto simp: write_byte_def pending_empty split: prod.splits)
  show "conn_inv c \<Longrightarrow> write_byte c = Some (b, c') \<Longrightarrow>
      pending c = b # pending c' \<and> send_capacity c' = send_capacity c \<and> conn_inv c'"
    using wrote_pending [of c "min 1 (write_len c)"] write_len_pos [of c]
    by (fastforce simp: write_byte_def send_capacity_def length_Suc_conv split: prod.splits if_splits)
  show "conn_inv c \<Longrightarrow> length (pending c) \<le> send_capacity c"
    using pending_less [of c] by (simp add: send_capacity_def)
qed

lemma flush_pending:
  assumes "conn_inv c" "flush rets c = (out, e, c')"
  shows "conn_inv c' \<and> pending c = out @ pending c' \<and> (e = Flushed \<longrightarrow> pending c' = [])"
  using assms
proof (induction rets arbitrary: c out)
  case Nil
  then show ?case by (auto simp: flush.simps [of "[]"] pending_empty split: if_splits)
next
  case (Cons ret rets)
  consider "c_send_r c = c_send_w c" "out = []" "c' = c" | "ret = Eagain" "flush rets c = (out, e, c')"
    | "e = Write_error" "out = []" "c' = c"
    | n outs o1 c1 where "c_send_r c \<noteq> c_send_w c" "wrote (min n (write_len c)) c = (o1, c1)" "flush rets c1 = (outs, e, c')" "out = o1 @ outs"
    using Cons.prems(2)
    by (auto simp: flush.simps [of "ret # rets"] Let_def split: if_splits sys_ret.splits prod.splits)
  then show ?case
  proof cases
    case 1
    with Cons.prems(1) show ?thesis by (simp add: pending_empty)
  next
    case 2
    with Cons show ?thesis by blast
  next
    case 3
    with Cons.prems(1) show ?thesis by simp
  next
    case (4 n outs o1 c1)
    from wrote_pending [OF Cons.prems(1) _ 4(2)] have "conn_inv c1" "pending c = o1 @ pending c1" by simp_all
    with Cons.IH [OF _ 4(3)] 4(4) show ?thesis by simp
  qed
qed

text \<open>What the program does with a connection's send buffer over time.\<close>

datatype conn_op = Send "byte list" | Write "sys_ret list" | Interleave "sys_ret list" nat "byte list list"

fun conn_run :: "conn_op list \<Rightarrow> conn \<Rightarrow> byte list \<times> byte list \<times> conn" where
  "conn_run [] c = ([], [], c)"
| "conn_run (Send d # ops) c =
     (let (r, c1) = send_data c d; (acc, outs, c2) = conn_run ops c1
      in ((if r = 0 then d else []) @ acc, outs, c2))"
| "conn_run (Write rets # ops) c =
     (let (out, c1, drop) = conn_write rets c; (acc, outs, c2) = conn_run ops c1
      in (acc, out @ outs, c2))"
| "conn_run (Interleave rets chan v # ops) c =
     (let (r, out, c1) = interleave_send rets c chan v; (acc, outs, c2) = conn_run ops c1
      in ((if r = 0 then interleave_head chan (sum_list (map length v)) @ concat v else []) @ acc,
          out @ outs, c2))"

lemma sends_pending:
  "conn_inv c \<Longrightarrow> length (concat v) \<le> avail_send_buf c \<Longrightarrow>
     conn_inv (fold (\<lambda>d c. snd (send_data c d)) v c) \<and>
     pending (fold (\<lambda>d c. snd (send_data c d)) v c) = pending c @ concat v"
proof (induction v arbitrary: c)
  case (Cons d v)
  let ?c = "snd (send_data c d)"
  have 1: "conn_inv ?c" "pending ?c = pending c @ d"
    using send_data_pending [OF Cons.prems(1), of d] Cons.prems(2) by (auto split: prod.splits)
  have "length (concat v) \<le> avail_send_buf ?c"
    using avail_pending [OF 1(1)] avail_pending [OF Cons.prems(1)] 1(2) Cons.prems(2) by simp
  with Cons.IH [OF 1(1)] 1 show ?case by simp
qed simp

lemma conn_write_pending:
  assumes "conn_inv c" "conn_write rets c = (out, c', dr)"
  shows "conn_inv c' \<and> pending c = out @ pending c'"
  using flush_pending [OF assms(1)] assms(2)
  by (cases "flush rets c" rule: prod_cases3)
    (auto simp: conn_write_def split: flush_end.splits if_splits)

lemma tcp_conn_flush_pending:
  assumes "conn_inv c" "tcp_conn_flush rets c = (out, c')"
  shows "conn_inv c' \<and> pending c = out @ pending c'"
  using flush_pending [OF assms(1)] assms(2)
  by (cases "flush rets c" rule: prod_cases3) (auto simp: tcp_conn_flush_def)

lemma length_concat_sum: "length (concat v) = sum_list (map length v)"
  by (simp add: length_concat)

lemma length_interleave_head [simp]: "length (interleave_head chan n) = 4"
  by (simp add: interleave_head_def)

lemma interleave_send_pending:
  assumes "conn_inv c" "interleave_send rets c chan v = (r, out, c')"
  shows "conn_inv c' \<and> (r = 0 \<or> r = 1) \<and>
    pending c @ (if r = 0 then interleave_head chan (length (concat v)) @ concat v else []) = out @ pending c'"
proof -
  let ?len = "sum_list (map length v)"
  obtain o1 c1 where f: "(if avail_send_buf c < ?len + 4 then tcp_conn_flush rets c else ([], c)) = (o1, c1)"
    by (rule prod.exhaust)
  have 1: "conn_inv c1" "pending c = o1 @ pending c1"
    using tcp_conn_flush_pending [OF assms(1)] f assms(1) by (auto split: if_splits)
  show ?thesis
  proof (cases "avail_send_buf c1 < ?len + 4")
    case True
    with assms(2) f 1 show ?thesis by (simp add: interleave_send_def)
  next
    case False
    let ?v = "interleave_head chan ?len # v"
    have "conn_inv (fold (\<lambda>d c. snd (send_data c d)) ?v c1) \<and>
        pending (fold (\<lambda>d c. snd (send_data c d)) ?v c1) = pending c1 @ concat ?v"
      using False by (intro sends_pending [OF 1(1)]) (simp add: length_concat_sum)
    with assms(2) f 1 False show ?thesis by (auto simp: interleave_send_def length_concat_sum)
  qed
qed

text \<open>
  C16: over any sequence of queued messages, interleaved packets and writes of any size, errors and
  retries included, the bytes on the socket are exactly the accepted bytes in order, the rest still
  being in the buffer; a message or packet is accepted as a whole or not at all.
\<close>

theorem tcp_stream_order:
  assumes "conn_inv c" "conn_run ops c = (acc, outs, c')"
  shows "pending c @ acc = outs @ pending c' \<and> conn_inv c'"
  using assms
proof (induction ops arbitrary: c acc outs c')
  case (Cons op ops)
  show ?case
  proof (cases op)
    case (Send d)
    obtain r c1 where 1: "send_data c d = (r, c1)" by (rule prod.exhaust)
    obtain a o2 c2 where 2: "conn_run ops c1 = (a, o2, c2)" by (rule prod_cases3)
    from send_data_pending [OF Cons.prems(1), of d] 1
    have "conn_inv c1" "pending c1 = pending c @ (if r = 0 then d else [])" by (auto split: if_splits)
    with Cons.IH [OF _ 2] Cons.prems(2) 1 2 Send show ?thesis by auto
  next
    case (Write rets)
    obtain out c1 drp where 1: "conn_write rets c = (out, c1, drp)" by (rule prod_cases3)
    obtain a o2 c2 where 2: "conn_run ops c1 = (a, o2, c2)" by (rule prod_cases3)
    from conn_write_pending [OF Cons.prems(1) 1] Cons.IH [OF _ 2] Cons.prems(2) 1 2 Write
    show ?thesis by auto
  next
    case (Interleave rets chan v)
    obtain r out c1 where 1: "interleave_send rets c chan v = (r, out, c1)" by (rule prod_cases3)
    obtain a o2 c2 where 2: "conn_run ops c1 = (a, o2, c2)" by (rule prod_cases3)
    from interleave_send_pending [OF Cons.prems(1) 1]
    have i: "conn_inv c1" "pending c @ (if r = 0 then interleave_head chan (length (concat v)) @ concat v else [])
        = out @ pending c1" by auto
    from Cons.IH [OF i(1) 2] have "pending c1 @ a = o2 @ pending c2" "conn_inv c2" by auto
    with i(2) Cons.prems(2) 1 2 Interleave show ?thesis
      by (auto simp: length_concat_sum) (metis append.assoc)+
  qed
qed simp

theorem tcp_stream_order_witness:
  "(case conn_run [Send [1, 2, 3], Write [Eagain, Ret 2, Fail], Send [4]] (new_conn 5 [] [] (\<lambda>_. 0)) of
      (acc, outs, c') \<Rightarrow> acc = [1, 2, 3, 4] \<and> outs = [1, 2] \<and> acc = outs @ pending c')"
  using tcp_stream_order [of "new_conn 5 [] [] (\<lambda>_. 0)" "[Send [1, 2, 3], Write [Eagain, Ret 2, Fail], Send [4]]"]
  by (simp add: conn_inv_def new_conn_def send_data_def avail_send_buf_def put_byte_def
      SEND_BUF_def conn_write_def flush.simps wrote_def write_len_def pending_def ring_dist_def)

subsection \<open>Responses on the wire\<close>


text \<open>
  A response under construction: its status line and headers, stored one behind the other.
\<close>

definition headers_size :: "(string \<times> string) list \<Rightarrow> nat" where
  "headers_size hs = sum_list (map (\<lambda>(n, v). length n + length v + 2) hs)"

definition reply_ok :: "pmsg \<Rightarrow> string \<Rightarrow> int \<Rightarrow> string \<Rightarrow> (string \<times> string) list \<Rightarrow> bool" where
  "reply_ok msg proto code reason hs \<longleftrightarrow>
     built msg hs \<and> pm_type msg = PMSG_RESP \<and>
     (\<exists>q r. pm_proto_id msg = Some q \<and> pm_sl msg = Stat code (Some r) \<and>
        cstr_at (take (pm_len msg) (pm_buf msg)) q = Some proto \<and>
        cstr_at (take (pm_len msg) (pm_buf msg)) r = Some reason) \<and>
     length proto + length reason + 2 + headers_size hs \<le> pm_len msg"







lemma reply_built:
  assumes "reply_ok msg proto code reason hs" "built msg' hs'"
    "pm_sl msg' = pm_sl msg" "pm_type msg' = pm_type msg" "pm_proto_id msg' = pm_proto_id msg"
    "take (pm_len msg) (pm_buf msg') = take (pm_len msg) (pm_buf msg)" "pm_len msg \<le> pm_len msg'"
    "headers_size hs' + pm_len msg \<le> headers_size hs + pm_len msg'"
  shows "reply_ok msg' proto code reason hs'"
proof -
  have "take (pm_len msg) (take (pm_len msg') (pm_buf msg')) = take (pm_len msg) (pm_buf msg)"
    using assms(6,7) by (simp add: min_def)
  then have *: "cstr_at (take (pm_len msg) (pm_buf msg)) q = Some s \<Longrightarrow>
      cstr_at (take (pm_len msg') (pm_buf msg')) q = Some s" for q s by (metis cstr_at_take)
  from assms * show ?thesis unfolding reply_ok_def by fastforce
qed

lemma add_header_reply:
  assumes "reply_ok msg proto code reason hs" "NUL \<notin> set n" "NUL \<notin> set v" "add_header msg n v = (r, msg')"
  shows "reply_ok msg' proto code reason (if r = 0 then hs @ [(n, v)] else hs) \<and>
    length (pm_buf msg') = length (pm_buf msg)"
proof -
  have "built msg hs" using assms(1) by (simp add: reply_ok_def)
  note b = add_header_built [OF this assms(2-4)]
  then have "reply_ok msg' proto code reason (if r = 0 then hs @ [(n, v)] else hs)"
    by (intro reply_built [OF assms(1)]) (auto simp: headers_size_def)
  with b show ?thesis by blast
qed



end
