(* ===== verification/Rtp.thy ===== *)
theory Rtp
  imports Prelude
begin

text \<open>
  RTP endpoints (rtp.c) as far as one endpoint is concerned: the endpoint record, the packet header,
  the counters, the sender report, and the choice of the port range. Sending over a connection and
  tearing down involve the whole server and are composed in the server theories. The locale
  \<open>packetizer\<close> is the contract between a media format and the transport: from a packetizer that
  keeps it, a receiver recovers the frame from the datagrams in whatever order they arrive.
\<close>

subsection \<open>Endpoints\<close>

datatype trans =
    No_trans
  | Trans_udp string int int int
  | Trans_inter nat nat nat

text \<open>
  \<open>Trans_udp sdp_addr sdp_port rtp_fd rtcp_fd\<close> and \<open>Trans_inter conn rtp_chan rtcp_chan\<close>. Sessions
  and connections are referred to by their numbers.
\<close>

record endpoint =
  ep_session :: nat
  ep_payload :: int
  ep_max_data_size :: int
  ep_ssrc :: u32
  ep_start_timestamp :: u32
  ep_last_timestamp :: u32
  ep_seqnum :: int
  ep_packet_count :: int
  ep_octet_count :: int
  ep_rtcp_enabled :: bool
  ep_force_rtcp :: bool
  ep_last_rtcp_recv :: "int \<times> int"
  ep_last_rtcp_send :: "int \<times> int"
  ep_trans :: trans

text \<open>
  \<open>new_rtp_endpoint\<close>: the bytes of \<open>ssrc\<close>, \<open>start_timestamp\<close> and \<open>seqnum\<close> come from \<open>random_bytes\<close>,
  stored in the order of a little-endian machine.
\<close>

definition le_bytes :: "byte list \<Rightarrow> u32" where
  "le_bytes bs = fold (\<lambda>b v. push_bit 8 v OR ucast b) (rev bs) 0"

definition new_rtp_endpoint ::
  "nat \<Rightarrow> int \<Rightarrow> byte list \<Rightarrow> byte list \<Rightarrow> byte list \<Rightarrow> int \<times> int \<Rightarrow> int \<times> int \<Rightarrow> endpoint" where
  "new_rtp_endpoint sess payload ssrc start seqnum t1 t2 =
     \<lparr>ep_session = sess, ep_payload = payload, ep_max_data_size = 8192, ep_ssrc = le_bytes ssrc,
      ep_start_timestamp = le_bytes start, ep_last_timestamp = le_bytes start,
      ep_seqnum = uint (le_bytes seqnum), ep_packet_count = 0, ep_octet_count = 0,
      ep_rtcp_enabled = False, ep_force_rtcp = True, ep_last_rtcp_recv = t1,
      ep_last_rtcp_send = t2, ep_trans = No_trans\<rparr>"

definition update_rtp_timestamp :: "endpoint \<Rightarrow> int \<Rightarrow> endpoint" where
  "update_rtp_timestamp ep time_increment =
     ep\<lparr>ep_last_timestamp := ep_last_timestamp ep + word_of_int time_increment\<rparr>"

definition connect_interleaved_endpoint :: "endpoint \<Rightarrow> nat \<Rightarrow> nat \<Rightarrow> nat \<Rightarrow> endpoint" where
  "connect_interleaved_endpoint ep conn rtp_chan rtcp_chan = ep\<lparr>ep_trans := Trans_inter conn rtp_chan rtcp_chan\<rparr>"

subsection \<open>Packets\<close>

text \<open>
  A call of \<open>send_rtp_packet\<close>: the pieces behind the RTP header, the timestamp and the marker.
\<close>

type_synonym rtp_call = "byte list list \<times> u32 \<times> bool"

definition stamp :: "u32 \<Rightarrow> endpoint \<Rightarrow> endpoint" where
  "stamp timestamp ep = ep\<lparr>ep_last_timestamp := ep_start_timestamp ep + timestamp\<rparr>"

definition rtp_header :: "endpoint \<Rightarrow> bool \<Rightarrow> byte list" where
  "rtp_header ep marker =
     [0x80, (word_of_int (ep_payload ep)) OR (if marker then 0x80 else 0)] @
     PUT_16 (word_of_int (ep_seqnum ep) :: u32) @
     PUT_32 (ep_last_timestamp ep) @ PUT_32 (ep_ssrc ep)"

definition counted :: "byte list list \<Rightarrow> endpoint \<Rightarrow> endpoint" where
  "counted v ep =
     ep\<lparr>ep_octet_count := s32 (ep_octet_count ep + int (length (concat v))),
        ep_packet_count := s32 (ep_packet_count ep + 1),
        ep_seqnum := (ep_seqnum ep + 1) mod 65536\<rparr>"

text \<open>One packet that the transport takes, and a sequence of them.\<close>

definition rtp_packet :: "rtp_call \<Rightarrow> endpoint \<Rightarrow> byte list \<times> endpoint" where
  "rtp_packet call ep =
     (case call of (v, timestamp, marker) \<Rightarrow>
        let ep1 = stamp timestamp ep;
            v' = rtp_header ep1 marker # v
        in (concat v', counted v' ep1))"

fun rtp_packets :: "rtp_call list \<Rightarrow> endpoint \<Rightarrow> byte list list \<times> endpoint" where
  "rtp_packets [] ep = ([], ep)"
| "rtp_packets (call # calls) ep =
     (let (d, ep1) = rtp_packet call ep; (ds, ep2) = rtp_packets calls ep1 in (d # ds, ep2))"

subsection \<open>Sender reports\<close>

definition ntp_sec :: "int \<times> int \<Rightarrow> u32" where
  "ntp_sec now = word_of_int (fst now) + 0x83AA7E80"

text \<open>
  \<open>(double)tv_usec * 0x4000000 / 15625.0\<close>, truncated: the product has at most 46 bits and is exact,
  and the rounding of the quotient cannot reach the next integer, which is at least 1/15625 away.
\<close>

definition ntp_usec :: "int \<times> int \<Rightarrow> u32" where
  "ntp_usec now = word_of_int (snd now * 0x4000000 div 15625)"

definition sender_report :: "endpoint \<Rightarrow> int \<times> int \<Rightarrow> byte list" where
  "sender_report ep now =
     [0x80, 200] @ PUT_16 (6 :: u32) @ PUT_32 (ep_ssrc ep) @ PUT_32 (ntp_sec now) @
     PUT_32 (ntp_usec now) @ PUT_32 (ep_last_timestamp ep) @
     PUT_32 (word_of_int (ep_packet_count ep) :: u32) @ PUT_32 (word_of_int (ep_octet_count ep) :: u32) @
     [0x81, 202] @ PUT_16 (5 :: u32) @ PUT_32 (ep_ssrc ep) @ [1, 14] @ bytes_of ''Unnamed stream''"

subsection \<open>The fields of a datagram\<close>

definition rtp_seq :: "byte list \<Rightarrow> nat" where
  "rtp_seq d = unat (GET_16 (d ! 2) (d ! 3))"

definition rtp_time :: "byte list \<Rightarrow> u32" where
  "rtp_time d = GET_32 (d ! 4) (d ! 5) (d ! 6) (d ! 7)"

definition rtp_ssrc :: "byte list \<Rightarrow> u32" where
  "rtp_ssrc d = GET_32 (d ! 8) (d ! 9) (d ! 10) (d ! 11)"

definition rtp_marker :: "byte list \<Rightarrow> bool" where
  "rtp_marker d \<longleftrightarrow> bit (d ! 1) 7"

definition rtp_body :: "byte list \<Rightarrow> byte list" where
  "rtp_body d = drop 12 d"

subsection \<open>Numbering of the datagrams\<close>

definition seq_ok :: "endpoint \<Rightarrow> bool" where
  "seq_ok ep \<longleftrightarrow> 0 \<le> ep_seqnum ep \<and> ep_seqnum ep < 65536"

lemma length_rtp_header [simp]: "length (rtp_header ep marker) = 12"
  by (simp add: rtp_header_def)

lemma rtp_packet_fields:
  assumes "seq_ok ep" "rtp_packet (v, timestamp, marker) ep = (d, ep')"
  shows "int (rtp_seq d) = ep_seqnum ep" "rtp_time d = ep_start_timestamp ep + timestamp"
    "rtp_ssrc d = ep_ssrc ep" "rtp_body d = concat v"
    "seq_ok ep'" "ep_seqnum ep' = (ep_seqnum ep + 1) mod 65536"
    "ep_start_timestamp ep' = ep_start_timestamp ep" "ep_ssrc ep' = ep_ssrc ep"
proof -
  let ?s = "word_of_int (ep_seqnum ep) :: u32"
  let ?t = "ep_start_timestamp ep + timestamp"
  have d: "d = [0x80, word_of_int (ep_payload ep) OR (if marker then 0x80 else 0)] @
      PUT_16 ?s @ PUT_32 ?t @ PUT_32 (ep_ssrc ep) @ concat v"
    using assms(2) by (auto simp: rtp_packet_def stamp_def rtp_header_def Let_def)
  have "unat ?s mod 65536 = nat (ep_seqnum ep)"
    using assms(1) by (simp add: seq_ok_def unsigned_of_int take_bit_int_eq_self nat_less_iff)
  with GET_PUT_16 [of ?s] assms(1) show "int (rtp_seq d) = ep_seqnum ep"
    by (simp add: rtp_seq_def d nth_append seq_ok_def)
  show "rtp_time d = ?t" using GET_PUT_32 [of ?t] by (simp add: rtp_time_def d nth_append)
  show "rtp_ssrc d = ep_ssrc ep" using GET_PUT_32 [of "ep_ssrc ep"] by (simp add: rtp_ssrc_def d nth_append)
  show "rtp_body d = concat v" by (simp add: rtp_body_def d)
  show "seq_ok ep'" "ep_seqnum ep' = (ep_seqnum ep + 1) mod 65536"
    "ep_start_timestamp ep' = ep_start_timestamp ep" "ep_ssrc ep' = ep_ssrc ep"
    using assms(2) by (auto simp: rtp_packet_def stamp_def counted_def seq_ok_def Let_def)
qed

lemma rtp_packets_nth:
  "seq_ok ep \<Longrightarrow> rtp_packets calls ep = (ds, ep') \<Longrightarrow> length ds = length calls \<and>
     (\<forall>k < length calls. int (rtp_seq (ds ! k)) = (ep_seqnum ep + int k) mod 65536 \<and>
        rtp_time (ds ! k) = ep_start_timestamp ep + fst (snd (calls ! k)) \<and>
        rtp_ssrc (ds ! k) = ep_ssrc ep \<and>
        rtp_body (ds ! k) = concat (fst (calls ! k)))"
proof (induction calls arbitrary: ep ds ep')
  case (Cons call calls)
  obtain v timestamp marker where call: "call = (v, timestamp, marker)" by (rule prod_cases3)
  obtain d ep1 where 1: "rtp_packet call ep = (d, ep1)" by (rule prod.exhaust)
  obtain ds1 ep2 where 2: "rtp_packets calls ep1 = (ds1, ep2)" by (rule prod.exhaust)
  note p = rtp_packet_fields [OF Cons.prems(1) 1 [unfolded call]]
  have ds: "ds = d # ds1" using Cons.prems(2) 1 2 by simp
  note IH = Cons.IH [OF p(5) 2]
  have first: "int (rtp_seq d) = (ep_seqnum ep + int 0) mod 65536"
    using p(1) Cons.prems(1) by (simp add: seq_ok_def)
  have "int (rtp_seq (ds1 ! k)) = (ep_seqnum ep + int (Suc k)) mod 65536" if "k < length calls" for k
  proof -
    have "int (rtp_seq (ds1 ! k)) = ((ep_seqnum ep + 1) mod 65536 + int k) mod 65536" using IH that p(6) by simp
    also have "\<dots> = (ep_seqnum ep + 1 + int k) mod 65536" by (rule mod_add_left_eq)
    finally show ?thesis by (simp add: add.assoc)
  qed
  with first IH p(2,3,4,7,8) show ?case
    unfolding ds call by (simp add: All_less_Suc2 del: of_nat_Suc)
qed simp

subsection \<open>Packetizers\<close>

text \<open>
  A receiver that knows the first sequence number of a frame and the number of its packets: it looks
  each of them up among the datagrams it got, in whatever order and however often they arrived.
\<close>

definition receive :: "byte list list \<Rightarrow> int \<Rightarrow> nat \<Rightarrow> byte list list" where
  "receive ds start n =
     map (\<lambda>k. case find (\<lambda>d. int (rtp_seq d) = (start + int k) mod 65536) ds of
                None \<Rightarrow> [] | Some d \<Rightarrow> rtp_body d) [0..<n]"

lemma receive_packets:
  assumes "seq_ok ep" "rtp_packets calls ep = (ds, ep')" "length calls \<le> 65536" "set ds' = set ds"
  shows "receive ds' (ep_seqnum ep) (length calls) = map (concat \<circ> fst) calls"
proof (rule nth_equalityI)
  fix k assume "k < length (receive ds' (ep_seqnum ep) (length calls))"
  then have k: "k < length calls" by (simp add: receive_def)
  note nth = rtp_packets_nth [OF assms(1,2)]
  let ?P = "\<lambda>d. int (rtp_seq d) = (ep_seqnum ep + int k) mod 65536"
  have uniq: "j = k" if "j < length calls" "?P (ds ! j)" for j
  proof -
    have "(ep_seqnum ep + int j) mod 65536 = (ep_seqnum ep + int k) mod 65536" using that nth by simp
    then have "(65536 :: int) dvd int j - int k" by (simp add: mod_eq_dvd_iff)
    moreover have "\<bar>int j - int k\<bar> < 65536" using that(1) k assms(3) by auto
    ultimately have "int j - int k = 0" by (metis zdvd_not_zless zero_less_abs_iff abs_ge_zero dvd_abs_iff)
    then show ?thesis by simp
  qed
  have "ds ! k \<in> set ds'" "?P (ds ! k)" using nth k assms(4) by auto
  then obtain d where d: "find ?P ds' = Some d" using find_None_iff [of ?P ds'] by (cases "find ?P ds'") auto
  then have "d \<in> set ds" "?P d" using assms(4) by (auto simp: find_Some_iff)
  with uniq nth have "d = ds ! k" by (metis in_set_conv_nth)
  with d nth k show "receive ds' (ep_seqnum ep) (length calls) ! k = map (concat \<circ> fst) calls ! k"
    by (simp add: receive_def)
qed (simp add: receive_def)

locale packetizer =
  fixes packets :: "'m \<Rightarrow> int \<Rightarrow> rtp_call list option"
    and body :: "byte list \<Rightarrow> byte list"
    and frame_data :: "'m \<Rightarrow> byte list"
    and fits :: "'m \<Rightarrow> int \<Rightarrow> bool"
    and overhead :: nat
  assumes packets_total: "fits m mtu \<Longrightarrow> packets m mtu \<noteq> None"
    and packets_data: "fits m mtu \<Longrightarrow> packets m mtu = Some calls \<Longrightarrow>
      concat (map (body \<circ> concat \<circ> fst) calls) = frame_data m"
    and packets_size: "fits m mtu \<Longrightarrow> packets m mtu = Some calls \<Longrightarrow> call \<in> set calls \<Longrightarrow>
      int (length (concat (fst call))) \<le> mtu + int overhead"
begin

text \<open>The frame is recovered from its datagrams, and no datagram is larger than the transport size allows.\<close>

lemma frame_recovered:
  assumes "fits m mtu" "packets m mtu = Some calls" "length calls \<le> 65536"
    and "seq_ok ep" "rtp_packets calls ep = (ds, ep')" "set ds' = set ds"
  shows "concat (map body (receive ds' (ep_seqnum ep) (length calls))) = frame_data m \<and>
    (\<forall>d \<in> set ds'. int (length (rtp_body d)) \<le> mtu + int overhead)"
proof
  show "concat (map body (receive ds' (ep_seqnum ep) (length calls))) = frame_data m"
    using packets_data [OF assms(1,2)] by (simp add: receive_packets [OF assms(4,5,3,6)] comp_assoc)
next
  show "\<forall>d \<in> set ds'. int (length (rtp_body d)) \<le> mtu + int overhead"
  proof
    fix d assume "d \<in> set ds'"
    with assms(6) obtain k where k: "k < length ds" "d = ds ! k" by (metis in_set_conv_nth)
    with rtp_packets_nth [OF assms(4,5)] have "rtp_body d = concat (fst (calls ! k))" "calls ! k \<in> set calls" by auto
    with packets_size [OF assms(1,2)] show "int (length (rtp_body d)) \<le> mtu + int overhead" by simp
  qed
qed

end

end
