(* ===== verification/Media.thy ===== *)
theory Media
  imports Rtp Frame
begin

text \<open>
  What the media formats share: the frames they are handed, the fragmentation loop, and the state of
  \<open>rtp_media\<close>. A media format turns a frame into the calls of \<open>send_rtp_packet\<close> that its \<open>send\<close>
  function makes; the calls do not depend on the results of earlier ones, except that the first
  failure ends the sequence, which the composition with the transport does.
\<close>

text \<open>The members of \<open>struct frame\<close> the media formats read; the data has \<open>length\<close> bytes.\<close>

record media_frame =
  mf_d :: "byte list"
  mf_key :: int
  mf_timestamp :: u32

definition FORMAT_MPEG4 :: int where "FORMAT_MPEG4 = 100"
definition FORMAT_MPV :: int where "FORMAT_MPV = 102"
definition FORMAT_H263 :: int where "FORMAT_H263 = 103"
definition FORMAT_MPA :: int where "FORMAT_MPA = 200"
definition FORMAT_ADPCM :: int where "FORMAT_ADPCM = 202"
definition FORMAT_AAC :: int where "FORMAT_AAC = 204"
definition FORMAT_G726 :: int where "FORMAT_G726 = 205"

lemmas formats = FORMAT_PCM_def FORMAT_MPEG4_def FORMAT_JPEG_def FORMAT_MPV_def FORMAT_H263_def
  FORMAT_H264_def FORMAT_MPA_def FORMAT_ALAW_def FORMAT_ADPCM_def FORMAT_ULAW_def FORMAT_AAC_def
  FORMAT_G726_def

text \<open>\<open>utils_get_ms_time\<close> from a reading \<open>(tv_sec, tv_nsec)\<close> of the monotonic clock.\<close>

definition utils_get_ms_time :: "int \<times> int \<Rightarrow> u64" where
  "utils_get_ms_time t = word_of_int (fst t) * 1000 + word_of_int (snd t) div 1000000"

definition slice :: "'a list \<Rightarrow> nat \<Rightarrow> nat \<Rightarrow> 'a list" where
  "slice d i n = take n (drop i d)"

text \<open>
  The loop \<open>for (i = 0; i < len; i += plen) { plen = len - i; if (plen > bound) plen = lim; ... }\<close>:
  the offsets and lengths of the fragments. \<^term>\<open>None\<close> when a fragment is not positive, so that the
  loop does not advance.
\<close>

function pieces :: "int \<Rightarrow> int \<Rightarrow> int \<Rightarrow> int \<Rightarrow> (nat \<times> nat) list option" where
  "pieces len bound lim i =
     (if i < len then
        let plen = (if bound < len - i then lim else len - i) in
        if plen \<le> 0 then None
        else map_option ((#) (nat i, nat plen)) (pieces len bound lim (i + plen))
      else Some [])"
  by pat_completeness auto

termination
  by (relation "measure (\<lambda>(len, bound, lim, i). nat (len - i))") auto

declare pieces.simps [simp del]

lemma pieces_total: "0 < lim \<Longrightarrow> lim \<le> bound \<Longrightarrow> pieces len bound lim i \<noteq> None"
proof (induction len bound lim i rule: pieces.induct)
  case (1 len bound lim i)
  then show ?case by (subst pieces.simps) (auto simp: Let_def)
qed

lemma slice_step: "i \<le> length d \<Longrightarrow> slice d i n @ drop (n + i) d = drop i d"
  by (metis add.commute append_take_drop_id drop_drop slice_def)

text \<open>The fragments of data of length \<open>len\<close> are consecutive, positive, within the limit, and cover the data.\<close>

lemma pieces_data:
  assumes "pieces (int (length d)) bound lim i = Some ps" "0 \<le> i" "i \<le> int (length d)"
  shows "concat (map (\<lambda>(i, n). slice d i n) ps) = drop (nat i) d"
  using assms
proof (induction "int (length d)" bound lim i arbitrary: ps rule: pieces.induct)
  case (1 bound lim i)
  let ?p = "if bound < int (length d) - i then lim else int (length d) - i"
  show ?case
  proof (cases "i < int (length d)")
    case True
    with 1(2) obtain qs where p: "0 < ?p" "pieces (int (length d)) bound lim (i + ?p) = Some qs"
      "ps = (nat i, nat ?p) # qs"
      by (subst (asm) pieces.simps) (auto simp: Let_def split: if_splits)
    show ?thesis
    proof (cases "i + ?p \<le> int (length d)")
      case le: True
      have "concat (map (\<lambda>(i, n). slice d i n) qs) = drop (nat (i + ?p)) d"
        using 1(1) [OF True refl _ p(2)] p(1) le 1(3) by simp
      moreover have "nat (i + ?p) = nat ?p + nat i" using p(1) 1(3) by (simp add: nat_add_distrib)
      ultimately show ?thesis using p(3) True 1(3) by (simp add: slice_step nat_le_iff)
    next
      case gt: False
      then have "pieces (int (length d)) bound lim (i + ?p) = Some []" by (subst pieces.simps) simp
      with p(2,3) gt show ?thesis by (simp add: slice_def)
    qed
  next
    case False
    with 1(2) have "ps = []" by (subst (asm) pieces.simps) simp
    with False 1(3) show ?thesis by simp
  qed
qed

lemma pieces_bound:
  assumes "pieces len bound lim i = Some ps" "lim \<le> bound" "(j, n) \<in> set ps" "0 \<le> i"
  shows "0 < n \<and> int n \<le> bound \<and> int j + int n \<le> len"
  using assms
proof (induction len bound lim i arbitrary: ps rule: pieces.induct)
  case (1 len bound lim i)
  let ?p = "if bound < len - i then lim else len - i"
  from 1(2,4) have lt: "i < len" by (subst (asm) pieces.simps) (auto split: if_splits)
  with 1(2) obtain qs where p: "0 < ?p" "pieces len bound lim (i + ?p) = Some qs" "ps = (nat i, nat ?p) # qs"
    by (subst (asm) pieces.simps) (auto simp: Let_def split: if_splits)
  show ?case
  proof (cases "(j, n) \<in> set qs")
    case True
    then show ?thesis using 1(1) [OF lt refl _ p(2) 1(3) True] p(1) 1(5) by auto
  next
    case False
    with p(3) 1(4) have "j = nat i" "n = nat ?p" by auto
    then show ?thesis using p(1) 1(3,5) lt by (auto split: if_splits)
  qed
qed

text \<open>All fragments but the last have the full length, so the offsets are its multiples.\<close>

lemma pieces_offset:
  assumes "pieces len bound lim i = Some ps" "0 \<le> i" "k < length ps"
  shows "int (fst (ps ! k)) = i + int k * lim \<and>
    (int (fst (ps ! k) + snd (ps ! k)) = len \<longleftrightarrow> Suc k = length ps) \<or> bound < lim"
  using assms
proof (induction len bound lim i arbitrary: ps k rule: pieces.induct)
  case (1 len bound lim i)
  let ?p = "if bound < len - i then lim else len - i"
  from 1(2,4) have lt: "i < len" by (subst (asm) pieces.simps) (auto split: if_splits)
  with 1(2) obtain qs where p: "0 < ?p" "pieces len bound lim (i + ?p) = Some qs" "ps = (nat i, nat ?p) # qs"
    by (subst (asm) pieces.simps) (auto simp: Let_def split: if_splits)
  have qs: "qs = [] \<longleftrightarrow> len \<le> i + ?p"
    using p(2) by (subst (asm) pieces.simps) (auto simp: Let_def split: if_splits)
  show ?case
  proof (cases k)
    case 0
    then show ?thesis using p qs 1(3) by (auto simp: nat_add_distrib split: if_splits)
  next
    case (Suc j)
    with p(3) 1(4) have j: "j < length qs" by simp
    then have "bound < len - i" using qs by (auto split: if_splits)
    then show ?thesis using 1(1) [OF lt refl _ p(2) _ j] p 1(3) Suc by (auto simp: algebra_simps)
  qed
qed

text \<open>Formats whose packets are the fragments behind a header of constant length.\<close>

lemma frag_data:
  assumes "map_option (map g) (pieces (int (length d)) bound lim 0) = Some calls"
    and "\<And>i n. b (g (i, n)) = slice d i n"
  shows "concat (map b calls) = d"
proof -
  from assms(1) obtain ps where ps: "pieces (int (length d)) bound lim 0 = Some ps" "calls = map g ps" by auto
  have "map b calls = map (\<lambda>(i, n). slice d i n) ps" by (auto simp: ps(2) assms(2))
  with pieces_data [OF ps(1)] show ?thesis by simp
qed

lemma frag_size:
  assumes "map_option (map g) (pieces len bound lim 0) = Some calls" "lim \<le> bound" "call \<in> set calls"
    and "\<And>i n. length (concat (fst (g (i, n)))) \<le> n + h"
  shows "int (length (concat (fst call))) \<le> bound + int h"
proof -
  from assms(1,3) obtain ps i n where ps: "pieces len bound lim 0 = Some ps" "(i, n) \<in> set ps" "call = g (i, n)" by auto
  from pieces_bound [OF ps(1) assms(2) ps(2)] assms(4) [of i n] show ?thesis by (simp add: ps(3))
qed

lemma length_slice_le [simp]: "length (slice d i n) \<le> n"
  by (simp add: slice_def)

lemma pieces_before:
  assumes "pieces (int (length d)) bound lim i = Some ps" "lim \<le> bound" "0 \<le> i" "k < length ps"
  shows "length (concat (map (\<lambda>p. slice d (fst p) (snd p)) (take k ps))) + nat i = fst (ps ! k)"
  using assms
proof (induction "int (length d)" bound lim i arbitrary: ps k rule: pieces.induct)
  case (1 bound lim i)
  let ?p = "if bound < int (length d) - i then lim else int (length d) - i"
  from 1(2,5) have lt: "i < int (length d)" by (subst (asm) pieces.simps) (auto split: if_splits)
  with 1(2) obtain qs where p: "0 < ?p" "pieces (int (length d)) bound lim (i + ?p) = Some qs"
    "ps = (nat i, nat ?p) # qs"
    by (subst (asm) pieces.simps) (auto simp: Let_def split: if_splits)
  show ?case
  proof (cases k)
    case (Suc j)
    have "length (concat (map (\<lambda>p. slice d (fst p) (snd p)) (take j qs))) + nat (i + ?p) = fst (qs ! j)"
      using 1(1) [OF lt refl _ p(2) 1(3)] p(1,3) 1(4,5) Suc by simp
    moreover have "length (slice d (nat i) (nat ?p)) = nat ?p"
      using 1(3,4) lt by (auto simp: slice_def)
    ultimately show ?thesis using p(1,3) Suc 1(4) by (simp add: nat_add_distrib)
  qed (use p(3) in simp)
qed

lemma pieces_ge:
  assumes "pieces len bound lim i = Some ps" "(j, n) \<in> set ps" "0 \<le> i"
  shows "i \<le> int j"
  using assms
proof (induction len bound lim i arbitrary: ps rule: pieces.induct)
  case (1 len bound lim i)
  from 1(2,3) have lt: "i < len" by (subst (asm) pieces.simps) (auto split: if_splits)
  then show ?case
    using 1 by (subst (asm) (2) pieces.simps) (fastforce simp: Let_def split: if_splits)
qed

lemma pieces_first:
  assumes "pieces len bound lim 0 = Some ps" "0 < len"
  obtains n qs where "ps = (0, n) # qs" "\<And>j m. (j, m) \<in> set qs \<Longrightarrow> 0 < j"
proof -
  let ?p = "if bound < len then lim else len"
  from assms obtain qs where p: "0 < ?p" "pieces len bound lim ?p = Some qs" "ps = (0, nat ?p) # qs"
    by (subst (asm) pieces.simps) (auto simp: Let_def split: if_splits)
  with pieces_ge [OF p(2)] show ?thesis by (intro that [of "nat ?p" qs]) fastforce+
qed


end
