(* ===== verification/RtpAudio.thy ===== *)
theory RtpAudio
  imports Media
begin

text \<open>
  The audio formats: raw samples (rtp-rawaudio.c), AAC (rtp-aac.c), G.726 (rtp-g726.c), DVI4
  (rtp-adpcm.c) and MPEG audio (rtp-mpa.c). Each has its state, its \<open>process_frame\<close>, its SDP
  text and payload type, and the packets its \<open>send\<close> produces; all of them are packetizers.
\<close>

subsection \<open>Raw audio\<close>

record rtp_rawaudio =
  ra_data :: "byte list"
  ra_format :: int
  ra_sampsize :: int
  ra_channels :: int
  ra_rate :: int
  ra_timestamp :: u32

text \<open>\<open>get_framerate\<close> of the stream yields the number of channels and the rate over all of them.\<close>

definition new_rtp_media_rawaudio :: "int \<Rightarrow> int \<Rightarrow> int \<Rightarrow> rtp_rawaudio option" where
  "new_rtp_media_rawaudio format channels rate =
     (if channels = 0 then None
      else Some \<lparr>ra_data = [], ra_format = format, ra_sampsize = (if format = FORMAT_PCM then 2 else 1),
                 ra_channels = channels, ra_rate = rate sdiv channels, ra_timestamp = 0\<rparr>)"

definition audio_line :: "int \<Rightarrow> int \<Rightarrow> string" where
  "audio_line port payload = ''m=audio '' @ show_int port @ '' RTP/AVP '' @ show_int payload @ CRLF"

definition rtpmap_line :: "int \<Rightarrow> string \<Rightarrow> int \<Rightarrow> int \<Rightarrow> string" where
  "rtpmap_line payload name rate channels =
     ''a=rtpmap:'' @ show_int payload @ SP # name @ ''/'' @ show_int rate @ ''/'' @ show_int channels @ CRLF"

text \<open>The result \<open>-1\<close> of \<open>get_sdp\<close> is \<^term>\<open>None\<close>; the text is what \<open>snprintf\<close> prints.\<close>

definition rawaudio_get_sdp :: "rtp_rawaudio \<Rightarrow> int \<Rightarrow> int \<Rightarrow> string option" where
  "rawaudio_get_sdp out payload port =
     (let dynamic = (\<lambda>name. audio_line port payload @ rtpmap_line payload name (ra_rate out) (ra_channels out)) in
      if ra_format out = FORMAT_PCM then
        Some (if ra_rate out = 44100 \<and> ra_channels out = 2 then audio_line port 10
              else if ra_rate out = 44100 \<and> ra_channels out = 1 then audio_line port 11
              else dynamic ''L16'')
      else if ra_format out = FORMAT_ALAW then
        Some (if ra_rate out = 8000 \<and> ra_channels out = 1 then audio_line port 8 else dynamic ''PCMA'')
      else if ra_format out = FORMAT_ULAW then
        Some (if ra_rate out = 8000 \<and> ra_channels out = 1 then audio_line port 0 else dynamic ''PCMU'')
      else None)"

definition rawaudio_get_payload :: "rtp_rawaudio \<Rightarrow> int \<Rightarrow> int" where
  "rawaudio_get_payload out payload =
     (if ra_format out = FORMAT_PCM then
        if ra_rate out = 44100 \<and> ra_channels out = 2 then 10
        else if ra_rate out = 44100 \<and> ra_channels out = 1 then 11
        else payload
      else if ra_format out = FORMAT_ALAW then
        if ra_rate out = 8000 \<and> ra_channels out = 1 then 8 else payload
      else if ra_format out = FORMAT_ULAW then
        if ra_rate out = 8000 \<and> ra_channels out = 1 then 0 else payload
      else -1)"

definition rawaudio_process_frame :: "media_frame \<Rightarrow> rtp_rawaudio \<Rightarrow> rtp_rawaudio" where
  "rawaudio_process_frame f out = out\<lparr>ra_timestamp := mf_timestamp f, ra_data := mf_d f\<rparr>"

definition rawaudio_packets :: "rtp_rawaudio \<Rightarrow> int \<Rightarrow> rtp_call list option" where
  "rawaudio_packets out mtu =
     map_option
       (map (\<lambda>(i, n). ([slice (ra_data out) i n],
          ra_timestamp out + word_of_int (int i sdiv ra_channels out sdiv ra_sampsize out), False)))
       (pieces (int (length (ra_data out))) mtu (mtu - mtu smod (ra_channels out * ra_sampsize out)) 0)"

subsection \<open>AAC\<close>

record rtp_aac =
  aac_data :: "byte list"
  aac_channels :: int
  aac_rate :: int
  aac_timestamp :: u32
  aac_last_frame :: u64

definition new_rtp_media_aac :: "int \<Rightarrow> int \<Rightarrow> rtp_aac option" where
  "new_rtp_media_aac channels rate =
     (if channels = 0 then None
      else Some \<lparr>aac_data = [], aac_channels = channels, aac_rate = rate sdiv channels,
                 aac_timestamp = 0, aac_last_frame = 0\<rparr>)"

definition aac_rates :: "int list" where
  "aac_rates = [96000, 88200, 64000, 48000, 44100, 32000, 24000, 22050, 16000, 12000, 11025, 8000]"

text \<open>\<open>GetAACSRI\<close>: the index of the sample rate, \<^term>\<open>None\<close> for \<open>-1\<close>.\<close>

definition GetAACSRI :: "int \<Rightarrow> nat option" where
  "GetAACSRI sr = (let i = length (takeWhile (\<lambda>r. r \<noteq> sr) aac_rates) in
     if i < length aac_rates then Some i else None)"

text \<open>The two bytes of the audio specific configuration for a sample rate index.\<close>

definition aac_config :: "nat \<Rightarrow> int \<Rightarrow> byte \<times> byte" where
  "aac_config sri channels =
     (let s = word_of_nat sri :: u32; c = word_of_int channels :: u32 in
      (0x10 OR ucast (drop_bit 1 (s AND 0xF)),
       ucast (push_bit 7 (s AND 0xF)) OR ucast (push_bit 3 (c AND 0xF))))"

text \<open>For a rate that is not in the table the index, and with it the text, is undefined.\<close>

definition aac_get_sdp :: "rtp_aac \<Rightarrow> int \<Rightarrow> int \<Rightarrow> string option" where
  "aac_get_sdp out payload port = do {
     sri \<leftarrow> GetAACSRI (aac_rate out);
     let (c0, c1) = aac_config sri (aac_channels out);
     Some (audio_line port payload @
       rtpmap_line payload ''MPEG4-GENERIC'' (aac_rate out) (aac_channels out) @
       ''a=fmtp:'' @ show_int payload @ '' profile-level-id=1;mode=AAC-hbr;sizelength=13;indexlength=3;'' @
       ''indexdeltalength=3;config='' @ show_hex2 hex_lower (unat c0) @ show_hex2 hex_lower (unat c1) @ CRLF)
   }"

definition aac_process_frame :: "media_frame \<Rightarrow> rtp_aac \<Rightarrow> rtp_aac" where
  "aac_process_frame f out =
     (let frames = ucast (mf_timestamp f) div 1024;
          frames = (if frames \<le> aac_last_frame out then aac_last_frame out + 1 else frames)
      in out\<lparr>aac_timestamp := ucast (frames * 1024), aac_last_frame := frames, aac_data := mf_d f\<rparr>)"

definition aac_header :: "nat \<Rightarrow> byte list" where
  "aac_header len =
     [0, 16, word_of_int (int len div 32), word_of_int ((int len mod 32) * 8)]"

definition aac_packets :: "rtp_aac \<Rightarrow> int \<Rightarrow> rtp_call list option" where
  "aac_packets out mtu =
     map_option
       (map (\<lambda>(i, n). ([aac_header (length (aac_data out)), slice (aac_data out) i n],
          aac_timestamp out, i + n = length (aac_data out))))
       (pieces (int (length (aac_data out))) mtu mtu 0)"

subsection \<open>G.726\<close>

record rtp_g726 =
  g726_data :: "byte list"
  g726_channels :: int
  g726_rate :: int
  g726_timestamp :: u32
  g726_last_frame :: u64
  g726_samples_per_block :: u32
  g726_bitrate_kbps :: u32
  g726_bits_per_sample :: u32

text \<open>
  The encoder's configuration (samples per frame and bit rate) comes from another process;
  \<^term>\<open>None\<close> when it could not be imported.
\<close>

definition g726_bits :: "u32 \<Rightarrow> u32 option" where
  "g726_bits kbps =
     (if kbps = 16 then Some 2 else if kbps = 24 then Some 3
      else if kbps = 32 then Some 4 else if kbps = 40 then Some 5 else None)"

definition g726_get_sdp :: "(u16 \<times> u32) option \<Rightarrow> rtp_g726 \<Rightarrow> int \<Rightarrow> int \<Rightarrow> string option \<times> rtp_g726" where
  "g726_get_sdp config out payload port =
     (case config of
        None \<Rightarrow> (None, out)
      | Some (samples, kbps) \<Rightarrow>
          let out1 = out\<lparr>g726_samples_per_block := ucast samples\<rparr>;
              out2 = (case g726_bits kbps of
                        None \<Rightarrow> out1
                      | Some b \<Rightarrow> out1\<lparr>g726_bitrate_kbps := kbps, g726_bits_per_sample := b\<rparr>)
          in (Some (audio_line port payload @
                rtpmap_line payload (''G726-'' @ show_int (sint (g726_bitrate_kbps out2)))
                  (g726_rate out2) (g726_channels out2)),
              out2))"

definition g726_process_frame :: "media_frame \<Rightarrow> rtp_g726 \<Rightarrow> rtp_g726" where
  "g726_process_frame f out =
     (let samples = ucast (ucast (g726_samples_per_block out) :: u16) :: u64 in
      if samples = 0 then out
      else
        let frames = ucast (mf_timestamp f) div samples;
            frames = (if frames \<le> g726_last_frame out then g726_last_frame out + 1 else frames)
        in out\<lparr>g726_timestamp := ucast (frames * samples), g726_last_frame := frames, g726_data := mf_d f\<rparr>)"

definition g726_packets :: "rtp_g726 \<Rightarrow> int \<Rightarrow> rtp_call list option" where
  "g726_packets out mtu =
     (if g726_bitrate_kbps out = 0 \<or> g726_bits_per_sample out = 0 then None
      else
        let size = uint (word_of_int mtu div g726_bitrate_kbps out * g726_bitrate_kbps out) in
        map_option
          (map (\<lambda>(i, n). ([slice (g726_data out) i n],
             g726_timestamp out + word_of_int (s32 (int i * 8)) div g726_bits_per_sample out, False)))
          (pieces (int (length (g726_data out))) size size 0))"

subsection \<open>DVI4\<close>

record rtp_adpcm =
  adpcm_data :: "byte list"
  adpcm_channels :: int
  adpcm_rate :: int
  adpcm_timestamp :: u32
  adpcm_last_frame :: u64

definition adpcm_static :: "rtp_adpcm \<Rightarrow> int option" where
  "adpcm_static out =
     (if adpcm_channels out \<noteq> 1 then None
      else if adpcm_rate out = 8000 then Some 5
      else if adpcm_rate out = 16000 then Some 6
      else if adpcm_rate out = 11025 then Some 16
      else if adpcm_rate out = 22050 then Some 17
      else None)"

definition adpcm_get_sdp :: "rtp_adpcm \<Rightarrow> int \<Rightarrow> int \<Rightarrow> string option" where
  "adpcm_get_sdp out payload port =
     map_option (\<lambda>pt. audio_line port pt @ rtpmap_line payload ''DVI4'' (adpcm_rate out) 1) (adpcm_static out)"

definition adpcm_get_payload :: "rtp_adpcm \<Rightarrow> int \<Rightarrow> int" where
  "adpcm_get_payload out payload = (case adpcm_static out of Some pt \<Rightarrow> pt | None \<Rightarrow> payload)"

text \<open>\<open>now\<close> is the result of \<open>utils_get_ms_time\<close>; a block without samples divides by zero.\<close>

definition adpcm_process_frame :: "u64 \<Rightarrow> media_frame \<Rightarrow> rtp_adpcm \<Rightarrow> rtp_adpcm option" where
  "adpcm_process_frame now f out =
     (if adpcm_channels out = 0 then None
      else
        let n = word_of_int (int (length (mf_d f)) div 4 sdiv adpcm_channels out - 1) :: u16;
            samples = word_of_int (s32 (uint n * 8 * adpcm_channels out)) :: u16
        in
        if samples = 0 then None
        else
          let frames = now * word_of_int (adpcm_rate out sdiv 1000) div ucast samples;
              frames = (if frames \<le> adpcm_last_frame out then adpcm_last_frame out + 1 else frames)
          in Some (out\<lparr>adpcm_timestamp := ucast (frames * ucast samples), adpcm_last_frame := frames,
                       adpcm_data := mf_d f\<rparr>))"

definition adpcm_packets :: "rtp_adpcm \<Rightarrow> int \<Rightarrow> rtp_call list option" where
  "adpcm_packets out mtu =
     map_option (map (\<lambda>(i, n). ([slice (adpcm_data out) i n], adpcm_timestamp out, False)))
       (pieces (int (length (adpcm_data out))) mtu mtu 0)"

subsection \<open>MPEG audio\<close>

record rtp_mpa =
  mpa_data :: "byte list"
  mpa_ts_incr :: int
  mpa_timestamp :: u32

definition samrate_tab :: "int list" where "samrate_tab = [44100, 48000, 32000]"

text \<open>A null frame empties the output; the reserved sampling rate 3 is outside the table.\<close>

definition mpa_process_frame :: "media_frame option \<Rightarrow> rtp_mpa \<Rightarrow> rtp_mpa option" where
  "mpa_process_frame f out =
     (case f of
        None \<Rightarrow> Some (out\<lparr>mpa_ts_incr := 0, mpa_data := []\<rparr>)
      | Some f \<Rightarrow> do {
          b \<leftarrow> rd (mf_d f) 2;
          rate \<leftarrow> rd samrate_tab (unat (drop_bit 2 b AND 3));
          Some (out\<lparr>mpa_timestamp := mf_timestamp f, mpa_ts_incr := 90000 * 1152 div rate, mpa_data := mf_d f\<rparr>)
        })"

definition mpa_packets :: "rtp_mpa \<Rightarrow> int \<Rightarrow> rtp_call list option" where
  "mpa_packets out mtu =
     map_option
       (map (\<lambda>(i, n). ([PUT_16 (0 :: u32) @ PUT_16 (word_of_nat i :: u32), slice (mpa_data out) i n],
          mpa_timestamp out, i + n = length (mpa_data out))))
       (pieces (int (length (mpa_data out))) mtu mtu 0)"

definition mpa_get_sdp :: "int \<Rightarrow> string" where
  "mpa_get_sdp port = audio_line port 14"

definition mpa_get_payload :: "int \<Rightarrow> int" where
  "mpa_get_payload payload = 14"

subsection \<open>The audio formats are packetizers\<close>

definition rawaudio_ok :: "rtp_rawaudio \<Rightarrow> int \<Rightarrow> bool" where
  "rawaudio_ok out mtu \<longleftrightarrow> 0 < ra_channels out \<and> 0 < ra_sampsize out \<and> ra_channels out * ra_sampsize out \<le> mtu"

lemma rawaudio_limit:
  assumes "rawaudio_ok out mtu"
  shows "0 < mtu - mtu smod (ra_channels out * ra_sampsize out)" "mtu - mtu smod (ra_channels out * ra_sampsize out) \<le> mtu"
    "(ra_channels out * ra_sampsize out) dvd (mtu - mtu smod (ra_channels out * ra_sampsize out))"
proof -
  let ?u = "ra_channels out * ra_sampsize out"
  have u: "0 < ?u" "?u \<le> mtu" using assms by (simp_all add: rawaudio_ok_def)
  then have eq: "mtu smod ?u = mtu mod ?u" by (simp add: signed_modulo_int_def)
  show "0 < mtu - mtu smod ?u" using u pos_mod_bound [OF u(1), of mtu] unfolding eq by linarith
  show "mtu - mtu smod ?u \<le> mtu" using u unfolding eq by simp
  show "?u dvd mtu - mtu smod ?u" unfolding eq by (rule dvd_minus_mod)
qed

interpretation rawaudio: packetizer rawaudio_packets "\<lambda>d. d" ra_data rawaudio_ok 0
proof
  fix m mtu assume ok: "rawaudio_ok m mtu"
  show "rawaudio_packets m mtu \<noteq> None"
    using pieces_total rawaudio_limit [OF ok] by (simp add: rawaudio_packets_def)
  fix calls assume calls: "rawaudio_packets m mtu = Some calls"
  show "concat (map ((\<lambda>d. d) \<circ> concat \<circ> fst) calls) = ra_data m"
    by (rule frag_data [OF calls [unfolded rawaudio_packets_def]]) simp
  fix call assume "call \<in> set calls"
  then show "int (length (concat (fst call))) \<le> mtu + int 0"
    by (rule frag_size [OF calls [unfolded rawaudio_packets_def] rawaudio_limit(2) [OF ok]]) simp
qed

interpretation aac: packetizer aac_packets "drop 4" aac_data "\<lambda>out mtu. 0 < mtu" 4
proof
  fix m :: rtp_aac and mtu :: int assume ok: "0 < mtu"
  show "aac_packets m mtu \<noteq> None" using pieces_total [OF ok] by (simp add: aac_packets_def)
  fix calls assume calls: "aac_packets m mtu = Some calls"
  show "concat (map (drop 4 \<circ> concat \<circ> fst) calls) = aac_data m"
    by (rule frag_data [OF calls [unfolded aac_packets_def]]) (simp add: aac_header_def)
  fix call assume "call \<in> set calls"
  then show "int (length (concat (fst call))) \<le> mtu + int 4"
    by (rule frag_size [OF calls [unfolded aac_packets_def] order_refl]) (simp_all add: aac_header_def)
qed

interpretation mpa: packetizer mpa_packets "drop 4" mpa_data "\<lambda>out mtu. 0 < mtu" 4
proof
  fix m :: rtp_mpa and mtu :: int assume ok: "0 < mtu"
  show "mpa_packets m mtu \<noteq> None" using pieces_total [OF ok] by (simp add: mpa_packets_def)
  fix calls assume calls: "mpa_packets m mtu = Some calls"
  show "concat (map (drop 4 \<circ> concat \<circ> fst) calls) = mpa_data m"
    by (rule frag_data [OF calls [unfolded mpa_packets_def]]) simp
  fix call assume "call \<in> set calls"
  then show "int (length (concat (fst call))) \<le> mtu + int 4"
    by (rule frag_size [OF calls [unfolded mpa_packets_def] order_refl]) simp_all
qed

interpretation adpcm: packetizer adpcm_packets "\<lambda>d. d" adpcm_data "\<lambda>out mtu. 0 < mtu" 0
proof
  fix m :: rtp_adpcm and mtu :: int assume ok: "0 < mtu"
  show "adpcm_packets m mtu \<noteq> None" using pieces_total [OF ok] by (simp add: adpcm_packets_def)
  fix calls assume calls: "adpcm_packets m mtu = Some calls"
  show "concat (map ((\<lambda>d. d) \<circ> concat \<circ> fst) calls) = adpcm_data m"
    by (rule frag_data [OF calls [unfolded adpcm_packets_def]]) simp
  fix call assume "call \<in> set calls"
  then show "int (length (concat (fst call))) \<le> mtu + int 0"
    by (rule frag_size [OF calls [unfolded adpcm_packets_def] order_refl]) simp_all
qed

definition g726_ok :: "rtp_g726 \<Rightarrow> int \<Rightarrow> bool" where
  "g726_ok out mtu \<longleftrightarrow> g726_bitrate_kbps out \<noteq> 0 \<and> g726_bits_per_sample out \<noteq> 0 \<and>
     uint (g726_bitrate_kbps out) \<le> mtu \<and> mtu < 2 ^ 31"

lemma g726_limit:
  assumes "g726_ok out mtu"
  shows "0 < uint (word_of_int mtu div g726_bitrate_kbps out * g726_bitrate_kbps out)"
    "uint (word_of_int mtu div g726_bitrate_kbps out * g726_bitrate_kbps out) \<le> mtu"
proof -
  let ?k = "g726_bitrate_kbps out"
  have k: "0 < uint ?k" "uint ?k \<le> mtu" "mtu < 2 ^ 31"
    using assms by (auto simp: g726_ok_def word_neq_0_conv word_less_def)
  then have m: "uint (word_of_int mtu :: u32) = mtu" by (simp add: unsigned_of_int take_bit_int_eq_self)
  have le: "mtu div uint ?k * uint ?k \<le> mtu" using k by (simp add: flip: minus_mod_eq_div_mult)
  then have eq: "uint (word_of_int mtu div ?k * ?k) = mtu div uint ?k * uint ?k"
    using k le by (simp add: uint_word_ariths uint_div m pos_imp_zdiv_nonneg_iff)
  show "0 < uint (word_of_int mtu div ?k * ?k)" "uint (word_of_int mtu div ?k * ?k) \<le> mtu"
    unfolding eq using k le by (simp_all add: pos_imp_zdiv_pos_iff)
qed

interpretation g726: packetizer g726_packets "\<lambda>d. d" g726_data g726_ok 0
proof
  fix m mtu assume ok: "g726_ok m mtu"
  show "g726_packets m mtu \<noteq> None"
    using pieces_total [OF g726_limit(1) [OF ok]] ok by (simp add: g726_packets_def g726_ok_def Let_def)
  fix calls assume "g726_packets m mtu = Some calls"
  with ok have calls: "map_option
          (map (\<lambda>(i, n). ([slice (g726_data m) i n],
             g726_timestamp m + word_of_int (s32 (int i * 8)) div g726_bits_per_sample m, False)))
          (pieces (int (length (g726_data m))) (uint (word_of_int mtu div g726_bitrate_kbps m * g726_bitrate_kbps m))
            (uint (word_of_int mtu div g726_bitrate_kbps m * g726_bitrate_kbps m)) 0) = Some calls"
    by (simp add: g726_packets_def g726_ok_def Let_def)
  show "concat (map ((\<lambda>d. d) \<circ> concat \<circ> fst) calls) = g726_data m"
    by (rule frag_data [OF calls]) simp
  fix call assume call: "call \<in> set calls"
  have "int (length (concat (fst call))) \<le> uint (word_of_int mtu div g726_bitrate_kbps m * g726_bitrate_kbps m) + int 0"
    by (rule frag_size [OF calls _ call]) simp_all
  with g726_limit(2) [OF ok] show "int (length (concat (fst call))) \<le> mtu + int 0" by simp
qed

text \<open>
  C20: a frame of raw samples is recovered from its datagrams in any order, no datagram carries more
  than the transport size, fragments end on sample boundaries, and the timestamp of each datagram
  counts the samples sent before it.
\<close>

theorem rawaudio_stream:
  assumes "rawaudio_ok out mtu" "seq_ok ep"
  shows "\<exists>calls. rawaudio_packets out mtu = Some calls \<and>
    (length calls \<le> 65536 \<longrightarrow> (\<forall>ds ep' ds'. rtp_packets calls ep = (ds, ep') \<longrightarrow> set ds' = set ds \<longrightarrow>
       concat (receive ds' (ep_seqnum ep) (length calls)) = ra_data out \<and>
       (\<forall>d \<in> set ds'. int (length (rtp_body d)) \<le> mtu))) \<and>
    (\<forall>k < length calls.
       let before = length (concat (map (concat \<circ> fst) (take k calls))) in
       int before mod (ra_channels out * ra_sampsize out) = 0 \<and>
       fst (snd (calls ! k)) = ra_timestamp out + word_of_int (int before div (ra_channels out * ra_sampsize out)))"
proof -
  let ?u = "ra_channels out * ra_sampsize out"
  let ?lim = "mtu - mtu smod ?u"
  note lim = rawaudio_limit [OF assms(1)]
  from rawaudio.packets_total [OF assms(1)] obtain calls where calls: "rawaudio_packets out mtu = Some calls" by auto
  then obtain ps where ps: "pieces (int (length (ra_data out))) mtu ?lim 0 = Some ps"
    "calls = map (\<lambda>(i, n). ([slice (ra_data out) i n],
          ra_timestamp out + word_of_int (int i sdiv ra_channels out sdiv ra_sampsize out), False)) ps"
    by (auto simp: rawaudio_packets_def)
  have time: "fst (snd (calls ! k)) = ra_timestamp out + word_of_int (int before div ?u) \<and> int before mod ?u = 0"
    if k: "k < length calls" and before: "before = length (concat (map (concat \<circ> fst) (take k calls)))" for k before
  proof -
    have k': "k < length ps" using k ps(2) by simp
    have "before = length (concat (map (\<lambda>p. slice (ra_data out) (fst p) (snd p)) (take k ps)))"
      unfolding before ps(2) by (simp add: take_map comp_def split_def)
    then have b: "before = fst (ps ! k)" using pieces_before [OF ps(1) lim(2) order_refl k'] by simp
    then have "int before = int k * ?lim" using pieces_offset [OF ps(1) order_refl k'] lim(2) by auto
    then have "?u dvd int before" using lim(3) by simp
    moreover have "int before sdiv ra_channels out sdiv ra_sampsize out = int before div ?u"
      using assms(1) by (simp add: rawaudio_ok_def sdiv_pos zdiv_zmult2_eq pos_imp_zdiv_nonneg_iff)
    ultimately show ?thesis using k' b by (simp add: ps(2) split_def mod_eq_0_iff_dvd)
  qed
  show ?thesis
  proof (intro exI conjI impI allI)
    show "rawaudio_packets out mtu = Some calls" by (rule calls)
  next
    fix ds ep' ds'
    assume "length calls \<le> 65536" "rtp_packets calls ep = (ds, ep')" "set ds' = set ds"
    from rawaudio.frame_recovered [OF assms(1) calls this(1) assms(2) this(2,3)]
    show "concat (receive ds' (ep_seqnum ep) (length calls)) = ra_data out"
      "\<forall>d \<in> set ds'. int (length (rtp_body d)) \<le> mtu" by simp_all
  next
    fix k assume "k < length calls"
    from time [OF this refl]
    show "let before = length (concat (map (concat \<circ> fst) (take k calls))) in
       int before mod ?u = 0 \<and> fst (snd (calls ! k)) = ra_timestamp out + word_of_int (int before div ?u)"
      by (simp add: Let_def)
  qed
qed

theorem rawaudio_stream_witness:
  "rawaudio_packets \<lparr>ra_data = [1, 2, 3, 4, 5, 6], ra_format = 64, ra_sampsize = 2, ra_channels = 1,
     ra_rate = 8000, ra_timestamp = 7\<rparr> 5 = Some [([[1, 2, 3, 4]], 7, False), ([[5, 6]], 9, False)] \<and>
   fst (snd (the (rawaudio_packets \<lparr>ra_data = [1, 2, 3, 4, 5, 6], ra_format = 64, ra_sampsize = 2, ra_channels = 1,
     ra_rate = 8000, ra_timestamp = 7\<rparr> 5) ! 1)) = 7 + word_of_int (4 div 2)"
proof -
  let ?out = "\<lparr>ra_data = [1, 2, 3, 4, 5, 6], ra_format = 64, ra_sampsize = 2, ra_channels = 1,
     ra_rate = 8000, ra_timestamp = 7\<rparr>"
  let ?ep = "new_rtp_endpoint 0 96 [] [] [] (0, 0) (0, 0)"
  have eval: "rawaudio_packets ?out 5 = Some [([[1, 2, 3, 4]], 7, False), ([[5, 6]], 9, False)]" by code_simp
  have "rawaudio_ok ?out 5" "seq_ok ?ep" by (simp_all add: rawaudio_ok_def seq_ok_def new_rtp_endpoint_def le_bytes_def)
  from rawaudio_stream [OF this] eval show ?thesis by (auto simp: Let_def)
qed

end
