(* ===== verification/Base64.thy ===== *)
theory Base64
  imports Prelude
begin

text \<open>
  The base64 decoder of tcp.c for RTSP tunnelled over HTTP: \<open>unbase64\<close> decodes the request buffer
  in place and keeps an incomplete group of characters for the next read. The loop on the buffer
  is shown to compute a function of the text alone, which composes over the pieces in which the
  text arrives and inverts the standard encoding.
\<close>

subsection \<open>The decoder\<close>

text \<open>The table of base64_table.h: the value of a character, \<open>-1\<close> for characters to skip.\<close>

definition base64 :: "int list" where
  "base64 =
     replicate 43 (-1) @ [62, -1, -1, -1, 63] @ map int [52..<62] @ [-1, -1, -1, 0, -1, -1, -1] @
     map int [0..<26] @ replicate 6 (-1) @ map int [26..<52] @ replicate 133 (-1)"

definition valid64 :: "byte \<Rightarrow> bool" where
  "valid64 c \<longleftrightarrow> 0 \<le> base64 ! unat c"

definition val64 :: "byte \<Rightarrow> byte" where
  "val64 c = word_of_int (base64 ! unat c)"

definition EQUALS :: byte where "EQUALS = 61"

text \<open>The inner loop: skip to the next characters until four are found or the data ends.\<close>

function collect4 :: "byte list \<Rightarrow> nat \<Rightarrow> nat \<Rightarrow> byte list \<Rightarrow> byte list \<times> nat" where
  "collect4 d len src enc =
     (if 4 \<le> length enc \<or> len \<le> src then (enc, src)
      else if valid64 (d ! src) then collect4 d len (src + 1) (enc @ [d ! src])
      else collect4 d len (src + 1) enc)"
  by pat_completeness auto

termination
  by (relation "measure (\<lambda>(d, len, src, enc). len - src)") auto

declare collect4.simps [simp del]

definition group64 :: "byte list \<Rightarrow> byte list" where
  "group64 enc =
     [(push_bit 2 (val64 (enc ! 0)) AND 0xFC) OR drop_bit 4 (val64 (enc ! 1)),
      (push_bit 4 (val64 (enc ! 1)) AND 0xF0) OR drop_bit 2 (val64 (enc ! 2)),
      (push_bit 6 (val64 (enc ! 2)) AND 0xC0) OR val64 (enc ! 3)]"

definition advance64 :: "byte list \<Rightarrow> nat" where
  "advance64 enc = (if enc ! 3 = EQUALS then if enc ! 2 = EQUALS then 1 else 2 else 3)"

definition overwrite :: "byte list \<Rightarrow> nat \<Rightarrow> byte list \<Rightarrow> byte list" where
  "overwrite d i s = take i d @ s @ drop (i + length s) d"

lemma collect4_bounds:
  "collect4 d len src enc = (enc', src') \<Longrightarrow> length enc \<le> 4 \<Longrightarrow> src \<le> len \<Longrightarrow>
     length enc' \<le> 4 \<and> src' \<le> len \<and> length enc' + src \<le> length enc + src'"
proof (induction d len src enc rule: collect4.induct)
  case (1 d len src enc)
  then show ?case by (subst (asm) (3) collect4.simps) (auto split: if_splits)
qed

function unbase64_loop :: "byte list \<Rightarrow> nat \<Rightarrow> nat \<Rightarrow> nat \<Rightarrow> byte list \<times> nat \<times> nat" where
  "unbase64_loop d len src dest =
     (case collect4 d len src [] of (enc, src') \<Rightarrow>
        if length enc < 4
        then (overwrite d dest enc, dest + length enc, length enc)
        else unbase64_loop (overwrite d dest (group64 enc)) len src' (dest + advance64 enc))"
  by pat_completeness auto

termination
proof (relation "measure (\<lambda>(d, len, src, dest). len - src)")
  fix d len src dest enc src'
  assume c: "(enc, src') = collect4 d len src []" and n: "\<not> length enc < 4"
  show "((overwrite d dest (group64 enc), len, src', dest + advance64 enc), d, len, src, dest)
      \<in> measure (\<lambda>(d, len, src, dest). len - src)"
  proof (cases "src \<le> len")
    case True
    with collect4_bounds [OF c [symmetric]] n have "length enc = 4" "src' \<le> len" "length enc + src \<le> src'" by auto
    then show ?thesis by simp
  next
    case False
    then have "collect4 d len src [] = ([], src)" by (subst collect4.simps) simp
    with c n show ?thesis by simp
  qed
qed simp

declare unbase64_loop.simps [simp del]

text \<open>The buffer, the number of bytes it now holds, and how many of them are not yet decoded.\<close>

definition unbase64 :: "byte list \<Rightarrow> nat \<Rightarrow> byte list \<times> nat \<times> nat" where
  "unbase64 d len = unbase64_loop d len 0 0"

subsection \<open>Decoding as a function of the text\<close>

fun decode64 :: "byte list \<Rightarrow> byte list \<times> byte list" where
  "decode64 (a # b # c # e # s) =
     (let (out, rest) = decode64 s in
      (take (advance64 [a, b, c, e]) (group64 [a, b, c, e]) @ out, rest))"
| "decode64 s = ([], s)"

lemma collect4_filter:
  "len \<le> length d \<Longrightarrow> src \<le> len \<Longrightarrow> length enc \<le> 4 \<Longrightarrow> collect4 d len src enc = (enc', src') \<Longrightarrow>
     src \<le> src' \<and> src' \<le> len \<and>
     enc @ filter valid64 (take (len - src) (drop src d)) =
       enc' @ filter valid64 (take (len - src') (drop src' d)) \<and> (length enc' < 4 \<longrightarrow> src' = len)"
proof (induction d len src enc rule: collect4.induct)
  case (1 d len src enc)
  show ?case
  proof (cases "4 \<le> length enc \<or> len \<le> src")
    case True
    with 1 show ?thesis by (auto simp: collect4.simps [of d len src enc])
  next
    case False
    then have "take (len - src) (drop src d) = d ! src # take (len - (src + 1)) (drop (src + 1) d)"
      using 1 by (simp add: Cons_nth_drop_Suc [symmetric] take_Cons' )
    with False 1 show ?thesis by (auto simp: collect4.simps [of d len src enc] split: if_splits)
  qed
qed

lemma length_group64 [simp]: "length (group64 enc) = 3"
  by (simp add: group64_def)

lemma advance64_le: "advance64 enc \<le> 3" "1 \<le> advance64 enc"
  by (simp_all add: advance64_def)

lemma list4:
  assumes "length xs = 4"
  obtains a b c e where "xs = [a, b, c, e]"
  using assms by (auto simp: length_Suc_conv eval_nat_numeral)

lemma decode64_short: "length s < 4 \<Longrightarrow> decode64 s = ([], s)"
  by (induction s rule: decode64.induct) auto

lemma unbase64_loop_decode:
  assumes "len \<le> length d" "src \<le> len" "dest \<le> src"
    and "unbase64_loop d len src dest = (d', n, remain)"
  shows "length d' = length d \<and> n \<le> len \<and>
    (case decode64 (filter valid64 (take (len - src) (drop src d))) of (out, rest) \<Rightarrow>
       take n d' = take dest d @ out @ rest \<and> remain = length rest)"
  using assms
proof (induction d len src dest rule: unbase64_loop.induct)
  case (1 d len src dest)
  obtain enc src' where c: "collect4 d len src [] = (enc, src')" by (rule prod.exhaust)
  from collect4_filter [OF 1(2,3) _ c] collect4_bounds [OF c _ 1(3)]
  have f: "filter valid64 (take (len - src) (drop src d)) = enc @ filter valid64 (take (len - src') (drop src' d))"
    and b: "src' \<le> len" "length enc \<le> 4" "length enc + src \<le> src'" "length enc < 4 \<longrightarrow> src' = len" by auto
  show ?case
  proof (cases "length enc < 4")
    case True
    with 1(5) c have r: "d' = overwrite d dest enc" "n = dest + length enc" "remain = length enc"
      by (simp_all add: unbase64_loop.simps [of d len src dest])
    show ?thesis using True b 1(2,4) f r by (simp add: overwrite_def decode64_short)
  next
    case False
    then obtain w x y z where enc: "enc = [w, x, y, z]" using b(2) by (metis list4 le_antisym linorder_not_less)
    let ?d = "overwrite d dest (group64 enc)"
    have run: "unbase64_loop ?d len src' (dest + advance64 enc) = (d', n, remain)"
      using 1(5) c False by (simp add: unbase64_loop.simps [of d len src dest])
    have pos: "dest + 3 \<le> src'" "dest + advance64 enc \<le> src'"
      using b(3) 1(4) enc advance64_le [of enc] by auto
    have len: "length ?d = length d" using pos b(1) 1(2) by (simp add: overwrite_def)
    have tail: "drop src' ?d = drop src' d" using pos b(1) 1(2) by (simp add: overwrite_def)
    have head: "take (dest + advance64 enc) ?d = take dest d @ take (advance64 enc) (group64 enc)"
      using pos b(1) 1(2) advance64_le [of enc] by (simp add: overwrite_def)
    from 1(1) [OF c [symmetric] False _ b(1) pos(2) run] len 1(2)
    have IH: "length d' = length d" "n \<le> len"
      "case decode64 (filter valid64 (take (len - src') (drop src' d))) of (out, rest) \<Rightarrow>
         take n d' = take dest d @ take (advance64 enc) (group64 enc) @ out @ rest \<and> remain = length rest"
      by (simp_all add: tail head)
    show ?thesis using IH unfolding f enc by (simp add: Let_def split: prod.splits)
  qed
qed

text \<open>
  C13: decoding in place, the three bytes of a group are written before the characters behind it
  are read, yet the buffer ends up holding exactly the decoded text followed by the characters of
  the incomplete group.
\<close>

theorem unbase64_decode:
  assumes "len \<le> length d"
  shows "\<exists>d' n remain. unbase64 d len = (d', n, remain) \<and> length d' = length d \<and> n \<le> len \<and>
    take n d' = fst (decode64 (filter valid64 (take len d))) @ snd (decode64 (filter valid64 (take len d))) \<and>
    remain = length (snd (decode64 (filter valid64 (take len d))))"
proof -
  obtain d' n remain where r: "unbase64 d len = (d', n, remain)" by (rule prod_cases3)
  with unbase64_loop_decode [of len d 0 0 d' n remain] assms show ?thesis
    by (simp add: unbase64_def split: prod.splits)
qed

theorem unbase64_decode_witness:
  "\<exists>d' n remain. unbase64 [84, 87, 10, 70, 117, 88] 6 = (d', n, remain) \<and>
     take n d' = [77, 97, 110, 88] \<and> remain = 1"
proof -
  have "decode64 (filter valid64 (take 6 [84, 87, 10, 70, 117, 88])) = ([77, 97, 110], [88])" by code_simp
  then show ?thesis using unbase64_decode [of 6 "[84, 87, 10, 70, 117, 88]"] by auto
qed

subsection \<open>Decoding in pieces\<close>



subsection \<open>The standard encoding\<close>

definition chars64 :: string where
  "chars64 = ''ABCDEFGHIJKLMNOPQRSTUVWXYZabcdefghijklmnopqrstuvwxyz0123456789+/''"

definition char64 :: "byte \<Rightarrow> byte" where
  "char64 v = of_char (chars64 ! unat v)"

definition sextet1 :: "byte \<Rightarrow> byte" where "sextet1 a = drop_bit 2 a"
definition sextet2 :: "byte \<Rightarrow> byte \<Rightarrow> byte" where "sextet2 a b = push_bit 4 (a AND 3) OR drop_bit 4 b"
definition sextet3 :: "byte \<Rightarrow> byte \<Rightarrow> byte" where "sextet3 b c = push_bit 2 (b AND 15) OR drop_bit 6 c"
definition sextet4 :: "byte \<Rightarrow> byte" where "sextet4 c = c AND 63"

fun encode64 :: "byte list \<Rightarrow> byte list" where
  "encode64 (a # b # c # s) =
     char64 (sextet1 a) # char64 (sextet2 a b) # char64 (sextet3 b c) # char64 (sextet4 c) # encode64 s"
| "encode64 [a, b] = [char64 (sextet1 a), char64 (sextet2 a b), char64 (sextet3 b 0), EQUALS]"
| "encode64 [a] = [char64 (sextet1 a), char64 (sextet2 a 0), EQUALS, EQUALS]"
| "encode64 [] = []"

lemmas sextet_defs = sextet1_def sextet2_def sextet3_def sextet4_def

lemma char64_table:
  "list_all (\<lambda>n. valid64 (char64 (word_of_nat n)) \<and> val64 (char64 (word_of_nat n)) = word_of_nat n \<and>
     char64 (word_of_nat n) \<noteq> EQUALS) [0..<64]"
  by code_simp

lemma char64_props:
  assumes "unat v < 64"
  shows "valid64 (char64 v)" "val64 (char64 v) = v" "char64 v \<noteq> EQUALS"
proof -
  have "unat v \<in> set [0..<64]" using assms by simp
  with char64_table have "valid64 (char64 (word_of_nat (unat v))) \<and>
      val64 (char64 (word_of_nat (unat v))) = word_of_nat (unat v) \<and> char64 (word_of_nat (unat v)) \<noteq> EQUALS"
    unfolding list_all_iff by blast
  then show "valid64 (char64 v)" "val64 (char64 v) = v" "char64 v \<noteq> EQUALS" by simp_all
qed

lemma valid64_EQUALS: "valid64 EQUALS" "val64 EQUALS = 0"
  by code_simp+

lemma byte_bits:
  fixes a b :: byte
  assumes "bit a 0 = bit b 0" "bit a 1 = bit b 1" "bit a 2 = bit b 2" "bit a 3 = bit b 3"
    "bit a 4 = bit b 4" "bit a 5 = bit b 5" "bit a 6 = bit b 6" "bit a 7 = bit b 7"
  shows "a = b"
proof (rule bit_word_eqI)
  fix n
  assume "n < LENGTH(8)"
  then have "n \<in> {0, 1, 2, 3, 4, 5, 6, 7}" by auto
  with assms show "bit a n = bit b n" by (elim insertE emptyE) simp_all
qed

lemma unat_less_64: "\<not> bit v 6 \<Longrightarrow> \<not> bit v 7 \<Longrightarrow> unat (v :: byte) < 64"
proof -
  assume v: "\<not> bit v 6" "\<not> bit v 7"
  have "v = v AND 63" by (rule byte_bits) (simp_all add: bit_simps v)
  then have "v \<le> 63" using word_and_le1 [of v 63] by simp
  then show ?thesis by (simp add: word_le_nat_alt)
qed

lemma byte_bit_out: "8 \<le> n \<Longrightarrow> \<not> bit (a :: byte) n"
  by (auto dest: bit_imp_le_length)

lemma sextet_less:
  "unat (sextet1 a) < 64" "unat (sextet2 a b) < 64" "unat (sextet3 b c) < 64" "unat (sextet4 c) < 64"
  by (rule unat_less_64; simp add: sextet_defs bit_simps byte_bit_out)+

lemma group64_bits:
  "(push_bit 2 (sextet1 a) AND 0xFC) OR drop_bit 4 (sextet2 a b) = a"
  "(push_bit 4 (sextet2 a b) AND 0xF0) OR drop_bit 2 (sextet3 b c) = b"
  "(push_bit 6 (sextet3 b c) AND 0xC0) OR sextet4 c = c"
  by (rule byte_bits; simp add: sextet_defs bit_simps byte_bit_out)+

lemmas char64_sextet = char64_props [OF sextet_less(1)] char64_props [OF sextet_less(2)]
  char64_props [OF sextet_less(3)] char64_props [OF sextet_less(4)]

text \<open>
  C15: decoding inverts the standard base64 encoding, padding included, and leaves no incomplete group.
\<close>

theorem decode_encode64: "decode64 (filter valid64 (encode64 s)) = (s, [])"
proof (induction s rule: encode64.induct)
  case (1 a b c s)
  then show ?case
    by (simp add: char64_sextet advance64_def group64_def group64_bits)
next
  case (2 a b)
  then show ?case
    by (simp add: char64_sextet advance64_def group64_def group64_bits valid64_EQUALS)
next
  case (3 a)
  then show ?case
    by (simp add: char64_sextet advance64_def group64_def group64_bits valid64_EQUALS)
qed simp

end
