(* ===== verification/RtpVideo.thy ===== *)
theory RtpVideo
  imports Media Base64
begin

text \<open>
  H.263 (rtp-h263.c) and H.264 (rtp-h264.c) video. An H.264 unit that does not fit into one packet
  is sent as fragmentation units (FU-A); the parameter sets are announced in the SDP text in base64.
\<close>

subsection \<open>H.263\<close>

record rtp_h263 =
  h263_d :: "byte list"
  h263_len :: int
  h263_init_done :: bool
  h263_ts_incr :: int
  h263_timestamp :: u32

definition new_rtp_media_h263 :: "int \<Rightarrow> int \<Rightarrow> rtp_h263 option" where
  "new_rtp_media_h263 fincr fbase =
     (if fbase = 0 then None
      else Some \<lparr>h263_d = [], h263_len = 0, h263_init_done = True,
                 h263_ts_incr = s32 (90000 * fincr) sdiv fbase, h263_timestamp = 0\<rparr>)"

definition h263_process_frame :: "media_frame \<Rightarrow> rtp_h263 \<Rightarrow> bool \<times> rtp_h263" where
  "h263_process_frame f out =
     (h263_init_done out,
      out\<lparr>h263_d := drop 2 (mf_d f), h263_len := int (length (mf_d f)) - 2,
          h263_timestamp := h263_timestamp out + word_of_int (h263_ts_incr out)\<rparr>)"

definition h263_get_sdp :: "int \<Rightarrow> int \<Rightarrow> string" where
  "h263_get_sdp payload port =
     ''m=video '' @ show_int port @ '' RTP/AVP '' @ show_int payload @ CRLF @
     ''a=rtpmap:'' @ show_int payload @ '' H263-1998/90000'' @ CRLF"

definition h263_packets :: "rtp_h263 \<Rightarrow> int \<Rightarrow> rtp_call list option" where
  "h263_packets out mtu =
     map_option
       (map (\<lambda>(i, n). ([[if i = 0 then 4 else 0, 0], slice (h263_d out) i n],
          h263_timestamp out, int (i + n) = h263_len out)))
       (pieces (h263_len out) mtu mtu 0)"

subsection \<open>Base64 encoding\<close>

text \<open>
  The inner loop emits a character for each complete group of six bits but one, and for what is left
  at the last byte. The bits of earlier bytes are shifted out of the 32-bit accumulator.
\<close>

function emit64 :: "u32 \<Rightarrow> int \<Rightarrow> bool \<Rightarrow> byte list \<times> int" where
  "emit64 bits shift final =
     (let c = char64 (ucast (drop_bit (nat shift) (push_bit 6 bits) AND 0x3f));
          shift' = shift - 6
      in
      if 6 < shift' \<or> final \<and> 0 < shift'
      then let (cs, sh) = emit64 bits shift' final in (c # cs, sh)
      else ([c], shift'))"
  by pat_completeness auto

termination
  by (relation "measure (\<lambda>(bits, shift, final). nat shift)") auto

declare emit64.simps [simp del]

fun encode64_loop :: "u32 \<Rightarrow> int \<Rightarrow> byte list \<Rightarrow> byte list" where
  "encode64_loop bits shift [] = []"
| "encode64_loop bits shift (b # rest) =
     (let bits' = push_bit 8 bits + ucast b;
          (cs, shift') = emit64 bits' (shift + 8) (rest = [])
      in cs @ encode64_loop bits' shift' rest)"

definition pad64 :: "byte list \<Rightarrow> byte list" where
  "pad64 cs = cs @ replicate ((4 - length cs mod 4) mod 4) EQUALS"

text \<open>\<open>base64_encode\<close>: \<^term>\<open>None\<close> for the null result when the output does not fit with its terminator.\<close>

definition base64_encode :: "nat \<Rightarrow> byte list \<Rightarrow> byte list option" where
  "base64_encode out_size d =
     (if out_size < (length d + 2) div 3 * 4 + 1 then None
      else Some (pad64 (encode64_loop 0 0 d)))"

subsection \<open>H.264\<close>

record rtp_h264 =
  h264_d :: "byte list"
  h264_key :: int
  h264_init_done :: bool
  h264_ts_incr :: int
  h264_timestamp :: u32
  h264_last_frame :: u64
  h264_sps :: "byte list"
  h264_pps :: "byte list"

text \<open>\<open>now\<close> is the result of \<open>utils_get_ms_time\<close>.\<close>

definition h264_process_frame :: "u64 \<Rightarrow> media_frame \<Rightarrow> rtp_h264 \<Rightarrow> (bool \<times> rtp_h264) option" where
  "h264_process_frame now f out =
     (if h264_ts_incr out = 0 then None
      else
        let frames = now * 90 div word_of_int (h264_ts_incr out) in
        Some (h264_init_done out,
          out\<lparr>h264_d := mf_d f, h264_key := mf_key f,
              h264_timestamp := ucast (frames * word_of_int (h264_ts_incr out)),
              h264_last_frame := frames\<rparr>))"

text \<open>The fragmentation units of a unit with header \<open>nal\<close> and the bytes \<open>d\<close> behind it.\<close>

definition fu_indicator :: "byte \<Rightarrow> byte" where
  "fu_indicator nal = 28 OR (nal AND 0x60)"

definition fu_header :: "byte \<Rightarrow> bool \<Rightarrow> bool \<Rightarrow> byte" where
  "fu_header nal start end' =
     (nal AND 0x1F) OR (if start then 0x80 else 0) OR (if end' then 0x40 else 0)"

definition fu_packets :: "byte \<Rightarrow> byte list \<Rightarrow> u32 \<Rightarrow> int \<Rightarrow> rtp_call list option" where
  "fu_packets nal d timestamp mtu =
     (let lim = uint (word_of_int mtu - 2 :: u32) in
      map_option
        (map (\<lambda>(i, n). ([[fu_indicator nal, fu_header nal (i = 0) (i + n = length d)], slice d i n],
           timestamp, i + n = length d)))
        (pieces (int (length d)) lim lim 0))"

text \<open>
  The packets of \<open>h264_send\<close> for an endpoint that has sent \<open>count\<close> packets. The results of sending the
  parameter sets are not looked at.
\<close>

definition h264_packets :: "rtp_h264 \<times> int \<Rightarrow> int \<Rightarrow> rtp_call list option" where
  "h264_packets oc mtu =
     (case oc of (out, count) \<Rightarrow>
        if count = 0 \<and> h264_key out = 0 then Some []
        else do {
          nal \<leftarrow> rd (h264_d out) 0;
          let sets = (if count = 0 \<and> nal = 0x65
                      then map (\<lambda>p. ([p], h264_timestamp out, True)) (filter (\<lambda>p. p \<noteq> []) [h264_sps out, h264_pps out])
                      else []);
          unit \<leftarrow> (if int (length (h264_d out)) \<le> mtu then Some [([h264_d out], h264_timestamp out, True)]
                   else fu_packets nal (drop 1 (h264_d out)) (h264_timestamp out) mtu);
          Some (sets @ unit)
        })"

text \<open>
  The configuration that the encoder process publishes: the parameter sets (the first may still be
  missing), the profile and the level. \<open>h264_get_sdp\<close> reads it up to 30 times until the sequence
  parameter set is there.
\<close>

record h264_config =
  cfg_sps :: "byte list option"
  cfg_pps :: "byte list"
  cfg_profile :: u32
  cfg_level :: u32

fun wait_sps :: "nat \<Rightarrow> (nat \<Rightarrow> h264_config) \<Rightarrow> nat \<Rightarrow> h264_config \<times> bool" where
  "wait_sps 0 cfg i = (cfg (i - 1), False)"
| "wait_sps (Suc n) cfg i = (if cfg_sps (cfg i) \<noteq> None then (cfg i, True) else wait_sps n cfg (Suc i))"

text \<open>
  The buffers for the base64 texts have 100 bytes and stay uninitialised when a text does not fit;
  the one for the line that holds both has 200, and the one for the profile 30.
\<close>

definition sprop_text :: "byte list \<Rightarrow> byte list \<Rightarrow> string option" where
  "sprop_text sps pps = do {
     a \<leftarrow> base64_encode 100 sps;
     b \<leftarrow> base64_encode 100 pps;
     let t = ''sprop-parameter-sets='' @ map (char_of \<circ> unat) a @ '','' @ map (char_of \<circ> unat) b;
     if 200 \<le> length t then None else Some t
   }"

definition h264_get_sdp ::
  "(nat \<Rightarrow> h264_config) \<Rightarrow> rtp_h264 \<Rightarrow> int \<Rightarrow> int \<Rightarrow> (string \<times> rtp_h264) option" where
  "h264_get_sdp cfg out payload port =
     (let (c, found) = wait_sps 30 cfg 0;
          out' = out\<lparr>h264_sps := (if found then the (cfg_sps c) else []),
                     h264_pps := (if found then cfg_pps c else [])\<rparr>;
          profile = ''profile-level-id='' @ show_hex2 hex_lower (unat (cfg_profile c)) @ ''00'' @
                    show_hex2 hex_lower (unat (cfg_level c));
          start = ''m=video '' @ show_int port @ '' RTP/AVP '' @ show_int payload @ CRLF @
                  ''a=rtpmap:'' @ show_int payload @ '' H264/90000'' @ CRLF @
                  ''a=fmtp:'' @ show_int payload @ '' packetization-mode=1; '' @ profile
      in
      if 30 \<le> length profile then None
      else if h264_sps out' \<noteq> [] \<and> h264_pps out' \<noteq> [] then
        map_option (\<lambda>t. (start @ ''; '' @ t @ CRLF, out')) (sprop_text (h264_sps out') (h264_pps out'))
      else Some (start @ CRLF, out'))"

subsection \<open>The encoder computes the standard encoding\<close>

fun sextets :: "byte list \<Rightarrow> byte list" where
  "sextets (a # b # c # s) = sextet1 a # sextet2 a b # sextet3 b c # sextet4 c # sextets s"
| "sextets [a, b] = [sextet1 a, sextet2 a b, sextet3 b 0]"
| "sextets [a] = [sextet1 a, sextet2 a 0]"
| "sextets [] = []"

lemma encode64_sextets: "encode64 s = pad64 (map char64 (sextets s)) \<and> length (sextets s) = length s + (length s + 2) div 3"
proof (induction s rule: sextets.induct)
  case (1 a b c s)
  then show ?case by (simp add: pad64_def)
qed (simp_all add: pad64_def EQUALS_def numeral_2_eq_2)

lemma push_add_or: "push_bit 8 bits + ucast (b :: byte) = push_bit 8 bits OR (ucast b :: u32)"
  by (rule disjunctive_add_eq_or, rule bit_word_eqI) (auto simp: bit_simps dest: bit_imp_le_length)

lemma and_3f: "(v :: u32) AND 0x3f = take_bit 6 v"
  by (simp add: take_bit_eq_mask mask_eq_exp_minus_1)

text \<open>The group of six bits that ends \<open>shift\<close> bits above the lowest.\<close>

definition six :: "u32 \<Rightarrow> nat \<Rightarrow> byte" where
  "six bits shift = ucast (drop_bit shift (push_bit 6 bits) AND 0x3f)"

lemma emit64_six:
  "emit64 bits shift final =
     (if 12 < shift \<or> final \<and> 6 < shift
      then (char64 (six bits (nat shift)) # fst (emit64 bits (shift - 6) final), snd (emit64 bits (shift - 6) final))
      else ([char64 (six bits (nat shift))], shift - 6))"
  by (subst emit64.simps) (simp add: six_def Let_def split_def)

lemma six_bits:
  fixes bits :: u32 and a b c :: byte
  shows "six (push_bit 8 bits + ucast a) 8 = sextet1 a"
    "six (push_bit 8 bits + ucast a) 14 = ucast bits AND 63"
    "six (push_bit 8 bits + ucast a) 2 = sextet2 a 0"
    "six (push_bit 8 (push_bit 8 bits + ucast a) + ucast b) 10 = sextet2 a b"
    "six (push_bit 8 (push_bit 8 bits + ucast a) + ucast b) 4 = sextet3 b 0"
    "six (push_bit 8 (push_bit 8 (push_bit 8 bits + ucast a) + ucast b) + ucast c) 12 = sextet3 b c"
    "six (push_bit 8 (push_bit 8 (push_bit 8 bits + ucast a) + ucast b) + ucast c) 6 = sextet4 c"
    "ucast (push_bit 8 bits + ucast c) AND (63 :: byte) = sextet4 c"
  unfolding push_add_or six_def
  by (rule byte_bits; simp add: sextet_defs bit_simps byte_bit_out)+

lemma encode64_loop_sextets:
  "encode64_loop bits 0 s = map char64 (sextets s) \<and>
   (s \<noteq> [] \<longrightarrow> encode64_loop bits 6 s = char64 (ucast bits AND 63) # map char64 (sextets s))"
proof (induction s arbitrary: bits rule: sextets.induct)
  case (1 a b c s)
  show ?case
  proof (cases "s = []")
    case True
    then show ?thesis by (simp add: Let_def emit64_six six_bits)
  next
    case False
    with 1 show ?thesis by (simp add: Let_def emit64_six six_bits)
  qed
qed (simp_all add: Let_def emit64_six six_bits)

text \<open>
  C21: \<open>base64_encode\<close> computes the standard encoding whenever the output and its terminator fit, and
  otherwise returns the null pointer.
\<close>

theorem base64_encode_standard:
  "base64_encode out_size d = (if length (encode64 d) + 1 \<le> out_size then Some (encode64 d) else None)"
proof -
  have len: "length (encode64 d) = (length d + 2) div 3 * 4"
    by (induction d rule: encode64.induct) (simp_all, presburger)
  show ?thesis unfolding base64_encode_def len
    using encode64_loop_sextets [of 0 d] encode64_sextets [of d] by auto
qed

subsection \<open>The video formats are packetizers\<close>

interpretation h263: packetizer h263_packets "drop 2" h263_d
  "\<lambda>out mtu. 0 < mtu \<and> h263_len out = int (length (h263_d out))" 2
proof
  fix m :: rtp_h263 and mtu :: int assume ok: "0 < mtu \<and> h263_len m = int (length (h263_d m))"
  show "h263_packets m mtu \<noteq> None" using pieces_total ok by (simp add: h263_packets_def)
  fix calls assume "h263_packets m mtu = Some calls"
  with ok have calls: "map_option
       (map (\<lambda>(i, n). ([[if i = 0 then 4 else 0, 0], slice (h263_d m) i n],
          h263_timestamp m, int (i + n) = h263_len m)))
       (pieces (int (length (h263_d m))) mtu mtu 0) = Some calls" by (simp add: h263_packets_def)
  show "concat (map (drop 2 \<circ> concat \<circ> fst) calls) = h263_d m"
    by (rule frag_data [OF calls]) simp
  fix call assume "call \<in> set calls"
  then show "int (length (concat (fst call))) \<le> mtu + int 2"
    by (rule frag_size [OF calls order_refl]) simp_all
qed

text \<open>What a receiver takes from a packet: a unit as it is, or the header and bytes of a fragment.\<close>

definition is_fu :: "byte list \<Rightarrow> bool" where
  "is_fu p \<longleftrightarrow> p ! 0 AND 0x1F = 28"

definition h264_body :: "byte list \<Rightarrow> byte list" where
  "h264_body p =
     (if is_fu p
      then (if bit (p ! 1) 7 then [(p ! 0 AND 0x60) OR (p ! 1 AND 0x1F)] else []) @ drop 2 p
      else p)"

text \<open>A unit that is not itself a fragment and has the forbidden bit clear.\<close>

definition nal_unit :: "byte list \<Rightarrow> bool" where
  "nal_unit d \<longleftrightarrow> d \<noteq> [] \<and> \<not> bit (d ! 0) 7 \<and> \<not> is_fu d"

definition h264_ok :: "rtp_h264 \<times> int \<Rightarrow> int \<Rightarrow> bool" where
  "h264_ok oc mtu \<longleftrightarrow> (case oc of (out, count) \<Rightarrow>
     2 < mtu \<and> mtu < 2 ^ 31 \<and> nal_unit (h264_d out) \<and>
     (\<forall>p \<in> {h264_sps out, h264_pps out}. p = [] \<or> \<not> is_fu p \<and> int (length p) \<le> mtu))"

definition h264_data :: "rtp_h264 \<times> int \<Rightarrow> byte list" where
  "h264_data oc = (case oc of (out, count) \<Rightarrow>
     if count = 0 \<and> h264_key out = 0 then []
     else (if count = 0 \<and> h264_d out ! 0 = 0x65 then h264_sps out @ h264_pps out else []) @ h264_d out)"

lemma fu_bits:
  "is_fu (fu_indicator nal # p)"
  "bit (fu_header nal start end') 7 = start"
  "\<not> bit nal 7 \<Longrightarrow> (fu_indicator nal AND 0x60) OR (fu_header nal start end' AND 0x1F) = nal"
proof -
  have "fu_indicator nal AND 0x1F = 28"
    unfolding fu_indicator_def by (rule byte_bits) (simp_all add: bit_simps)
  then show "is_fu (fu_indicator nal # p)" by (simp add: is_fu_def)
  show "bit (fu_header nal start end') 7 = start" by (simp add: fu_header_def bit_simps)
  show "(fu_indicator nal AND 0x60) OR (fu_header nal start end' AND 0x1F) = nal" if "\<not> bit nal 7"
    unfolding fu_indicator_def fu_header_def by (rule byte_bits) (use that in \<open>simp_all add: bit_simps\<close>)
qed

lemma fu_packets_data:
  assumes "fu_packets nal d timestamp mtu = Some calls" "d \<noteq> []" "\<not> bit nal 7"
  shows "concat (map (h264_body \<circ> concat \<circ> fst) calls) = nal # d"
proof -
  let ?lim = "uint (word_of_int mtu - 2 :: u32)"
  from assms(1) obtain ps where ps: "pieces (int (length d)) ?lim ?lim 0 = Some ps"
    "calls = map (\<lambda>(i, n). ([[fu_indicator nal, fu_header nal (i = 0) (i + n = length d)], slice d i n],
           timestamp, i + n = length d)) ps"
    by (auto simp: fu_packets_def Let_def)
  from pieces_first [OF ps(1)] assms(2) obtain n qs where q: "ps = (0, n) # qs"
    "\<And>j m. (j, m) \<in> set qs \<Longrightarrow> 0 < j" by auto
  have body: "h264_body (fu_indicator nal # fu_header nal b e # p) = (if b then [nal] else []) @ p" for b e p
    using fu_bits assms(3) by (simp add: h264_body_def)
  have "map (h264_body \<circ> concat \<circ> fst) calls =
      ([nal] @ slice d 0 n) # map (\<lambda>(i, n). slice d i n) qs"
    using q(2) unfolding ps(2) q(1) by (auto simp: body)
  moreover have "slice d 0 n @ concat (map (\<lambda>(i, n). slice d i n) qs) = d"
    using pieces_data [OF ps(1)] by (simp add: q(1))
  ultimately show ?thesis by simp
qed

lemma h264_packets_cases:
  assumes "h264_ok (out, count) mtu" "h264_packets (out, count) mtu = Some calls" "\<not> (count = 0 \<and> h264_key out = 0)"
  obtains sets unit where "calls = sets @ unit"
    "sets = (if count = 0 \<and> h264_d out ! 0 = 0x65
       then map (\<lambda>p. ([p], h264_timestamp out, True)) (filter (\<lambda>p. p \<noteq> []) [h264_sps out, h264_pps out]) else [])"
    "if int (length (h264_d out)) \<le> mtu then unit = [([h264_d out], h264_timestamp out, True)]
     else fu_packets (h264_d out ! 0) (drop 1 (h264_d out)) (h264_timestamp out) mtu = Some unit"
proof -
  have "rd (h264_d out) 0 = Some (h264_d out ! 0)" using assms(1) by (simp add: h264_ok_def nal_unit_def)
  with assms(2,3) obtain unit where
    "(if int (length (h264_d out)) \<le> mtu then Some [([h264_d out], h264_timestamp out, True)]
      else fu_packets (h264_d out ! 0) (drop 1 (h264_d out)) (h264_timestamp out) mtu) = Some unit"
    "calls = (if count = 0 \<and> h264_d out ! 0 = 0x65
       then map (\<lambda>p. ([p], h264_timestamp out, True)) (filter (\<lambda>p. p \<noteq> []) [h264_sps out, h264_pps out]) else []) @ unit"
    unfolding h264_packets_def by (auto simp: Let_def split: bind_splits if_splits)
  then show ?thesis by (intro that) (auto split: if_splits)
qed

lemma fu_limit: "2 < mtu \<Longrightarrow> mtu < 2 ^ 31 \<Longrightarrow> uint (word_of_int mtu - 2 :: u32) = mtu - 2"
  by (simp add: uint_word_ariths unsigned_of_int take_bit_int_eq_self)

interpretation h264: packetizer h264_packets h264_body h264_data h264_ok 0
proof
  fix m mtu assume ok: "h264_ok m mtu"
  obtain out count where m: "m = (out, count)" by (rule prod.exhaust)
  have ok': "2 < mtu" "mtu < 2 ^ 31" "nal_unit (h264_d out)" using ok by (auto simp: h264_ok_def m)
  note lim = fu_limit [OF ok'(1,2)]
  show "h264_packets m mtu \<noteq> None"
  proof -
    have "fu_packets (h264_d out ! 0) (drop 1 (h264_d out)) (h264_timestamp out) mtu \<noteq> None"
      using pieces_total [of "mtu - 2" "mtu - 2"] ok' unfolding fu_packets_def lim by (simp add: Let_def)
    then obtain y where "fu_packets (h264_d out ! 0) (drop 1 (h264_d out)) (h264_timestamp out) mtu = Some y" by blast
    moreover have "rd (h264_d out) 0 = Some (h264_d out ! 0)" using ok' by (simp add: nal_unit_def)
    ultimately show ?thesis by (simp add: h264_packets_def m Let_def)
  qed
  fix calls assume calls: "h264_packets m mtu = Some calls"
  show "concat (map (h264_body \<circ> concat \<circ> fst) calls) = h264_data m"
  proof (cases "count = 0 \<and> h264_key out = 0")
    case True
    with calls show ?thesis by (simp add: h264_packets_def m h264_data_def)
  next
    case False
    from h264_packets_cases [OF ok [unfolded m] calls [unfolded m] False] obtain sets unit where u:
      "calls = sets @ unit"
      "sets = (if count = 0 \<and> h264_d out ! 0 = 0x65
         then map (\<lambda>p. ([p], h264_timestamp out, True)) (filter (\<lambda>p. p \<noteq> []) [h264_sps out, h264_pps out]) else [])"
      "if int (length (h264_d out)) \<le> mtu then unit = [([h264_d out], h264_timestamp out, True)]
       else fu_packets (h264_d out ! 0) (drop 1 (h264_d out)) (h264_timestamp out) mtu = Some unit" .
    have "concat (map (h264_body \<circ> concat \<circ> fst) unit) = h264_d out"
    proof (cases "int (length (h264_d out)) \<le> mtu")
      case True
      with u(3) ok'(3) show ?thesis by (simp add: h264_body_def nal_unit_def)
    next
      case long: False
      with u(3) have "concat (map (h264_body \<circ> concat \<circ> fst) unit) = h264_d out ! 0 # drop 1 (h264_d out)"
        using ok'(1,3) by (intro fu_packets_data) (auto simp: nal_unit_def)
      with ok'(3) show ?thesis by (cases "h264_d out") (simp_all add: nal_unit_def)
    qed
    moreover have "concat (map (h264_body \<circ> concat \<circ> fst) sets) =
        (if count = 0 \<and> h264_d out ! 0 = 0x65 then h264_sps out @ h264_pps out else [])"
      using ok unfolding u(2) by (auto simp: h264_ok_def m h264_body_def)
    ultimately show ?thesis using False by (auto simp: u(1) h264_data_def m)
  qed
  fix call assume call: "call \<in> set calls"
  with calls have False': "\<not> (count = 0 \<and> h264_key out = 0)" by (auto simp: h264_packets_def m)
  from h264_packets_cases [OF ok [unfolded m] calls [unfolded m] False'] obtain sets unit where u:
      "calls = sets @ unit"
      "sets = (if count = 0 \<and> h264_d out ! 0 = 0x65
         then map (\<lambda>p. ([p], h264_timestamp out, True)) (filter (\<lambda>p. p \<noteq> []) [h264_sps out, h264_pps out]) else [])"
      "if int (length (h264_d out)) \<le> mtu then unit = [([h264_d out], h264_timestamp out, True)]
       else fu_packets (h264_d out ! 0) (drop 1 (h264_d out)) (h264_timestamp out) mtu = Some unit" .
  have "int (length (concat (fst call))) \<le> mtu" if "call \<in> set unit"
  proof (cases "int (length (h264_d out)) \<le> mtu")
    case long: False
    with u(3) have f: "fu_packets (h264_d out ! 0) (drop 1 (h264_d out)) (h264_timestamp out) mtu = Some unit" by simp
    have "int (length (concat (fst call))) \<le> mtu - 2 + int 2"
      by (rule frag_size [OF f [unfolded fu_packets_def Let_def lim] order_refl that]) simp
    then show ?thesis by simp
  qed (use u(3) that in auto)
  moreover have "int (length (concat (fst call))) \<le> mtu" if "call \<in> set sets"
    using that ok unfolding u(2) by (auto simp: h264_ok_def m split: if_splits)
  ultimately show "int (length (concat (fst call))) \<le> mtu + int 0" using call u(1) by auto
qed

text \<open>
  C19: an H.264 unit, with the parameter sets before the first key frame, is recovered from its
  packets, whether it was sent whole or as fragmentation units; no packet is larger than
  the transport size.
\<close>

theorem h264_stream:
  assumes "h264_ok (out, count) mtu" "seq_ok ep"
  shows "\<exists>calls. h264_packets (out, count) mtu = Some calls \<and>
    (length calls \<le> 65536 \<longrightarrow> (\<forall>ds ep' ds'. rtp_packets calls ep = (ds, ep') \<longrightarrow> set ds' = set ds \<longrightarrow>
       concat (map h264_body (receive ds' (ep_seqnum ep) (length calls))) = h264_data (out, count) \<and>
       (\<forall>d \<in> set ds'. int (length (rtp_body d)) \<le> mtu)))"
proof -
  from h264.packets_total [OF assms(1)] obtain calls where calls: "h264_packets (out, count) mtu = Some calls" by auto
  with h264.frame_recovered [OF assms(1) calls _ assms(2)] show ?thesis by auto
qed

theorem h264_stream_witness:
  "(case h264_packets (\<lparr>h264_d = [0x65, 1, 2, 3, 4], h264_key = 1, h264_init_done = True, h264_ts_incr = 3000,
       h264_timestamp = 9, h264_last_frame = 0, h264_sps = [0x67, 8], h264_pps = [0x68]\<rparr>, 0) 4 of
      None \<Rightarrow> False
    | Some calls \<Rightarrow>
        concat (map h264_body (receive (rev (fst (rtp_packets calls (new_rtp_endpoint 0 96 [] [] [] (0, 0) (0, 0)))))
          0 (length calls))) = [0x67, 8, 0x68, 0x65, 1, 2, 3, 4])"
proof -
  let ?out = "\<lparr>h264_d = [0x65, 1, 2, 3, 4], h264_key = 1, h264_init_done = True, h264_ts_incr = 3000,
       h264_timestamp = 9, h264_last_frame = 0, h264_sps = [0x67, 8], h264_pps = [0x68]\<rparr>"
  let ?ep = "new_rtp_endpoint 0 96 [] [] [] (0, 0) (0, 0)"
  have ok: "h264_ok (?out, 0) 4" "seq_ok ?ep" "ep_seqnum ?ep = 0"
    by (simp_all add: h264_ok_def nal_unit_def is_fu_def seq_ok_def new_rtp_endpoint_def le_bytes_def bit_numeral_rec)
  have n: "length (the (h264_packets (?out, 0) 4)) = 4" by code_simp
  from h264_stream [OF ok(1,2)] obtain calls where calls: "h264_packets (?out, 0) 4 = Some calls" and
    *: "length calls \<le> 65536 \<longrightarrow> (\<forall>ds ep' ds'. rtp_packets calls ?ep = (ds, ep') \<longrightarrow> set ds' = set ds \<longrightarrow>
       concat (map h264_body (receive ds' (ep_seqnum ?ep) (length calls))) = h264_data (?out, 0) \<and>
       (\<forall>d \<in> set ds'. int (length (rtp_body d)) \<le> 4))" by blast
  obtain ds ep' where ds: "rtp_packets calls ?ep = (ds, ep')" by (rule prod.exhaust)
  have "length calls \<le> 65536" using n calls by simp
  then have "concat (map h264_body (receive (rev ds) (ep_seqnum ?ep) (length calls))) = h264_data (?out, 0)"
    using * [rule_format, OF _ ds set_rev] by blast
  with calls ds ok(3) show ?thesis by (simp add: h264_data_def)
qed


end
