(* ===== verification/RtpJpeg.thy ===== *)
theory RtpJpeg
  imports Media
begin

text \<open>
  JPEG video (rtp-jpeg.c): \<open>jpeg_process_frame\<close> reads the markers of a frame up to the start of the
  scan, \<open>jpeg_send\<close> sends the scan in packets that carry the header of RFC 2435, the quantization
  tables with the first one. Pointers into the frame are offsets into its data; members that are not
  yet initialised are \<^term>\<open>None\<close>.
\<close>

subsection \<open>Reading the markers\<close>

record rtp_jpeg =
  jp_type :: "int option"
  jp_width :: "int option"
  jp_height :: "int option"
  jp_luma_table :: "nat option"
  jp_chroma_table :: "nat option"
  jp_quant :: "nat \<Rightarrow> nat option"
  jp_data :: "byte list"
  jp_scan_data :: nat
  jp_scan_data_len :: int
  jp_init_done :: bool
  jp_timestamp :: u32
  jp_has_dri :: bool
  jp_dri :: u32

definition new_rtp_media_jpeg :: rtp_jpeg where
  "new_rtp_media_jpeg =
     \<lparr>jp_type = None, jp_width = None, jp_height = None, jp_luma_table = None, jp_chroma_table = None,
      jp_quant = (\<lambda>_. None), jp_data = [], jp_scan_data = 0, jp_scan_data_len = 0,
      jp_init_done = False, jp_timestamp = 0, jp_has_dri = False, jp_dri = 0\<rparr>"

definition get_16 :: "byte list \<Rightarrow> nat \<Rightarrow> u32 option" where
  "get_16 d i = do { a \<leftarrow> rd d i; b \<leftarrow> rd d (i + 1); Some (GET_16 a b) }"

text \<open>\<open>parse_DQT\<close> on the \<open>len\<close> bytes at \<open>off\<close>; the result is whether the tables are supported.\<close>

function parse_DQT :: "byte list \<Rightarrow> nat \<Rightarrow> int \<Rightarrow> int \<Rightarrow> rtp_jpeg \<Rightarrow> (bool \<times> rtp_jpeg) option" where
  "parse_DQT d off len i out =
     (if i < len then do {
        b \<leftarrow> rd d (off + nat i);
        if b AND 0xF0 \<noteq> 0 then Some (False, out)
        else parse_DQT d off len (i + 65)
               (out\<lparr>jp_quant := (jp_quant out)(unat (b AND 0xF) := Some (off + nat i + 1))\<rparr>)
      }
      else Some (True, out))"
  by pat_completeness auto

termination
  by (relation "measure (\<lambda>(d, off, len, i, out). nat (len - i))") auto

declare parse_DQT.simps [simp del]

definition parse_DRI :: "byte list \<Rightarrow> nat \<Rightarrow> rtp_jpeg \<Rightarrow> (bool \<times> rtp_jpeg) option" where
  "parse_DRI d off out = do {
     v \<leftarrow> get_16 d off;
     Some (True, out\<lparr>jp_has_dri := True, jp_dri := v\<rparr>)
   }"

text \<open>One component of a frame header: its identifier, sampling factors and quantization table.\<close>

definition sof_component :: "byte \<Rightarrow> byte \<Rightarrow> byte \<Rightarrow> rtp_jpeg \<Rightarrow> bool \<times> rtp_jpeg" where
  "sof_component cid samp tab out =
     (if 16 \<le> unat tab \<or> jp_quant out (unat tab) = None then (False, out)
      else if cid = 1 then
        if samp = 0x11 then (True, out\<lparr>jp_type := Some 0, jp_luma_table := Some (unat tab)\<rparr>)
        else if samp = 0x22 then (True, out\<lparr>jp_type := Some 1, jp_luma_table := Some (unat tab)\<rparr>)
        else if samp = 0x21 then (True, out\<lparr>jp_type := Some 0, jp_luma_table := Some (unat tab)\<rparr>)
        else (False, out)
      else if cid = 2 \<or> cid = 3 then
        if samp \<noteq> 0x11 then (False, out)
        else case jp_chroma_table out of
          None \<Rightarrow> (True, out\<lparr>jp_chroma_table := Some (unat tab)\<rparr>)
        | Some t \<Rightarrow> (t = unat tab, out)
      else (False, out))"

fun sof_components :: "byte list \<Rightarrow> nat list \<Rightarrow> rtp_jpeg \<Rightarrow> (bool \<times> rtp_jpeg) option" where
  "sof_components d [] out = Some (True, out)"
| "sof_components d (c # cs) out = do {
     cid \<leftarrow> rd d c;
     samp \<leftarrow> rd d (c + 1);
     tab \<leftarrow> rd d (c + 2);
     let (ok, out') = sof_component cid samp tab out;
     if ok then sof_components d cs out' else Some (False, out')
   }"

text \<open>\<open>chroma_table = -1\<close> is \<^term>\<open>None\<close>.\<close>

definition parse_SOF :: "byte list \<Rightarrow> nat \<Rightarrow> rtp_jpeg \<Rightarrow> (bool \<times> rtp_jpeg) option" where
  "parse_SOF d off out = do {
     let out0 = out\<lparr>jp_chroma_table := None\<rparr>;
     precision \<leftarrow> rd d off;
     if precision \<noteq> 8 then Some (False, out0)
     else do {
       h \<leftarrow> get_16 d (off + 1);
       w \<leftarrow> get_16 d (off + 3);
       let out1 = out0\<lparr>jp_height := Some (uint h), jp_width := Some (uint w)\<rparr>;
       if h AND 7 \<noteq> 0 \<or> w AND 7 \<noteq> 0 then Some (False, out1)
       else do {
         let out2 = out1\<lparr>jp_width := Some (uint w div 8), jp_height := Some (uint h div 8)\<rparr>;
         n \<leftarrow> rd d (off + 5);
         if n \<noteq> 3 then Some (False, out2)
         else sof_components d [off + 6, off + 9, off + 12] out2
       }
     }
   }"

text \<open>
  The work on the segment with marker \<open>m\<close> at \<open>i\<close>, whose length field is \<open>blen\<close>; \<open>parse_DHT\<close>
  does nothing. The result tells whether to go on.
\<close>

definition jpeg_segment :: "byte list \<Rightarrow> nat \<Rightarrow> byte \<Rightarrow> nat \<Rightarrow> rtp_jpeg \<Rightarrow> (bool \<times> rtp_jpeg) option" where
  "jpeg_segment d i m blen out =
     (if m = 0xDB then parse_DQT d (i + 4) (int blen - 2) 0 out
      else if m = 0xC0 then parse_SOF d (i + 4) out
      else if m = 0xDD then parse_DRI d (i + 4) out
      else Some (True, out))"

function jpeg_markers :: "u64 \<Rightarrow> byte list \<Rightarrow> nat \<Rightarrow> rtp_jpeg \<Rightarrow> (bool \<times> rtp_jpeg) option" where
  "jpeg_markers now d i out =
     (if i < length d then do {
        b \<leftarrow> rd d i;
        if b \<noteq> 0xFF then Some (False, out\<lparr>jp_scan_data_len := 0\<rparr>)
        else do {
          m \<leftarrow> rd d (i + 1);
          blen \<leftarrow> (if m = 0xD8 then Some 0 else map_option unat (get_16 d (i + 2)));
          if m = 0xDA then
            Some (True, out\<lparr>jp_init_done := True, jp_scan_data := i + 2 + blen,
              jp_scan_data_len := int (length d) - int i - 2 - int blen,
              jp_timestamp := ucast (now * 90)\<rparr>)
          else do {
            (ok, out') \<leftarrow> jpeg_segment d i m blen out;
            if ok then jpeg_markers now d (i + (blen + 2)) out'
            else Some (False, out'\<lparr>jp_scan_data_len := 0\<rparr>)
          }
        }
      }
      else Some (False, out\<lparr>jp_scan_data_len := 0\<rparr>))"
  by pat_completeness auto

termination
  by (relation "measure (\<lambda>(now, d, i, out). length d - i)") auto

declare jpeg_markers.simps [simp del]

definition jpeg_process_frame :: "u64 \<Rightarrow> media_frame \<Rightarrow> rtp_jpeg \<Rightarrow> (bool \<times> rtp_jpeg) option" where
  "jpeg_process_frame now f out =
     jpeg_markers now (mf_d f) 0 (out\<lparr>jp_has_dri := False, jp_quant := (\<lambda>_. None), jp_data := mf_d f\<rparr>)"

definition jpeg_get_sdp :: "int \<Rightarrow> string" where
  "jpeg_get_sdp port =
     ''m=video '' @ show_int port @ '' RTP/AVP '' @ show_int 26 @ CRLF @
     ''a=rtpmap:'' @ show_int 26 @ '' JPEG/90000'' @ CRLF"

definition jpeg_get_payload :: "int \<Rightarrow> int" where
  "jpeg_get_payload payload = 26"

subsection \<open>Packets\<close>

definition jpeg_vhdr :: "int \<Rightarrow> bool \<Rightarrow> int \<Rightarrow> int \<Rightarrow> nat \<Rightarrow> byte list" where
  "jpeg_vhdr ty dri width height i =
     (let w = word_of_nat i :: u32 in
      [0, ucast (drop_bit 16 w), ucast (drop_bit 8 w AND 0xff), ucast (w AND 0xff),
       word_of_int (if dri then ty + 64 else ty), 255, word_of_int width, word_of_int height])"

definition jpeg_rhdr :: "u32 \<Rightarrow> byte list" where
  "jpeg_rhdr dri = PUT_16 dri @ [0xFF, 0xFF]"

definition jpeg_qhdr :: "byte list" where
  "jpeg_qhdr = [0, 0] @ PUT_16 (128 :: u32)"

text \<open>
  The fragments: the first one leaves room for the tables, the others only for the main header.
\<close>

definition jpeg_frags :: "int \<Rightarrow> int \<Rightarrow> bool \<Rightarrow> (nat \<times> nat) list option" where
  "jpeg_frags len mtu dri =
     (if 0 < len then
        let lim = mtu - (8 + (if dri then 4 else 0) + 4 + 64 + 64);
            plen = (if lim < len then lim else len)
        in
        if plen \<le> 0 then None
        else map_option ((#) (0, nat plen)) (pieces len (mtu - 8) (mtu - 8) plen)
      else Some [])"

definition jpeg_packets :: "rtp_jpeg \<Rightarrow> int \<Rightarrow> rtp_call list option" where
  "jpeg_packets out mtu = do {
     ty \<leftarrow> jp_type out;
     w \<leftarrow> jp_width out;
     h \<leftarrow> jp_height out;
     lt \<leftarrow> jp_luma_table out;
     ct \<leftarrow> jp_chroma_table out;
     lq \<leftarrow> jp_quant out lt;
     cq \<leftarrow> jp_quant out ct;
     if length (jp_data out) < lq + 64 \<or> length (jp_data out) < cq + 64 then None
     else
       map_option
         (map (\<lambda>(i, n).
            ([jpeg_vhdr ty (jp_has_dri out) w h i] @
             (if jp_has_dri out then [jpeg_rhdr (jp_dri out)] else []) @
             (if i = 0 then [jpeg_qhdr, slice (jp_data out) lq 64, slice (jp_data out) cq 64] else []) @
             [slice (jp_data out) (jp_scan_data out + i) n],
             jp_timestamp out, int (n + i) = jp_scan_data_len out)))
         (jpeg_frags (jp_scan_data_len out) mtu (jp_has_dri out))
   }"

subsection \<open>JPEG frames are packetized\<close>

text \<open>The receiver of RFC 2435: the fragment offset, the quantization tables, and the scan data.\<close>

definition jpeg_offset :: "byte list \<Rightarrow> nat" where
  "jpeg_offset p = unat (GET_32 0 (p ! 1) (p ! 2) (p ! 3))"

definition jpeg_hdr_len :: "byte list \<Rightarrow> nat" where
  "jpeg_hdr_len p = (if 64 \<le> unat (p ! 4) then 12 else 8)"

definition jpeg_tables_len :: "byte list \<Rightarrow> nat" where
  "jpeg_tables_len p = unat (GET_16 (p ! (jpeg_hdr_len p + 2)) (p ! (jpeg_hdr_len p + 3)))"

definition jpeg_tables :: "byte list \<Rightarrow> byte list" where
  "jpeg_tables p = slice p (jpeg_hdr_len p + 4) (jpeg_tables_len p)"

definition jpeg_body :: "byte list \<Rightarrow> byte list" where
  "jpeg_body p =
     (if jpeg_offset p = 0 then drop (jpeg_hdr_len p + 4 + jpeg_tables_len p) p else drop (jpeg_hdr_len p) p)"

definition jpeg_scan :: "rtp_jpeg \<Rightarrow> byte list" where
  "jpeg_scan out = drop (jp_scan_data out) (jp_data out)"

definition jpeg_luma :: "rtp_jpeg \<Rightarrow> byte list" where
  "jpeg_luma out = slice (jp_data out) (the (jp_quant out (the (jp_luma_table out)))) 64"

definition jpeg_chroma :: "rtp_jpeg \<Rightarrow> byte list" where
  "jpeg_chroma out = slice (jp_data out) (the (jp_quant out (the (jp_chroma_table out)))) 64"

definition jpeg_ok :: "rtp_jpeg \<Rightarrow> int \<Rightarrow> bool" where
  "jpeg_ok out mtu \<longleftrightarrow>
     144 < mtu \<and>
     jp_scan_data_len out = int (length (jpeg_scan out)) \<and> length (jpeg_scan out) < 2 ^ 24 \<and>
     (jp_type out = Some 0 \<or> jp_type out = Some 1) \<and> jp_width out \<noteq> None \<and> jp_height out \<noteq> None \<and>
     (\<exists>lt ct lq cq. jp_luma_table out = Some lt \<and> jp_chroma_table out = Some ct \<and>
        jp_quant out lt = Some lq \<and> jp_quant out ct = Some cq \<and>
        lq + 64 \<le> length (jp_data out) \<and> cq + 64 \<le> length (jp_data out))"

lemma jpeg_offset_vhdr:
  assumes "i < 2 ^ 24"
  shows "jpeg_offset (jpeg_vhdr ty dri w h i @ p) = i"
proof -
  have "GET_32 0 (ucast (drop_bit 16 (word_of_nat i :: u32))) (ucast (drop_bit 8 (word_of_nat i :: u32) AND 0xff))
      (ucast ((word_of_nat i :: u32) AND 0xff)) = take_bit 24 (word_of_nat i)"
  proof (rule bit_word_eqI)
    fix n assume n: "n < LENGTH(32)"
    consider "n < 8" | "8 \<le> n" "n < 16" | "16 \<le> n" "n < 24" | "24 \<le> n" "n < 32" using n by fastforce
    then show "bit (GET_32 0 (ucast (drop_bit 16 (word_of_nat i :: u32))) (ucast (drop_bit 8 (word_of_nat i :: u32) AND 0xff))
      (ucast ((word_of_nat i :: u32) AND 0xff))) n = bit (take_bit 24 (word_of_nat i :: u32)) n"
      by cases (auto simp: GET_32_def and_ff bit_simps)
  qed
  moreover have "unat (take_bit 24 (word_of_nat i :: u32)) = i"
    using assms by (simp add: unsigned_take_bit_eq unsigned_of_nat take_bit_nat_eq_self)
  ultimately show ?thesis by (simp add: jpeg_offset_def jpeg_vhdr_def Let_def)
qed

lemma length_jpeg_hdrs [simp]:
  "length (jpeg_vhdr ty dri w h i) = 8" "length (jpeg_rhdr v) = 4" "length jpeg_qhdr = 4"
  by (simp_all add: jpeg_vhdr_def jpeg_rhdr_def jpeg_qhdr_def Let_def)

lemma jpeg_hdr_len_vhdr:
  "ty = 0 \<or> ty = 1 \<Longrightarrow> jpeg_hdr_len (jpeg_vhdr ty dri w h i @ p) = (if dri then 12 else 8)"
  by (auto simp: jpeg_hdr_len_def jpeg_vhdr_def Let_def)

lemma jpeg_qhdr_eq: "jpeg_qhdr = [0, 0, 0, 128]"
  by (simp add: jpeg_qhdr_def PUT_16_def)

lemma jpeg_packet_body:
  fixes dri :: bool and v :: u32 and w h :: int and d :: "byte list"
  assumes "ty = 0 \<or> ty = 1" "i < 2 ^ 24" "length lq = 64" "length cq = 64"
  defines "p \<equiv> jpeg_vhdr ty dri w h i @ (if dri then jpeg_rhdr v else []) @
    (if i = 0 then jpeg_qhdr @ lq @ cq else []) @ d"
  shows "jpeg_offset p = i" "jpeg_body p = d" "i = 0 \<Longrightarrow> jpeg_tables p = lq @ cq"
proof -
  show off: "jpeg_offset p = i" unfolding p_def by (rule jpeg_offset_vhdr [OF assms(2)])
  have hl: "jpeg_hdr_len p = (if dri then 12 else 8)" unfolding p_def by (rule jpeg_hdr_len_vhdr [OF assms(1)])
  have tl: "jpeg_tables_len p = 128" if "i = 0"
  proof -
    have "p ! (jpeg_hdr_len p + 2) = 0" "p ! (jpeg_hdr_len p + 3) = 128"
      unfolding hl using that by (auto simp: p_def nth_append jpeg_qhdr_eq nth_Cons')
    then show ?thesis by (simp add: jpeg_tables_len_def unat_GET_16)
  qed
  show "jpeg_body p = d"
    unfolding jpeg_body_def off hl using tl assms(3,4) by (auto simp: p_def)
  show "jpeg_tables p = lq @ cq" if "i = 0"
    unfolding jpeg_tables_def hl tl [OF that] using that assms(3,4) by (auto simp: p_def slice_def)
qed

lemma jpeg_frags_cases:
  assumes "144 < mtu" "0 < len"
  obtains n qs where "jpeg_frags len mtu dri = Some ((0, n) # qs)" "pieces len (mtu - 8) (mtu - 8) (int n) = Some qs"
    "0 < n" "int n \<le> len" "int n + (if dri then 4 else 0) \<le> mtu - 140"
proof -
  let ?n = "if mtu - (8 + (if dri then 4 else 0) + 4 + 64 + 64) < len
    then mtu - (8 + (if dri then 4 else 0) + 4 + 64 + 64) else len"
  have n: "0 < ?n" using assms by auto
  obtain qs where "pieces len (mtu - 8) (mtu - 8) ?n = Some qs"
    using pieces_total [of "mtu - 8" "mtu - 8" len ?n] assms(1) by auto
  with n assms show ?thesis by (intro that [of "nat ?n" qs]) (auto simp: jpeg_frags_def Let_def)
qed

lemma jpeg_frags_props:
  assumes "144 < mtu" "jpeg_frags (int (length d)) mtu dri = Some ps"
  shows "concat (map (\<lambda>(i, n). slice d i n) ps) = d"
    "\<And>i n. (i, n) \<in> set ps \<Longrightarrow> 0 < n \<and> i + n \<le> length d \<and>
       int n + 8 + (if i = 0 then 132 + (if dri then 4 else 0) else 0) \<le> mtu"
proof -
  have *: "concat (map (\<lambda>(i, n). slice d i n) ps) = d \<and> (\<forall>(i, n) \<in> set ps. 0 < n \<and> i + n \<le> length d \<and>
       int n + 8 + (if i = 0 then 132 + (if dri then 4 else 0) else 0) \<le> mtu)"
  proof (cases "d = []")
    case True
    with assms(2) show ?thesis by (simp add: jpeg_frags_def)
  next
    case False
    then have "0 < int (length d)" by simp
    from jpeg_frags_cases [OF assms(1) this, of dri] obtain n qs where
      c: "jpeg_frags (int (length d)) mtu dri = Some ((0, n) # qs)"
        "pieces (int (length d)) (mtu - 8) (mtu - 8) (int n) = Some qs" "0 < n" "int n \<le> int (length d)"
        "int n + (if dri then 4 else 0) \<le> mtu - 140" .
    with assms(2) have q: "ps = (0, n) # qs"
      "pieces (int (length d)) (mtu - 8) (mtu - 8) (int n) = Some qs" "0 < n" "n \<le> length d"
      "int n + (if dri then 4 else 0) \<le> mtu - 140" by simp_all
    have "concat (map (\<lambda>(i, n). slice d i n) qs) = drop n d" using pieces_data [OF q(2)] q(4) by simp
    then have "concat (map (\<lambda>(i, n). slice d i n) ps) = d" by (simp add: q(1) slice_def)
    moreover have "0 < m \<and> i + m \<le> length d \<and> int m \<le> mtu - 8 \<and> 0 < i" if "(i, m) \<in> set qs" for i m
      using pieces_bound [OF q(2) order_refl that] pieces_ge [OF q(2) that] q(3) by simp
    ultimately show ?thesis using q(3-5) unfolding q(1) by (fastforce split: if_splits)
  qed
  then show "concat (map (\<lambda>(i, n). slice d i n) ps) = d" by blast
  show "(i, n) \<in> set ps \<Longrightarrow> 0 < n \<and> i + n \<le> length d \<and>
       int n + 8 + (if i = 0 then 132 + (if dri then 4 else 0) else 0) \<le> mtu" for i n using * by blast
qed

text \<open>The tables, the width and the height are defined; a packet as the receiver sees it.\<close>

lemma jpeg_packets_calls:
  assumes "jpeg_ok out mtu" "jpeg_packets out mtu = Some calls"
  obtains ps ty w h where "jpeg_frags (int (length (jpeg_scan out))) mtu (jp_has_dri out) = Some ps"
    "ty = 0 \<or> ty = 1"
    "calls = map (\<lambda>(i, n).
            ([jpeg_vhdr ty (jp_has_dri out) w h i] @
             (if jp_has_dri out then [jpeg_rhdr (jp_dri out)] else []) @
             (if i = 0 then [jpeg_qhdr, jpeg_luma out, jpeg_chroma out] else []) @
             [slice (jpeg_scan out) i n],
             jp_timestamp out, n + i = length (jpeg_scan out))) ps"
proof -
  from assms(1) obtain ty w h lt ct lq cq where
    f: "jp_type out = Some ty" "ty = 0 \<or> ty = 1" "jp_width out = Some w" "jp_height out = Some h"
      "jp_luma_table out = Some lt" "jp_chroma_table out = Some ct" "jp_quant out lt = Some lq"
      "jp_quant out ct = Some cq" "lq + 64 \<le> length (jp_data out)" "cq + 64 \<le> length (jp_data out)"
      "jp_scan_data_len out = int (length (jpeg_scan out))"
    unfolding jpeg_ok_def by auto
  with assms(2) obtain ps where "jpeg_frags (int (length (jpeg_scan out))) mtu (jp_has_dri out) = Some ps"
    "calls = map (\<lambda>(i, n).
            ([jpeg_vhdr ty (jp_has_dri out) w h i] @
             (if jp_has_dri out then [jpeg_rhdr (jp_dri out)] else []) @
             (if i = 0 then [jpeg_qhdr, slice (jp_data out) lq 64, slice (jp_data out) cq 64] else []) @
             [slice (jp_data out) (jp_scan_data out + i) n],
             jp_timestamp out, int (n + i) = jp_scan_data_len out)) ps"
    unfolding jpeg_packets_def by auto
  moreover have "slice (jp_data out) (jp_scan_data out + i) n = slice (jpeg_scan out) i n" for i n
    by (simp add: slice_def jpeg_scan_def add.commute)
  moreover have "jpeg_luma out = slice (jp_data out) lq 64" "jpeg_chroma out = slice (jp_data out) cq 64"
    by (simp_all add: jpeg_luma_def jpeg_chroma_def f)
  moreover have "(int (n + i) = jp_scan_data_len out) = (n + i = length (jpeg_scan out))" for i n
    using f(11) by (simp only: of_nat_eq_iff)
  ultimately show ?thesis using f(2) by (intro that [of ps ty w h]) (simp_all only:)
qed

lemma jpeg_tables_length: "jpeg_ok out mtu \<Longrightarrow> length (jpeg_luma out) = 64 \<and> length (jpeg_chroma out) = 64"
  by (auto simp: jpeg_ok_def jpeg_luma_def jpeg_chroma_def slice_def)

interpretation jpeg: packetizer jpeg_packets jpeg_body jpeg_scan jpeg_ok 4
proof
  fix m mtu assume ok: "jpeg_ok m mtu"
  then have mtu: "144 < mtu" "length (jpeg_scan m) < 2 ^ 24" by (simp_all add: jpeg_ok_def)
  note tab = jpeg_tables_length [OF ok]
  show "jpeg_packets m mtu \<noteq> None"
  proof -
    have "\<exists>ps. jpeg_frags (int (length (jpeg_scan m))) mtu (jp_has_dri m) = Some ps"
    proof (cases "jpeg_scan m = []")
      case False
      then have "0 < int (length (jpeg_scan m))" by simp
      from jpeg_frags_cases [OF mtu(1) this] show ?thesis by metis
    qed (simp add: jpeg_frags_def)
    with ok show ?thesis by (auto simp: jpeg_packets_def jpeg_ok_def)
  qed
  fix calls assume "jpeg_packets m mtu = Some calls"
  from jpeg_packets_calls [OF ok this] obtain ps ty w h where
    p: "jpeg_frags (int (length (jpeg_scan m))) mtu (jp_has_dri m) = Some ps" "ty = 0 \<or> ty = 1"
    "calls = map (\<lambda>(i, n).
            ([jpeg_vhdr ty (jp_has_dri m) w h i] @
             (if jp_has_dri m then [jpeg_rhdr (jp_dri m)] else []) @
             (if i = 0 then [jpeg_qhdr, jpeg_luma m, jpeg_chroma m] else []) @
             [slice (jpeg_scan m) i n],
             jp_timestamp m, n + i = length (jpeg_scan m))) ps" .
  note fr = jpeg_frags_props [OF mtu(1) p(1)]
  have body: "jpeg_body (jpeg_vhdr ty (jp_has_dri m) w h i @ concat (if jp_has_dri m then [jpeg_rhdr (jp_dri m)] else []) @
      concat (if i = 0 then [jpeg_qhdr, jpeg_luma m, jpeg_chroma m] else []) @ d) = d" if "i < 2 ^ 24" for i d
    using jpeg_packet_body(2) [OF p(2) that, where lq = "jpeg_luma m" and cq = "jpeg_chroma m"
      and dri = "jp_has_dri m" and w = w and h = h and v = "jp_dri m" and d = d] tab
    by (auto split: if_splits)
  have "map (jpeg_body \<circ> concat \<circ> fst) calls = map (\<lambda>(i, n). slice (jpeg_scan m) i n) ps"
  proof -
    have "i < 2 ^ 24" if "(i, n) \<in> set ps" for i n using fr(2) [OF that] mtu(2) by linarith
    then show ?thesis
      unfolding p(3) map_map by (intro map_cong refl) (auto simp only: comp_apply fst_conv prod.case
        concat_append concat.simps append_Nil2 append_assoc body)
  qed
  with fr(1) show "concat (map (jpeg_body \<circ> concat \<circ> fst) calls) = jpeg_scan m" by simp
  fix call assume "call \<in> set calls"
  then obtain i n where "(i, n) \<in> set ps" "call = ([jpeg_vhdr ty (jp_has_dri m) w h i] @
             (if jp_has_dri m then [jpeg_rhdr (jp_dri m)] else []) @
             (if i = 0 then [jpeg_qhdr, jpeg_luma m, jpeg_chroma m] else []) @
             [slice (jpeg_scan m) i n], jp_timestamp m, n + i = length (jpeg_scan m))"
    unfolding p(3) by auto
  with fr(2) [of i n] tab length_slice_le [of "jpeg_scan m" i n]
  show "int (length (concat (fst call))) \<le> mtu + int 4"
    by (auto split: if_splits simp del: length_slice_le)
qed

subsection \<open>JPEG files\<close>

text \<open>
  The segments of a JPEG file as far as they matter here, and the file they make with a scan.
\<close>

datatype jpeg_seg =
    Dqt "(nat \<times> byte list) list"
  | Sof byte nat nat nat nat
  | Dri u16
  | Misc byte "byte list"

definition seg_bytes :: "byte \<Rightarrow> byte list \<Rightarrow> byte list" where
  "seg_bytes m p = [0xFF, m] @ PUT_16 (word_of_nat (length p + 2) :: u32) @ p"

definition dqt_bytes :: "(nat \<times> byte list) list \<Rightarrow> byte list" where
  "dqt_bytes ts = concat (map (\<lambda>(n, t). word_of_nat n # t) ts)"

definition sof_bytes :: "byte \<Rightarrow> nat \<Rightarrow> nat \<Rightarrow> nat \<Rightarrow> nat \<Rightarrow> byte list" where
  "sof_bytes samp h w lt ct =
     [8] @ PUT_16 (word_of_nat (8 * h) :: u32) @ PUT_16 (word_of_nat (8 * w) :: u32) @
     [3, 1, samp, word_of_nat lt, 2, 0x11, word_of_nat ct, 3, 0x11, word_of_nat ct]"

fun encode_seg :: "jpeg_seg \<Rightarrow> byte list" where
  "encode_seg (Dqt ts) = seg_bytes 0xDB (dqt_bytes ts)"
| "encode_seg (Sof samp h w lt ct) = seg_bytes 0xC0 (sof_bytes samp h w lt ct)"
| "encode_seg (Dri v) = seg_bytes 0xDD (PUT_16 v)"
| "encode_seg (Misc m p) = seg_bytes m p"

definition jpeg_file :: "jpeg_seg list \<Rightarrow> byte list \<Rightarrow> byte list \<Rightarrow> byte list" where
  "jpeg_file segs hdr scan = [0xFF, 0xD8] @ concat (map encode_seg segs) @ seg_bytes 0xDA hdr @ scan"

text \<open>The meaning of the segments: the tables, the frame header and the restart interval.\<close>

record jpeg_info =
  ji_tables :: "nat \<Rightarrow> byte list option"
  ji_frame :: "(byte \<times> nat \<times> nat \<times> nat \<times> nat) option"
  ji_dri :: "u16 option"

fun set_tables :: "(nat \<times> byte list) list \<Rightarrow> (nat \<Rightarrow> byte list option) \<Rightarrow> nat \<Rightarrow> byte list option" where
  "set_tables [] T = T"
| "set_tables ((n, t) # ts) T = set_tables ts (T(n := Some t))"

fun seg_info :: "jpeg_seg \<Rightarrow> jpeg_info \<Rightarrow> jpeg_info" where
  "seg_info (Dqt ts) s = s\<lparr>ji_tables := set_tables ts (ji_tables s)\<rparr>"
| "seg_info (Sof samp h w lt ct) s = s\<lparr>ji_frame := Some (samp, h, w, lt, ct)\<rparr>"
| "seg_info (Dri v) s = s\<lparr>ji_dri := Some v\<rparr>"
| "seg_info (Misc m p) s = s"

fun seg_wf :: "jpeg_seg \<Rightarrow> jpeg_info \<Rightarrow> bool" where
  "seg_wf (Dqt ts) s \<longleftrightarrow> list_all (\<lambda>(n, t). n < 16 \<and> length t = 64) ts \<and> length ts \<le> 1000"
| "seg_wf (Sof samp h w lt ct) s \<longleftrightarrow> samp \<in> {0x11, 0x22, 0x21} \<and> h < 8192 \<and> w < 8192 \<and>
     lt < 16 \<and> ct < 16 \<and> ji_tables s lt \<noteq> None \<and> ji_tables s ct \<noteq> None"
| "seg_wf (Dri v) s \<longleftrightarrow> True"
| "seg_wf (Misc m p) s \<longleftrightarrow> m \<notin> {0xDB, 0xC0, 0xDD, 0xDA, 0xD8} \<and> length p < 65534"

fun segs_wf :: "jpeg_seg list \<Rightarrow> jpeg_info \<Rightarrow> bool" where
  "segs_wf [] s \<longleftrightarrow> True"
| "segs_wf (g # gs) s \<longleftrightarrow> seg_wf g s \<and> segs_wf gs (seg_info g s)"

definition no_info :: jpeg_info where
  "no_info = \<lparr>ji_tables = (\<lambda>_. None), ji_frame = None, ji_dri = None\<rparr>"

text \<open>The state of the reader holds an information.\<close>

definition tables_rep :: "byte list \<Rightarrow> (nat \<Rightarrow> byte list option) \<Rightarrow> (nat \<Rightarrow> nat option) \<Rightarrow> bool" where
  "tables_rep d T quant \<longleftrightarrow> (\<forall>n. case T n of
     None \<Rightarrow> quant n = None
   | Some t \<Rightarrow> \<exists>off. quant n = Some off \<and> off + 64 \<le> length d \<and> slice d off 64 = t)"

fun frame_rep :: "(byte \<times> nat \<times> nat \<times> nat \<times> nat) option \<Rightarrow> rtp_jpeg \<Rightarrow> bool" where
  "frame_rep None out \<longleftrightarrow> True"
| "frame_rep (Some (samp, h, w, lt, ct)) out \<longleftrightarrow>
     jp_type out = Some (if samp = 0x22 then 1 else 0) \<and> jp_height out = Some (int h) \<and>
     jp_width out = Some (int w) \<and> jp_luma_table out = Some lt \<and> jp_chroma_table out = Some ct"

fun dri_rep :: "u16 option \<Rightarrow> rtp_jpeg \<Rightarrow> bool" where
  "dri_rep None out \<longleftrightarrow> \<not> jp_has_dri out"
| "dri_rep (Some v) out \<longleftrightarrow> jp_has_dri out \<and> jp_dri out = ucast v"

definition info_rep :: "byte list \<Rightarrow> jpeg_info \<Rightarrow> rtp_jpeg \<Rightarrow> bool" where
  "info_rep d s out \<longleftrightarrow> tables_rep d (ji_tables s) (jp_quant out) \<and> frame_rep (ji_frame s) out \<and>
     dri_rep (ji_dri s) out \<and> jp_data out = d"

lemma frame_rep_upd [simp]:
  "frame_rep f (out\<lparr>jp_quant := q\<rparr>) = frame_rep f out"
  "frame_rep f (out\<lparr>jp_has_dri := b, jp_dri := v\<rparr>) = frame_rep f out"
  by (induct f out rule: frame_rep.induct) simp_all

lemma dri_rep_upd [simp]:
  "dri_rep r (out\<lparr>jp_quant := q\<rparr>) = dri_rep r out"
  "dri_rep r (out\<lparr>jp_height := h, jp_width := w, jp_type := ty, jp_luma_table := lt, jp_chroma_table := ct\<rparr>) = dri_rep r out"
  by (induct r out rule: dri_rep.induct) simp_all

lemma rd_drop: "drop i d = x @ post \<Longrightarrow> k < length x \<Longrightarrow> rd d (i + k) = Some (x ! k)"
proof -
  assume d: "drop i d = x @ post" and k: "k < length x"
  have "length d - i = length x + length post" using arg_cong [OF d, of length] by simp
  then have "i + k < length d" using k by linarith
  moreover have "d ! (i + k) = drop i d ! k" using calculation by simp
  ultimately show ?thesis using d k by (simp add: nth_append)
qed

lemma get_16_drop:
  assumes "drop i d = x @ PUT_16 (v :: u32) @ post" "unat v < 65536"
  shows "get_16 d (i + length x) = Some v"
proof -
  have "rd d (i + length x) = Some (PUT_16 v ! 0)" "rd d (i + Suc (length x)) = Some (PUT_16 v ! 1)"
    using rd_drop [of i d "x @ PUT_16 v" post "length x"] rd_drop [of i d "x @ PUT_16 v" post "Suc (length x)"] assms(1)
    by (simp_all add: nth_append)
  moreover have "GET_16 (PUT_16 v ! 0) (PUT_16 v ! 1) = v"
    using GET_PUT_16 [of v] assms(2) by (simp add: word_unat_eq_iff)
  ultimately show ?thesis by (simp add: get_16_def)
qed

lemma table_nibbles: "n < 16 \<Longrightarrow> (word_of_nat n :: byte) AND 0xF0 = 0 \<and> unat ((word_of_nat n :: byte) AND 0xF) = n \<and>
    unat (word_of_nat n :: byte) = n"
proof -
  have "list_all (\<lambda>n. (word_of_nat n :: byte) AND 0xF0 = 0 \<and> unat ((word_of_nat n :: byte) AND 0xF) = n \<and>
    unat (word_of_nat n :: byte) = n) [0..<16]" by code_simp
  moreover assume "n < 16"
  ultimately show ?thesis unfolding list_all_iff by simp
qed

lemma tables_rep_upd:
  assumes "tables_rep d T q" "off + 64 \<le> length d" "slice d off 64 = t"
  shows "tables_rep d (T(n := Some t)) (q(n := Some off))"
  unfolding tables_rep_def
proof
  fix m
  show "case (T(n := Some t)) m of None \<Rightarrow> (q(n := Some off)) m = None
     | Some t \<Rightarrow> \<exists>o'. (q(n := Some off)) m = Some o' \<and> o' + 64 \<le> length d \<and> slice d o' 64 = t"
    using assms unfolding tables_rep_def by (cases "m = n") (auto dest: spec [of _ m] split: option.splits)
qed

lemma parse_DQT_tables:
  "\<lbrakk>drop (off + nat i) d = dqt_bytes ts @ post; len = i + 65 * int (length ts); 0 \<le> i;
    list_all (\<lambda>(n, t). n < 16 \<and> length t = 64) ts; tables_rep d T (jp_quant out)\<rbrakk> \<Longrightarrow>
   \<exists>q. parse_DQT d off len i out = Some (True, out\<lparr>jp_quant := q\<rparr>) \<and>
     tables_rep d (set_tables ts T) q"
proof (induction ts arbitrary: i T out)
  case Nil
  then show ?case by (intro exI [of _ "jp_quant out"]) (simp add: parse_DQT.simps)
next
  case (Cons nt ts)
  obtain n t where nt: "nt = (n, t)" by (rule prod.exhaust)
  have nt': "n < 16" "length t = 64" using Cons.prems(4) by (simp_all add: nt)
  let ?q = "(jp_quant out)(n := Some (off + nat i + 1))"
  have d: "drop (off + nat i) d = (word_of_nat n # t) @ dqt_bytes ts @ post"
    using Cons.prems(1) by (simp add: nt dqt_bytes_def)
  have b: "rd d (off + nat i) = Some (word_of_nat n)" using rd_drop [OF d, of 0] by simp
  have d1: "drop (Suc (off + nat i)) d = t @ dqt_bytes ts @ post" using d by (metis append_Cons drop_Suc list.sel(3) tl_drop)
  have "length d - Suc (off + nat i) = 64 + length (dqt_bytes ts @ post)" using arg_cong [OF d1, of length] nt'(2) by simp
  then have tab: "Suc (off + nat i) + 64 \<le> length d" "slice d (Suc (off + nat i)) 64 = t"
    using d1 nt'(2) by (simp_all add: slice_def)
  have d2: "drop (off + nat (i + 65)) d = dqt_bytes ts @ post"
    using arg_cong [OF d, of "drop 65"] nt'(2) Cons.prems(3) by (simp add: nat_add_distrib ac_simps)
  have rep: "tables_rep d (T(n := Some t)) (jp_quant (out\<lparr>jp_quant := ?q\<rparr>))" using tables_rep_upd [OF Cons.prems(5) tab] by simp
  have "\<exists>q. parse_DQT d off len (i + 65) (out\<lparr>jp_quant := ?q\<rparr>) = Some (True, (out\<lparr>jp_quant := ?q\<rparr>)\<lparr>jp_quant := q\<rparr>) \<and>
     tables_rep d (set_tables ts (T(n := Some t))) q"
    by (rule Cons.IH [OF d2 _ _ _ rep]) (use Cons.prems(2-4) in simp_all)
  moreover have "parse_DQT d off len i out = parse_DQT d off len (i + 65) (out\<lparr>jp_quant := ?q\<rparr>)"
    using Cons.prems(2) b table_nibbles [OF nt'(1)] by (subst parse_DQT.simps) simp
  ultimately show ?case by (simp add: nt)
qed

lemma get_16_at:
  "drop i d = x @ PUT_16 (v :: u32) @ post \<Longrightarrow> unat v < 65536 \<Longrightarrow> k = length x \<Longrightarrow> get_16 d (i + k) = Some v"
  using get_16_drop by simp

lemma unat_word_of_nat_u32: "n < 65536 \<Longrightarrow> unat (word_of_nat n :: u32) = n"
  by (simp add: unsigned_of_nat take_bit_nat_eq_self)

lemma and_7_mult: "(word_of_nat (8 * n) :: u32) AND 7 = 0"
proof -
  have "(word_of_nat (8 * n) :: u32) AND 7 = take_bit 3 (word_of_nat (8 * n))"
    by (simp add: take_bit_eq_mask mask_eq_exp_minus_1)
  also have "\<dots> = word_of_nat (take_bit 3 (8 * n))" by (rule take_bit_of_nat)
  also have "take_bit 3 (8 * n) = 0" by (simp add: take_bit_eq_mod)
  finally show ?thesis by simp
qed

lemma parse_SOF_frame:
  assumes d: "drop off d = sof_bytes samp h w lt ct @ post"
    and wf: "samp \<in> {0x11, 0x22, 0x21}" "h < 8192" "w < 8192" "lt < 16" "ct < 16"
    and q: "jp_quant out lt \<noteq> None" "jp_quant out ct \<noteq> None"
  shows "parse_SOF d off out = Some (True, out\<lparr>jp_height := Some (int h), jp_width := Some (int w),
    jp_type := Some (if samp = 0x22 then 1 else 0), jp_luma_table := Some lt, jp_chroma_table := Some ct\<rparr>)"
proof -
  define hv wv where v: "hv = (word_of_nat (8 * h) :: u32)" "wv = (word_of_nat (8 * w) :: u32)"
  have v16: "unat hv = 8 * h" "unat wv = 8 * w"
    unfolding v using wf(2,3) by (intro unat_word_of_nat_u32; simp)+
  let ?cs = "[3, 1, samp, word_of_nat lt, 2, 0x11, word_of_nat ct, 3, 0x11, word_of_nat ct]"
  have bytes: "sof_bytes samp h w lt ct = [8] @ PUT_16 hv @ PUT_16 wv @ ?cs"
    by (simp only: sof_bytes_def v)
  have d1: "drop off d = [8] @ PUT_16 hv @ PUT_16 wv @ ?cs @ post"
    "drop off d = ([8] @ PUT_16 hv) @ PUT_16 wv @ ?cs @ post" using d by (simp_all add: bytes)
  have hw: "get_16 d (off + 1) = Some hv" "get_16 d (off + 3) = Some wv"
    using get_16_at [OF d1(1), of 1] get_16_at [OF d1(2), of 3] wf(2,3) v16 by simp_all
  have "length (sof_bytes samp h w lt ct) = 15" by (simp add: bytes)
  note r = rd_drop [OF d, unfolded this]
  have rd: "rd d off = Some 8" "rd d (off + 5) = Some 3" "rd d (off + 6) = Some 1" "rd d (off + 6 + 1) = Some samp"
    "rd d (off + 6 + 2) = Some (word_of_nat lt)" "rd d (off + 9) = Some 2" "rd d (off + 9 + 1) = Some 0x11"
    "rd d (off + 9 + 2) = Some (word_of_nat ct)" "rd d (off + 12) = Some 3" "rd d (off + 12 + 1) = Some 0x11"
    "rd d (off + 12 + 2) = Some (word_of_nat ct)"
    using r [of 0] r [of 5] r [of 6] r [of 7] r [of 8] r [of 9] r [of 10] r [of 11] r [of 12] r [of 13] r [of 14]
    by (simp_all add: bytes nth_append PUT_16_def ac_simps)
  have n: "unat (word_of_nat lt :: byte) = lt" "unat (word_of_nat ct :: byte) = ct"
    using table_nibbles wf(4,5) by simp_all
  have div8: "uint hv div 8 = int h" "uint wv div 8 = int w" using v16 by (simp_all add: uint_nat)
  have and7: "hv AND 7 = 0" "wv AND 7 = 0" unfolding v by (rule and_7_mult)+
  show ?thesis
    using wf q unfolding parse_SOF_def Let_def
    by (auto simp: rd [simplified] hw [simplified] and7 sof_component_def n div8)
qed

lemma seg_bytes_drop:
  assumes "drop i d = seg_bytes m p @ post" "length p < 65534"
  shows "rd d i = Some 0xFF" "rd d (i + 1) = Some m" "get_16 d (i + 2) = Some (word_of_nat (length p + 2))"
    "drop (i + 4) d = p @ post" "i < length d"
    "drop (i + (length p + 2 + 2)) d = post"
proof -
  let ?v = "word_of_nat (length p + 2) :: u32"
  have v: "unat ?v = length p + 2" using assms(2) by (intro unat_word_of_nat_u32) simp
  have d: "drop i d = [0xFF, m] @ PUT_16 ?v @ p @ post" using assms(1) by (simp add: seg_bytes_def)
  show "rd d i = Some 0xFF" "rd d (i + 1) = Some m"
    using rd_drop [OF d, of 0] rd_drop [OF d, of 1] by simp_all
  show "get_16 d (i + 2) = Some ?v" using assms(2) v by (intro get_16_at [OF d]) simp_all
  show d4: "drop (i + 4) d = p @ post" using arg_cong [OF d, of "drop 4"] by (simp add: ac_simps)
  show "i < length d" using d by (metis append_is_Nil_conv drop_eq_Nil leI list.discI)
  show "drop (i + (length p + 2 + 2)) d = post"
    using arg_cong [OF d4, of "drop (length p)"] by (simp add: eval_nat_numeral ac_simps)
qed

text \<open>One segment keeps the reader's state in step with the information.\<close>

lemma jpeg_segment_info:
  assumes "drop i d = encode_seg g @ post" "seg_wf g s" "info_rep d s out"
  shows "\<exists>m p out'. encode_seg g = seg_bytes m p \<and> length p < 65534 \<and> m \<noteq> 0xD8 \<and> m \<noteq> 0xDA \<and>
    jpeg_segment d i m (length p + 2) out = Some (True, out') \<and> info_rep d (seg_info g s) out'"
proof (cases g)
  case (Dqt ts)
  have wf: "list_all (\<lambda>(n, t). n < 16 \<and> length t = 64) ts" "length ts \<le> 1000" using assms(2) Dqt by simp_all
  have "list_all (\<lambda>(n, t). n < 16 \<and> length t = 64) ts \<Longrightarrow> length (dqt_bytes ts) = 65 * length ts"
    by (induction ts) (auto simp: dqt_bytes_def)
  then have len: "length (dqt_bytes ts) = 65 * length ts" using wf by simp
  have d: "drop i d = seg_bytes 0xDB (dqt_bytes ts) @ post" using assms(1) Dqt by simp
  have short: "length (dqt_bytes ts) < 65534" using len wf by simp
  have "drop (i + 4 + nat 0) d = dqt_bytes ts @ post" using seg_bytes_drop(4) [OF d short] by simp
  moreover have "tables_rep d (ji_tables s) (jp_quant out)" using assms(3) by (simp add: info_rep_def)
  ultimately obtain q where "parse_DQT d (i + 4) (65 * int (length ts)) 0 out = Some (True, out\<lparr>jp_quant := q\<rparr>)"
    "tables_rep d (set_tables ts (ji_tables s)) q"
    using parse_DQT_tables [of "i + 4" 0 d ts post "65 * int (length ts)" "ji_tables s" out] wf by auto
  with assms(3) Dqt short len show ?thesis
    by (intro exI [of _ "0xDB"] exI [of _ "dqt_bytes ts"] exI [of _ "out\<lparr>jp_quant := q\<rparr>"])
      (simp add: jpeg_segment_def info_rep_def)
next
  case (Sof samp h w lt ct)
  let ?p = "sof_bytes samp h w lt ct"
  have len: "length ?p = 15" by (simp add: sof_bytes_def)
  have d: "drop i d = seg_bytes 0xC0 ?p @ post" using assms(1) Sof by simp
  have off: "drop (i + 4) d = ?p @ post" using seg_bytes_drop(4) [OF d] len by simp
  have wf: "samp \<in> {0x11, 0x22, 0x21}" "h < 8192" "w < 8192" "lt < 16" "ct < 16"
    "ji_tables s lt \<noteq> None" "ji_tables s ct \<noteq> None" using assms(2) Sof by simp_all
  have "jp_quant out lt \<noteq> None" "jp_quant out ct \<noteq> None"
    using assms(3) wf(6,7) unfolding info_rep_def tables_rep_def by (force split: option.splits)+
  then have parse: "parse_SOF d (i + 4) out = Some (True, out\<lparr>jp_height := Some (int h), jp_width := Some (int w),
      jp_type := Some (if samp = 0x22 then 1 else 0), jp_luma_table := Some lt, jp_chroma_table := Some ct\<rparr>)"
    (is "_ = Some (True, ?out)") by (rule parse_SOF_frame [OF off wf(1-5)])
  have "info_rep d (seg_info g s) ?out" using assms(3) Sof by (simp add: info_rep_def)
  with parse Sof len show ?thesis
    by (intro exI [of _ "0xC0"] exI [of _ ?p] exI [of _ ?out]) (simp add: jpeg_segment_def)
next
  case (Dri v)
  have d: "drop i d = seg_bytes 0xDD (PUT_16 v) @ post" using assms(1) Dri by simp
  have v: "PUT_16 v = PUT_16 (ucast v :: u32)"
    unfolding PUT_16_def list.inject by (intro conjI bit_word_eqI) (simp_all add: bit_simps)
  have "drop (i + 4) d = [] @ PUT_16 (ucast v :: u32) @ post" using seg_bytes_drop(4) [OF d] v by simp
  moreover have "unat (ucast v :: u32) < 65536" using unsigned_less [of v, where 'a = nat]
    by (simp add: unsigned_ucast_eq take_bit_nat_eq_self)
  ultimately have "get_16 d (i + 4) = Some (ucast v)" using get_16_at [of "i + 4" d "[]" "ucast v" post 0] by simp
  then have parse: "parse_DRI d (i + 4) out = Some (True, out\<lparr>jp_has_dri := True, jp_dri := ucast v\<rparr>)"
    (is "_ = Some (True, ?out)") by (simp add: parse_DRI_def)
  have "info_rep d (seg_info g s) ?out" using assms(3) Dri by (simp add: info_rep_def)
  with parse Dri show ?thesis
    by (intro exI [of _ "0xDD"] exI [of _ "PUT_16 v"] exI [of _ ?out]) (simp add: jpeg_segment_def)
next
  case (Misc m p)
  with assms show ?thesis by (intro exI [of _ m] exI [of _ p] exI [of _ out]) (simp add: jpeg_segment_def)
qed

lemma jpeg_markers_segs:
  "\<lbrakk>drop i d = concat (map encode_seg gs) @ seg_bytes 0xDA hdr @ scan; length hdr < 65534;
    segs_wf gs s; info_rep d s out\<rbrakk> \<Longrightarrow>
   \<exists>out'. jpeg_markers now d i out = Some (True, out') \<and> info_rep d (fold seg_info gs s) out' \<and>
     jpeg_scan out' = scan \<and> jp_scan_data_len out' = int (length scan)"
proof (induction gs arbitrary: i s out)
  case Nil
  have d: "drop i d = seg_bytes 0xDA hdr @ scan" using Nil.prems(1) by simp
  note sb = seg_bytes_drop [OF d Nil.prems(2)]
  have n: "unat (word_of_nat (length hdr + 2) :: u32) = length hdr + 2"
    using Nil.prems(2) by (intro unat_word_of_nat_u32) simp
  let ?out = "out\<lparr>jp_init_done := True, jp_scan_data := i + 2 + (length hdr + 2),
    jp_scan_data_len := int (length d) - int i - 2 - int (length hdr + 2), jp_timestamp := ucast (now * 90)\<rparr>"
  have "jpeg_markers now d i out = Some (True, ?out)"
    using sb(1,2,3,5) n by (subst jpeg_markers.simps) (simp del: of_nat_add)
  moreover have "info_rep d s ?out"
    using Nil.prems(4) unfolding info_rep_def by (cases "ji_frame s"; cases "ji_dri s") auto
  moreover have "jpeg_scan ?out = scan"
    using sb(6) Nil.prems(4) by (simp add: jpeg_scan_def info_rep_def ac_simps)
  moreover have "int (length d) - int i - 2 - int (length hdr + 2) = int (length scan)"
    using arg_cong [OF d, of length] sb(5) by (simp add: seg_bytes_def)
  ultimately show ?case by (intro exI [of _ ?out]) simp
next
  case (Cons g gs)
  let ?post = "concat (map encode_seg gs) @ seg_bytes 0xDA hdr @ scan"
  have d: "drop i d = encode_seg g @ ?post" using Cons.prems(1) by simp
  have wf: "seg_wf g s" "segs_wf gs (seg_info g s)" using Cons.prems(3) by simp_all
  from jpeg_segment_info [OF d wf(1) Cons.prems(4)] obtain m p out1 where
    g: "encode_seg g = seg_bytes m p" "length p < 65534" "m \<noteq> 0xD8" "m \<noteq> 0xDA"
      "jpeg_segment d i m (length p + 2) out = Some (True, out1)" "info_rep d (seg_info g s) out1" by blast
  note sb = seg_bytes_drop [OF d [unfolded g(1)] g(2)]
  have n: "unat (word_of_nat (length p + 2) :: u32) = length p + 2"
    using g(2) by (intro unat_word_of_nat_u32) simp
  have "jpeg_markers now d i out = jpeg_markers now d (i + (length p + 2 + 2)) out1"
    using sb(1,2,3,5) n g(3,4,5) by (subst jpeg_markers.simps) (simp del: of_nat_add)
  with Cons.IH [OF sb(6) Cons.prems(2) wf(2) g(6)] show ?case by simp
qed

text \<open>A whole file, from the media state an earlier frame left behind.\<close>

lemma jpeg_process_file:
  assumes "length hdr < 65534" "segs_wf gs no_info" "mf_d f = jpeg_file gs hdr scan"
  obtains out' where "jpeg_process_frame now f out = Some (True, out')"
    "info_rep (mf_d f) (fold seg_info gs no_info) out'"
    "jpeg_scan out' = scan" "jp_scan_data_len out' = int (length scan)"
proof -
  let ?d = "mf_d f"
  let ?out = "out\<lparr>jp_has_dri := False, jp_quant := (\<lambda>_. None), jp_data := ?d\<rparr>"
  have d: "?d = [0xFF, 0xD8] @ concat (map encode_seg gs) @ seg_bytes 0xDA hdr @ scan"
    using assms(3) by (simp add: jpeg_file_def)
  have soi: "rd ?d 0 = Some 0xFF" "rd ?d 1 = Some 0xD8" "0 < length ?d" by (simp_all add: d)
  have "info_rep ?d no_info ?out" by (simp add: info_rep_def tables_rep_def no_info_def)
  moreover have "drop 2 ?d = concat (map encode_seg gs) @ seg_bytes 0xDA hdr @ scan" by (simp add: d)
  ultimately obtain out' where "jpeg_markers now ?d 2 ?out = Some (True, out')"
    "info_rep ?d (fold seg_info gs no_info) out'" "jpeg_scan out' = scan" "jp_scan_data_len out' = int (length scan)"
    using jpeg_markers_segs [OF _ assms(1,2)] by blast
  moreover have "jpeg_process_frame now f out = jpeg_markers now ?d 2 ?out"
    unfolding jpeg_process_frame_def using soi
    by (subst jpeg_markers.simps) (simp add: jpeg_segment_def, simp only: numeral_2_eq_2)
  ultimately show ?thesis using that by simp
qed

text \<open>The tables a frame header names stay defined.\<close>

definition frame_tables :: "jpeg_info \<Rightarrow> bool" where
  "frame_tables s \<longleftrightarrow> (\<forall>samp h w lt ct. ji_frame s = Some (samp, h, w, lt, ct) \<longrightarrow>
     ji_tables s lt \<noteq> None \<and> ji_tables s ct \<noteq> None)"

lemma set_tables_keep: "T n = Some t \<Longrightarrow> \<exists>t'. set_tables ts T n = Some t'"
proof (induction ts arbitrary: T t)
  case (Cons mu ts)
  obtain m u where mu: "mu = (m, u)" by (rule prod.exhaust)
  have "\<exists>t. (T(m := Some u)) n = Some t" using Cons.prems by simp
  then show ?case unfolding mu set_tables.simps using Cons.IH by blast
qed simp

lemma frame_tables_segs: "segs_wf gs s \<Longrightarrow> frame_tables s \<Longrightarrow> frame_tables (fold seg_info gs s)"
proof (induction gs arbitrary: s)
  case (Cons g gs)
  have "frame_tables (seg_info g s)"
    using Cons.prems by (cases g) (auto simp: frame_tables_def intro: set_tables_keep)
  with Cons show ?case by simp
qed simp

lemma jpeg_file_ok:
  assumes "info_rep d s out" "ji_frame s = Some (samp, h, w, lt, ct)" "frame_tables s"
    "jp_scan_data_len out = int (length (jpeg_scan out))" "length (jpeg_scan out) < 2 ^ 24" "144 < mtu"
  shows "jpeg_ok out mtu" "jpeg_luma out = the (ji_tables s lt)" "jpeg_chroma out = the (ji_tables s ct)"
proof -
  from assms(2,3) obtain lq cq where t: "ji_tables s lt = Some lq" "ji_tables s ct = Some cq"
    by (auto simp: frame_tables_def)
  have q: "\<exists>off. jp_quant out n = Some off \<and> off + 64 \<le> length d \<and> slice d off 64 = t" if "ji_tables s n = Some t" for n t
    using assms(1) that unfolding info_rep_def tables_rep_def by (auto dest: spec [of _ n])
  obtain lo where lo: "jp_quant out lt = Some lo" "lo + 64 \<le> length d" "slice d lo 64 = lq" using q [OF t(1)] by auto
  obtain co where co: "jp_quant out ct = Some co" "co + 64 \<le> length d" "slice d co 64 = cq" using q [OF t(2)] by auto
  show "jpeg_ok out mtu" using assms lo co by (auto simp: jpeg_ok_def info_rep_def)
  show "jpeg_luma out = the (ji_tables s lt)" "jpeg_chroma out = the (ji_tables s ct)"
    using assms(1,2) lo co t by (auto simp: jpeg_luma_def jpeg_chroma_def info_rep_def)
qed

text \<open>The packet at the start of the scan carries both tables.\<close>

lemma jpeg_first_packet:
  assumes "jpeg_ok out mtu" "jpeg_packets out mtu = Some calls" "jpeg_scan out \<noteq> []"
  shows "calls \<noteq> [] \<and> jpeg_tables (concat (fst (hd calls))) = jpeg_luma out @ jpeg_chroma out"
proof -
  from jpeg_packets_calls [OF assms(1,2)] obtain ps ty w h where
    p: "jpeg_frags (int (length (jpeg_scan out))) mtu (jp_has_dri out) = Some ps" "ty = 0 \<or> ty = 1"
    "calls = map (\<lambda>(i, n).
            ([jpeg_vhdr ty (jp_has_dri out) w h i] @
             (if jp_has_dri out then [jpeg_rhdr (jp_dri out)] else []) @
             (if i = 0 then [jpeg_qhdr, jpeg_luma out, jpeg_chroma out] else []) @
             [slice (jpeg_scan out) i n],
             jp_timestamp out, n + i = length (jpeg_scan out))) ps" .
  have len: "144 < mtu" "0 < int (length (jpeg_scan out))" using assms(1,3) by (simp_all add: jpeg_ok_def)
  obtain n qs where "jpeg_frags (int (length (jpeg_scan out))) mtu (jp_has_dri out) = Some ((0, n) # qs)"
    by (rule jpeg_frags_cases [OF len])
  with p(1) have ps: "ps = (0, n) # qs" by simp
  show ?thesis
    using jpeg_packet_body(3) [OF p(2), of 0 "jpeg_luma out" "jpeg_chroma out" "jp_has_dri out" w h "jp_dri out"
      "slice (jpeg_scan out) 0 n"] jpeg_tables_length [OF assms(1)]
    unfolding p(3) ps by (auto split: if_splits)
qed

text \<open>
  C18: for a JPEG file of any segments whose frame header names defined tables, \<open>jpeg_process_frame\<close> finds
  the scan, and a receiver gets back exactly the scan data from the datagrams in any order and, with
  the first one, exactly the two quantization tables. A datagram exceeds the transport size by at
  most the four bytes of the restart header.
\<close>

theorem jpeg_stream:
  assumes "length hdr < 65534" "segs_wf gs no_info" "mf_d f = jpeg_file gs hdr scan"
    "ji_frame (fold seg_info gs no_info) = Some (samp, h, w, lt, ct)"
    "length scan < 2 ^ 24" "144 < mtu" "seq_ok ep"
  shows "\<exists>out' calls. jpeg_process_frame now f out = Some (True, out') \<and> jpeg_packets out' mtu = Some calls \<and>
    (length calls \<le> 65536 \<longrightarrow> (\<forall>ds ep' ds'. rtp_packets calls ep = (ds, ep') \<longrightarrow> set ds' = set ds \<longrightarrow>
       (let ps = receive ds' (ep_seqnum ep) (length calls) in
        concat (map jpeg_body ps) = scan \<and>
        (scan \<noteq> [] \<longrightarrow> jpeg_tables (hd ps) = the (ji_tables (fold seg_info gs no_info) lt) @
           the (ji_tables (fold seg_info gs no_info) ct)) \<and>
        (\<forall>d \<in> set ds'. int (length (rtp_body d)) \<le> mtu + 4))))"
proof -
  let ?s = "fold seg_info gs no_info"
  obtain out' where out': "jpeg_process_frame now f out = Some (True, out')" "info_rep (mf_d f) ?s out'"
    "jpeg_scan out' = scan" "jp_scan_data_len out' = int (length scan)"
    by (rule jpeg_process_file [OF assms(1-3)])
  have tabs: "frame_tables ?s"
    by (rule frame_tables_segs [OF assms(2)]) (simp add: frame_tables_def no_info_def)
  note ok = jpeg_file_ok [OF out'(2) assms(4) tabs, unfolded out'(3), OF out'(4) assms(5,6)]
  from jpeg.packets_total [OF ok(1)] obtain calls where calls: "jpeg_packets out' mtu = Some calls" by auto
  show ?thesis
  proof (intro exI conjI impI allI)
    fix ds ep' ds' assume n: "length calls \<le> 65536" and ds: "rtp_packets calls ep = (ds, ep')" "set ds' = set ds"
    note r = receive_packets [OF assms(7) ds(1) n ds(2)]
    have "jpeg_tables (hd (map (concat \<circ> fst) calls)) = jpeg_luma out' @ jpeg_chroma out'" if "scan \<noteq> []"
      using jpeg_first_packet [OF ok(1) calls] that out'(3) by (simp add: hd_map)
    with jpeg.frame_recovered [OF ok(1) calls n assms(7) ds] ok(2,3) out'(3)
    show "let ps = receive ds' (ep_seqnum ep) (length calls) in
        concat (map jpeg_body ps) = scan \<and>
        (scan \<noteq> [] \<longrightarrow> jpeg_tables (hd ps) = the (ji_tables ?s lt) @ the (ji_tables ?s ct)) \<and>
        (\<forall>d \<in> set ds'. int (length (rtp_body d)) \<le> mtu + 4)"
      unfolding r by (simp add: Let_def)
  qed (rule out'(1) calls)+
qed

theorem jpeg_stream_witness:
  "\<exists>out' calls. jpeg_process_frame 5 \<lparr>mf_d = jpeg_file [Dqt [(0, replicate 64 7)], Dri 9, Sof 0x21 2 3 0 0] [1, 2] [40, 41, 42],
        mf_key = 1, mf_timestamp = 0\<rparr> new_rtp_media_jpeg = Some (True, out') \<and>
     jpeg_packets out' 145 = Some calls \<and>
     (length calls \<le> 65536 \<longrightarrow>
       concat (map jpeg_body (receive (fst (rtp_packets calls (new_rtp_endpoint 0 26 [] [] [] (0, 0) (0, 0)))) 0 (length calls)))
         = [40, 41, 42])"
proof -
  let ?ep = "new_rtp_endpoint 0 26 [] [] [] (0, 0) (0, 0)"
  let ?gs = "[Dqt [(0, replicate 64 7)], Dri 9, Sof 0x21 2 3 0 0]"
  let ?f = "\<lparr>mf_d = jpeg_file ?gs [1, 2] [40, 41, 42], mf_key = 1, mf_timestamp = 0\<rparr>"
  have ep: "seq_ok ?ep" "ep_seqnum ?ep = 0" by (simp_all add: seq_ok_def new_rtp_endpoint_def le_bytes_def)
  have wf: "segs_wf ?gs no_info" "ji_frame (fold seg_info ?gs no_info) = Some (0x21, 2, 3, 0, 0)"
    by (simp_all add: no_info_def)
  obtain out' calls where o: "jpeg_process_frame 5 ?f new_rtp_media_jpeg = Some (True, out')"
    "jpeg_packets out' 145 = Some calls" and
    *: "length calls \<le> 65536 \<longrightarrow> (\<forall>ds ep' ds'. rtp_packets calls ?ep = (ds, ep') \<longrightarrow> set ds' = set ds \<longrightarrow>
       (let ps = receive ds' (ep_seqnum ?ep) (length calls) in
        concat (map jpeg_body ps) = [40, 41, 42] \<and>
        ([40, 41, 42] \<noteq> ([] :: byte list) \<longrightarrow> jpeg_tables (hd ps) = the (ji_tables (fold seg_info ?gs no_info) 0) @
           the (ji_tables (fold seg_info ?gs no_info) 0)) \<and>
        (\<forall>d \<in> set ds'. int (length (rtp_body d)) \<le> 145 + 4)))"
    using jpeg_stream [OF _ wf(1) _ wf(2) _ _ ep(1), of "[1, 2]" ?f "[40, 41, 42]" 145 5 new_rtp_media_jpeg] by auto
  obtain ds ep' where ds: "rtp_packets calls ?ep = (ds, ep')" by (rule prod.exhaust)
  show ?thesis using o * [rule_format, OF _ ds refl] ds ep(2)
    by (intro exI [of _ out'] exI [of _ calls]) (simp add: Let_def)
qed


end
