(* ===== verification/Md5.thy ===== *)
theory Md5
  imports Prelude
begin

text \<open>
  The MD5 implementation (md5.c): a context with the running state, the bit count and a 64-byte input
  buffer, updated piece by piece. It is shown to compute the digest that RFC 1321 defines on the whole
  message, however the message is cut into pieces.
\<close>

subsection \<open>The compression function\<close>

type_synonym md5_state = "u32 \<times> u32 \<times> u32 \<times> u32"

datatype md5_fun = F1 | F2 | F3 | F4

fun md5_f :: "md5_fun \<Rightarrow> u32 \<Rightarrow> u32 \<Rightarrow> u32 \<Rightarrow> u32" where
  "md5_f F1 x y z = z XOR (x AND (y XOR z))"
| "md5_f F2 x y z = y XOR (z AND (x XOR y))"
| "md5_f F3 x y z = x XOR y XOR z"
| "md5_f F4 x y z = y XOR (x OR NOT z)"

definition rotl :: "u32 \<Rightarrow> nat \<Rightarrow> u32" where
  "rotl w s = push_bit s w OR drop_bit (32 - s) w"

definition MD5STEP :: "md5_fun \<Rightarrow> u32 \<Rightarrow> u32 \<Rightarrow> u32 \<Rightarrow> u32 \<Rightarrow> u32 \<Rightarrow> nat \<Rightarrow> u32" where
  "MD5STEP f w x y z dat s = rotl (w + (md5_f f x y z + dat)) s + x"

text \<open>
  The 64 steps of \<open>MD5Transform\<close>: function, input word, constant and rotation. The registers change
  their roles from one step to the next in the cycle \<open>a, d, c, b\<close>.
\<close>

definition md5_steps :: "(md5_fun \<times> nat \<times> u32 \<times> nat) list" where
  "md5_steps =
    [
     (F1, 0, 0xd76aa478, 7), (F1, 1, 0xe8c7b756, 12), (F1, 2, 0x242070db, 17), (F1, 3, 0xc1bdceee, 22),
     (F1, 4, 0xf57c0faf, 7), (F1, 5, 0x4787c62a, 12), (F1, 6, 0xa8304613, 17), (F1, 7, 0xfd469501, 22),
     (F1, 8, 0x698098d8, 7), (F1, 9, 0x8b44f7af, 12), (F1, 10, 0xffff5bb1, 17), (F1, 11, 0x895cd7be, 22),
     (F1, 12, 0x6b901122, 7), (F1, 13, 0xfd987193, 12), (F1, 14, 0xa679438e, 17), (F1, 15, 0x49b40821, 22),
     (F2, 1, 0xf61e2562, 5), (F2, 6, 0xc040b340, 9), (F2, 11, 0x265e5a51, 14), (F2, 0, 0xe9b6c7aa, 20),
     (F2, 5, 0xd62f105d, 5), (F2, 10, 0x02441453, 9), (F2, 15, 0xd8a1e681, 14), (F2, 4, 0xe7d3fbc8, 20),
     (F2, 9, 0x21e1cde6, 5), (F2, 14, 0xc33707d6, 9), (F2, 3, 0xf4d50d87, 14), (F2, 8, 0x455a14ed, 20),
     (F2, 13, 0xa9e3e905, 5), (F2, 2, 0xfcefa3f8, 9), (F2, 7, 0x676f02d9, 14), (F2, 12, 0x8d2a4c8a, 20),
     (F3, 5, 0xfffa3942, 4), (F3, 8, 0x8771f681, 11), (F3, 11, 0x6d9d6122, 16), (F3, 14, 0xfde5380c, 23),
     (F3, 1, 0xa4beea44, 4), (F3, 4, 0x4bdecfa9, 11), (F3, 7, 0xf6bb4b60, 16), (F3, 10, 0xbebfbc70, 23),
     (F3, 13, 0x289b7ec6, 4), (F3, 0, 0xeaa127fa, 11), (F3, 3, 0xd4ef3085, 16), (F3, 6, 0x04881d05, 23),
     (F3, 9, 0xd9d4d039, 4), (F3, 12, 0xe6db99e5, 11), (F3, 15, 0x1fa27cf8, 16), (F3, 2, 0xc4ac5665, 23),
     (F4, 0, 0xf4292244, 6), (F4, 7, 0x432aff97, 10), (F4, 14, 0xab9423a7, 15), (F4, 5, 0xfc93a039, 21),
     (F4, 12, 0x655b59c3, 6), (F4, 3, 0x8f0ccc92, 10), (F4, 10, 0xffeff47d, 15), (F4, 1, 0x85845dd1, 21),
     (F4, 8, 0x6fa87e4f, 6), (F4, 15, 0xfe2ce6e0, 10), (F4, 6, 0xa3014314, 15), (F4, 13, 0x4e0811a1, 21),
     (F4, 4, 0xf7537e82, 6), (F4, 11, 0xbd3af235, 10), (F4, 2, 0x2ad7d2bb, 15), (F4, 9, 0xeb86d391, 21)
    ]"

definition md5_step :: "u32 list \<Rightarrow> md5_fun \<times> nat \<times> u32 \<times> nat \<Rightarrow> md5_state \<Rightarrow> md5_state" where
  "md5_step inp st abcd =
     (case st of (f, k, t, s) \<Rightarrow> case abcd of (a, b, c, d) \<Rightarrow>
        (d, MD5STEP f a b c d (inp ! k + t) s, b, c))"

definition MD5Transform :: "md5_state \<Rightarrow> u32 list \<Rightarrow> md5_state" where
  "MD5Transform buf inp =
     (case buf of (a0, b0, c0, d0) \<Rightarrow>
      case fold (md5_step inp) md5_steps buf of (a, b, c, d) \<Rightarrow> (a0 + a, b0 + b, c0 + c, d0 + d))"

subsection \<open>Contexts\<close>

record md5_context =
  md5_buf :: md5_state
  md5_bits :: "u32 \<times> u32"
  md5_in :: "byte list"

text \<open>The 32-bit words of a byte array on a little-endian machine, and the bytes of a word.\<close>

definition le_word :: "byte \<Rightarrow> byte \<Rightarrow> byte \<Rightarrow> byte \<Rightarrow> u32" where
  "le_word a b c d = ucast a OR push_bit 8 (ucast b) OR push_bit 16 (ucast c) OR push_bit 24 (ucast d)"

fun le_words :: "byte list \<Rightarrow> u32 list" where
  "le_words (a # b # c # d # s) = le_word a b c d # le_words s"
| "le_words _ = []"

definition le_put :: "u32 \<Rightarrow> byte list" where
  "le_put w = [ucast w, ucast (drop_bit 8 w), ucast (drop_bit 16 w), ucast (drop_bit 24 w)]"

text \<open>\<open>garbage\<close> is what the uninitialised input buffer holds.\<close>

definition MD5_INIT :: md5_state where
  "MD5_INIT = (0x67452301, 0xefcdab89, 0x98badcfe, 0x10325476)"

definition MD5Init :: "byte list \<Rightarrow> md5_context" where
  "MD5Init garbage = \<lparr>md5_buf = MD5_INIT, md5_bits = (0, 0), md5_in = garbage\<rparr>"

definition memcpy_at :: "byte list \<Rightarrow> nat \<Rightarrow> byte list \<Rightarrow> byte list" where
  "memcpy_at d i s = take i d @ s @ drop (i + length s) d"

definition md5_block :: "md5_context \<Rightarrow> md5_context" where
  "md5_block ctx = ctx\<lparr>md5_buf := MD5Transform (md5_buf ctx) (le_words (md5_in ctx))\<rparr>"

fun md5_chunks :: "md5_context \<Rightarrow> byte list \<Rightarrow> md5_context" where
  "md5_chunks ctx buf =
     (if 64 \<le> length buf
      then md5_chunks (md5_block (ctx\<lparr>md5_in := memcpy_at (md5_in ctx) 0 (take 64 buf)\<rparr>)) (drop 64 buf)
      else ctx\<lparr>md5_in := memcpy_at (md5_in ctx) 0 buf\<rparr>)"

declare md5_chunks.simps [simp del]

definition add_bits :: "u32 \<times> u32 \<Rightarrow> u32 \<Rightarrow> u32 \<times> u32" where
  "add_bits bits len =
     (let lo = fst bits + push_bit 3 len;
          hi = (if lo < fst bits then snd bits + 1 else snd bits)
      in (lo, hi + drop_bit 29 len))"

definition MD5Update :: "md5_context \<Rightarrow> byte list \<Rightarrow> md5_context" where
  "MD5Update ctx buf =
     (let t = unat (drop_bit 3 (fst (md5_bits ctx)) AND 0x3f);
          ctx = ctx\<lparr>md5_bits := add_bits (md5_bits ctx) (word_of_nat (length buf))\<rparr>
      in
      if t = 0 then md5_chunks ctx buf
      else if length buf < 64 - t then ctx\<lparr>md5_in := memcpy_at (md5_in ctx) t buf\<rparr>
      else md5_chunks (md5_block (ctx\<lparr>md5_in := memcpy_at (md5_in ctx) t (take (64 - t) buf)\<rparr>)) (drop (64 - t) buf))"

definition MD5Final :: "md5_context \<Rightarrow> byte list" where
  "MD5Final ctx =
     (let n = unat (drop_bit 3 (fst (md5_bits ctx)) AND 0x3F);
          ctx = ctx\<lparr>md5_in := memcpy_at (md5_in ctx) n [0x80]\<rparr>;
          count = 64 - 1 - n;
          ctx = (if count < 8
                 then let ctx = md5_block (ctx\<lparr>md5_in := memcpy_at (md5_in ctx) (n + 1) (replicate count 0)\<rparr>)
                      in ctx\<lparr>md5_in := memcpy_at (md5_in ctx) 0 (replicate 56 0)\<rparr>
                 else ctx\<lparr>md5_in := memcpy_at (md5_in ctx) (n + 1) (replicate (count - 8) 0)\<rparr>);
          ctx = ctx\<lparr>md5_in := memcpy_at (md5_in ctx) 56 (le_put (fst (md5_bits ctx)) @ le_put (snd (md5_bits ctx)))\<rparr>
      in case md5_buf (md5_block ctx) of (a, b, c, d) \<Rightarrow> le_put a @ le_put b @ le_put c @ le_put d)"

subsection \<open>The digest of RFC 1321\<close>

text \<open>
  The definition of the standard: the message is padded with a one bit, zeros and its length, and the
  blocks are compressed with the auxiliary functions, the constants \<open>T\<close>, and input words and
  rotations given by the number of the step.
\<close>

definition rfc_T :: "u32 list" where
  "rfc_T =
    [
     0xd76aa478, 0xe8c7b756, 0x242070db, 0xc1bdceee, 0xf57c0faf, 0x4787c62a, 0xa8304613, 0xfd469501,
     0x698098d8, 0x8b44f7af, 0xffff5bb1, 0x895cd7be, 0x6b901122, 0xfd987193, 0xa679438e, 0x49b40821,
     0xf61e2562, 0xc040b340, 0x265e5a51, 0xe9b6c7aa, 0xd62f105d, 0x02441453, 0xd8a1e681, 0xe7d3fbc8,
     0x21e1cde6, 0xc33707d6, 0xf4d50d87, 0x455a14ed, 0xa9e3e905, 0xfcefa3f8, 0x676f02d9, 0x8d2a4c8a,
     0xfffa3942, 0x8771f681, 0x6d9d6122, 0xfde5380c, 0xa4beea44, 0x4bdecfa9, 0xf6bb4b60, 0xbebfbc70,
     0x289b7ec6, 0xeaa127fa, 0xd4ef3085, 0x04881d05, 0xd9d4d039, 0xe6db99e5, 0x1fa27cf8, 0xc4ac5665,
     0xf4292244, 0x432aff97, 0xab9423a7, 0xfc93a039, 0x655b59c3, 0x8f0ccc92, 0xffeff47d, 0x85845dd1,
     0x6fa87e4f, 0xfe2ce6e0, 0xa3014314, 0x4e0811a1, 0xf7537e82, 0xbd3af235, 0x2ad7d2bb, 0xeb86d391
    ]"

definition rfc_f :: "nat \<Rightarrow> u32 \<Rightarrow> u32 \<Rightarrow> u32 \<Rightarrow> u32" where
  "rfc_f i x y z =
     (if i < 16 then (x AND y) OR (NOT x AND z)
      else if i < 32 then (x AND z) OR (y AND NOT z)
      else if i < 48 then x XOR y XOR z
      else y XOR (x OR NOT z))"

definition rfc_index :: "nat \<Rightarrow> nat" where
  "rfc_index i =
     (if i < 16 then i else if i < 32 then (5 * i + 1) mod 16
      else if i < 48 then (3 * i + 5) mod 16 else (7 * i) mod 16)"

definition rfc_rot :: "nat \<Rightarrow> nat" where
  "rfc_rot i = [[7, 12, 17, 22], [5, 9, 14, 20], [4, 11, 16, 23], [6, 10, 15, 21]] ! (i div 16) ! (i mod 4)"

definition rfc_step :: "u32 list \<Rightarrow> nat \<Rightarrow> md5_state \<Rightarrow> md5_state" where
  "rfc_step x i abcd = (case abcd of (a, b, c, d) \<Rightarrow>
     (d, b + rotl (a + rfc_f i b c d + x ! rfc_index i + rfc_T ! i) (rfc_rot i), b, c))"

definition rfc_compress :: "md5_state \<Rightarrow> byte list \<Rightarrow> md5_state" where
  "rfc_compress s blk = (case s of (a0, b0, c0, d0) \<Rightarrow>
     case fold (rfc_step (le_words blk)) [0..<64] s of (a, b, c, d) \<Rightarrow> (a0 + a, b0 + b, c0 + c, d0 + d))"

fun rfc_blocks :: "md5_state \<Rightarrow> byte list \<Rightarrow> md5_state" where
  "rfc_blocks s m = (if length m < 64 then s else rfc_blocks (rfc_compress s (take 64 m)) (drop 64 m))"

declare rfc_blocks.simps [simp del]

definition rfc_pad :: "byte list \<Rightarrow> byte list" where
  "rfc_pad m = m @ [0x80] @ replicate ((119 - length m mod 64) mod 64) 0 @
     le_put (word_of_nat (8 * length m)) @ le_put (word_of_nat (8 * length m div 2 ^ 32))"

definition rfc_md5 :: "byte list \<Rightarrow> byte list" where
  "rfc_md5 m = (case rfc_blocks MD5_INIT (rfc_pad m) of (a, b, c, d) \<Rightarrow> le_put a @ le_put b @ le_put c @ le_put d)"

subsection \<open>The implementation computes it\<close>

definition fun_of :: "nat \<Rightarrow> md5_fun" where
  "fun_of i = (if i < 16 then F1 else if i < 32 then F2 else if i < 48 then F3 else F4)"

lemma md5_steps_rfc: "md5_steps = map (\<lambda>i. (fun_of i, rfc_index i, rfc_T ! i, rfc_rot i)) [0..<64]"
  by code_simp

lemma md5_f_rfc: "md5_f (fun_of i) x y z = rfc_f i x y z"
proof -
  have "z XOR (x AND (y XOR z)) = (x AND y) OR (NOT x AND z)" by (rule bit_word_eqI) (auto simp: bit_simps)
  moreover have "y XOR (z AND (x XOR y)) = (x AND z) OR (y AND NOT z)" by (rule bit_word_eqI) (auto simp: bit_simps)
  ultimately show ?thesis by (simp add: fun_of_def rfc_f_def)
qed

lemma MD5Transform_rfc: "MD5Transform buf (le_words blk) = rfc_compress buf blk"
proof -
  have "md5_step inp (fun_of i, rfc_index i, rfc_T ! i, rfc_rot i) = rfc_step inp i" for inp i
    by (rule ext) (simp add: md5_step_def rfc_step_def MD5STEP_def md5_f_rfc ac_simps split: prod.splits)
  then show ?thesis by (simp add: MD5Transform_def rfc_compress_def md5_steps_rfc fold_map comp_def)
qed

lemma rfc_blocks_append: "length a mod 64 = 0 \<Longrightarrow> rfc_blocks s (a @ b) = rfc_blocks (rfc_blocks s a) b"
proof (induction s a rule: rfc_blocks.induct)
  case (1 s m)
  show ?case
  proof (cases "length m < 64")
    case True
    with 1(2) have "m = []" by simp
    then show ?thesis by (simp add: rfc_blocks.simps [of s "[]"])
  next
    case False
    have "length (drop 64 m) mod 64 = 0" using 1(2) False by (simp add: le_mod_geq)
    from 1(1) [OF False this] have "rfc_blocks (rfc_compress s (take 64 m)) (drop 64 m @ b) =
        rfc_blocks (rfc_blocks (rfc_compress s (take 64 m)) (drop 64 m)) b" .
    moreover have "rfc_blocks s (m @ b) = rfc_blocks (rfc_compress s (take 64 m)) (drop 64 m @ b)"
      using False by (subst rfc_blocks.simps) simp
    moreover have "rfc_blocks s m = rfc_blocks (rfc_compress s (take 64 m)) (drop 64 m)"
      using False by (subst rfc_blocks.simps) simp
    ultimately show ?thesis by simp
  qed
qed

lemma rfc_blocks_short: "length m < 64 \<Longrightarrow> rfc_blocks s m = s"
  by (simp add: rfc_blocks.simps)

lemma rfc_blocks_one: "length m = 64 \<Longrightarrow> rfc_blocks s m = rfc_compress s m"
  by (subst rfc_blocks.simps) (simp add: rfc_blocks_short)

lemma length_memcpy_at [simp]: "i + length s \<le> length d \<Longrightarrow> length (memcpy_at d i s) = length d"
  by (simp add: memcpy_at_def)

lemma take_memcpy_at: "i \<le> length d \<Longrightarrow> take (i + length s) (memcpy_at d i s) = take i d @ s"
  by (simp add: memcpy_at_def)

text \<open>The context stands for the message so far: whole blocks and a rest in the input buffer.\<close>

definition ctx_rep :: "md5_context \<Rightarrow> byte list \<Rightarrow> byte list \<Rightarrow> bool" where
  "ctx_rep ctx m0 r \<longleftrightarrow>
     length m0 mod 64 = 0 \<and> length r < 64 \<and> md5_buf ctx = rfc_blocks MD5_INIT m0 \<and>
     length (md5_in ctx) = 64 \<and> take (length r) (md5_in ctx) = r \<and>
     md5_bits ctx = (word_of_nat (8 * length (m0 @ r)), word_of_nat (8 * length (m0 @ r) div 2 ^ 32))"

lemma add_bits_rep:
  assumes "len < 2 ^ 32"
  shows "add_bits (word_of_nat (8 * n), word_of_nat (8 * n div 2 ^ 32)) (word_of_nat len) =
    (word_of_nat (8 * (n + len)), word_of_nat (8 * (n + len) div 2 ^ 32))"
proof -
  let ?x = "8 * n" and ?y = "8 * len"
  have lo: "(word_of_nat ?x :: u32) + push_bit 3 (word_of_nat len) = word_of_nat (?x + ?y)"
    by (simp add: push_bit_eq_mult)
  have u: "unat (word_of_nat k :: u32) = k mod 2 ^ 32" for k
    by (simp add: unsigned_of_nat take_bit_eq_mod)
  have carry: "((word_of_nat (?x + ?y) :: u32) < word_of_nat ?x) = ((?x + ?y) mod 2 ^ 32 < ?x mod 2 ^ 32)"
    by (simp only: word_less_nat_alt u)
  have hi: "drop_bit 29 (word_of_nat len :: u32) = word_of_nat (?y div 2 ^ 32)"
  proof -
    have "drop_bit 29 len = ?y div 2 ^ 32" by (simp add: drop_bit_eq_div)
    moreover have "unat (drop_bit 29 (word_of_nat len :: u32)) = drop_bit 29 len"
      using assms by (simp add: unsigned_drop_bit_eq unsigned_of_nat take_bit_nat_eq_self)
    moreover have "drop_bit 29 (word_of_nat len :: u32) = word_of_nat (unat (drop_bit 29 (word_of_nat len :: u32)))" by simp
    ultimately show ?thesis by (simp only:)
  qed
  have split: "(?x + ?y) div 2 ^ 32 = ?x div 2 ^ 32 + ?y div 2 ^ 32 + (if (?x + ?y) mod 2 ^ 32 < ?x mod 2 ^ 32 then 1 else 0)"
  proof -
    define M :: nat where "M = 2 ^ 32"
    have M: "0 < M" by (simp add: M_def)
    have bound: "?x mod M < M" "?y mod M < M" using M by simp_all
    show ?thesis
    proof (cases "?x mod M + ?y mod M < M")
      case True
      then have "(?x + ?y) mod M = ?x mod M + ?y mod M" "(?x mod M + ?y mod M) div M = 0"
        by (metis mod_add_eq mod_less) (use True in simp)
      then show ?thesis unfolding M_def [symmetric] by (simp add: div_add1_eq [of ?x ?y M])
    next
      case False
      have "?x mod M + ?y mod M - M < M" using bound by linarith
      with False have "(?x mod M + ?y mod M) div M = 1" "(?x mod M + ?y mod M) mod M = ?x mod M + ?y mod M - M"
        using M by (simp_all add: le_div_geq le_mod_geq)
      then have "(?x + ?y) mod M < ?x mod M" "(?x mod M + ?y mod M) div M = 1"
        using bound False by (simp_all add: mod_add_eq [of ?x M ?y, symmetric])
      then show ?thesis unfolding M_def [symmetric] by (simp add: div_add1_eq [of ?x ?y M])
    qed
  qed
  have "8 * (n + len) = ?x + ?y" by simp
  then show ?thesis
    unfolding add_bits_def Let_def fst_conv snd_conv lo carry hi
    by (simp only: split of_nat_add) simp
qed

lemma md5_count:
  assumes "ctx_rep ctx m0 r"
  shows "unat (drop_bit 3 (fst (md5_bits ctx)) AND 0x3f) = length r"
proof -
  let ?n = "length (m0 @ r)"
  have "(w :: u32) AND 0x3f = take_bit 6 w" for w by (simp add: take_bit_eq_mask mask_eq_exp_minus_1)
  then have "unat (drop_bit 3 (word_of_nat (8 * ?n)) AND (0x3f :: u32)) =
      take_bit 6 (drop_bit 3 (take_bit 32 (8 * ?n)))"
    by (simp only: unsigned_take_bit_eq unsigned_drop_bit_eq unsigned_of_nat) simp
  also have "\<dots> = take_bit 6 (drop_bit 3 (8 * ?n))" by (rule bit_eqI) (auto simp: bit_simps)
  also have "\<dots> = ?n mod 64" by (simp add: take_bit_eq_mod drop_bit_eq_div)
  also have "\<dots> = length r" using assms by (auto simp: ctx_rep_def mod_add_left_eq elim!: mod_add_cong)
  finally show ?thesis using assms by (simp add: ctx_rep_def)
qed

lemma MD5Init_rep: "length garbage = 64 \<Longrightarrow> ctx_rep (MD5Init garbage) [] []"
  by (simp add: ctx_rep_def MD5Init_def rfc_blocks_short)

lemma md5_block_rep:
  assumes "length m0 mod 64 = 0" "md5_buf ctx = rfc_blocks MD5_INIT m0" "length (md5_in ctx) = 64" "md5_in ctx = b"
  shows "md5_buf (md5_block ctx) = rfc_blocks MD5_INIT (m0 @ b)"
  using assms by (simp add: md5_block_def MD5Transform_rfc rfc_blocks_append rfc_blocks_one)

lemma md5_block_fields [simp]:
  "md5_in (md5_block ctx) = md5_in ctx" "md5_bits (md5_block ctx) = md5_bits ctx"
  by (simp_all add: md5_block_def)

lemma md5_chunks_rep:
  assumes "length m0 mod 64 = 0" "md5_buf ctx = rfc_blocks MD5_INIT m0" "length (md5_in ctx) = 64"
    "md5_bits ctx = (word_of_nat (8 * length (m0 @ buf)), word_of_nat (8 * length (m0 @ buf) div 2 ^ 32))"
  shows "\<exists>m1 r. m1 @ r = m0 @ buf \<and> ctx_rep (md5_chunks ctx buf) m1 r"
  using assms
proof (induction ctx buf arbitrary: m0 rule: md5_chunks.induct)
  case (1 ctx buf)
  show ?case
  proof (cases "64 \<le> length buf")
    case True
    let ?c = "md5_block (ctx\<lparr>md5_in := memcpy_at (md5_in ctx) 0 (take 64 buf)\<rparr>)"
    have in64: "memcpy_at (md5_in ctx) 0 (take 64 buf) = take 64 buf" using 1(4) True by (simp add: memcpy_at_def)
    have "md5_buf ?c = rfc_blocks MD5_INIT (m0 @ take 64 buf)"
      using 1(2,3) True by (intro md5_block_rep) (simp_all add: in64)
    then have "\<exists>m1 r. m1 @ r = (m0 @ take 64 buf) @ drop 64 buf \<and> ctx_rep (md5_chunks ?c (drop 64 buf)) m1 r"
      using 1(2,5) True by (intro 1(1)) (simp_all add: in64 mod_add_left_eq [symmetric])
    with True show ?thesis by (subst md5_chunks.simps) simp
  next
    case False
    have "ctx_rep (ctx\<lparr>md5_in := memcpy_at (md5_in ctx) 0 buf\<rparr>) m0 buf"
      using 1(2-5) False by (simp add: ctx_rep_def memcpy_at_def)
    with False show ?thesis by (subst md5_chunks.simps) auto
  qed
qed

lemma MD5Update_rep:
  assumes "ctx_rep ctx m0 r" "length buf < 2 ^ 32"
  shows "\<exists>m1 r1. m1 @ r1 = m0 @ r @ buf \<and> ctx_rep (MD5Update ctx buf) m1 r1"
proof -
  let ?ctx = "ctx\<lparr>md5_bits := add_bits (md5_bits ctx) (word_of_nat (length buf))\<rparr>"
  have bits: "md5_bits ?ctx = (word_of_nat (8 * length (m0 @ r @ buf)), word_of_nat (8 * length (m0 @ r @ buf) div 2 ^ 32))"
    using add_bits_rep [OF assms(2), of "length (m0 @ r)"] assms(1) by (simp add: ctx_rep_def add.assoc)
  have c: "length m0 mod 64 = 0" "length r < 64" "md5_buf ctx = rfc_blocks MD5_INIT m0"
    "length (md5_in ctx) = 64" "take (length r) (md5_in ctx) = r"
    using assms(1) by (simp_all add: ctx_rep_def)
  note n = md5_count [OF assms(1)]
  consider "r = []" | "r \<noteq> []" "length buf < 64 - length r" | "r \<noteq> []" "64 - length r \<le> length buf" by linarith
  then show ?thesis
  proof cases
    case 1
    then have "MD5Update ctx buf = md5_chunks ?ctx buf" using n by (simp add: MD5Update_def)
    with md5_chunks_rep [of m0 ?ctx buf] c bits 1 show ?thesis by simp
  next
    case 2
    then have "MD5Update ctx buf = ?ctx\<lparr>md5_in := memcpy_at (md5_in ctx) (length r) buf\<rparr>"
      using n by (simp add: MD5Update_def)
    moreover have "ctx_rep (?ctx\<lparr>md5_in := memcpy_at (md5_in ctx) (length r) buf\<rparr>) m0 (r @ buf)"
      using c bits 2 by (simp add: ctx_rep_def take_memcpy_at [of "length r" _ buf, simplified] memcpy_at_def)
    ultimately show ?thesis by auto
  next
    case 3
    let ?k = "64 - length r"
    let ?c = "md5_block (?ctx\<lparr>md5_in := memcpy_at (md5_in ctx) (length r) (take ?k buf)\<rparr>)"
    have in64: "memcpy_at (md5_in ctx) (length r) (take ?k buf) = r @ take ?k buf"
      using c 3 by (simp add: memcpy_at_def)
    have upd: "MD5Update ctx buf = md5_chunks ?c (drop ?k buf)" using n 3 c by (simp add: MD5Update_def Let_def)
    have "md5_buf ?c = rfc_blocks MD5_INIT (m0 @ r @ take ?k buf)"
      using c 3 by (intro md5_block_rep) (simp_all add: in64)
    then have "\<exists>m1 r1. m1 @ r1 = (m0 @ r @ take ?k buf) @ drop ?k buf \<and> ctx_rep (md5_chunks ?c (drop ?k buf)) m1 r1"
      using c 3 bits by (intro md5_chunks_rep) (simp_all add: in64)
    then show ?thesis by (simp add: upd)
  qed
qed

lemma length_le_put [simp]: "length (le_put w) = 4"
  by (simp add: le_put_def)

lemma rfc_blocks_two: "length a = 64 \<Longrightarrow> length b = 64 \<Longrightarrow> rfc_blocks s (a @ b) = rfc_compress (rfc_compress s a) b"
  by (simp add: rfc_blocks_append rfc_blocks_one)

lemma MD5Final_rep:
  assumes "ctx_rep ctx m0 r"
  shows "MD5Final ctx = rfc_md5 (m0 @ r)"
proof -
  let ?n = "length r" and ?N = "length (m0 @ r)"
  let ?bits = "le_put (word_of_nat (8 * ?N)) @ le_put (word_of_nat (8 * ?N div 2 ^ 32))"
  have c: "length m0 mod 64 = 0" "?n < 64" "md5_buf ctx = rfc_blocks MD5_INIT m0"
    "length (md5_in ctx) = 64" "take ?n (md5_in ctx) = r"
    "md5_bits ctx = (word_of_nat (8 * ?N), word_of_nat (8 * ?N div 2 ^ 32))"
    using assms by (simp_all only: ctx_rep_def)
  note n = md5_count [OF assms]
  have mod: "?N mod 64 = ?n" using c(1,2) by (metis length_append mod_add_left_eq add_0 mod_less)
  let ?z = "replicate ((119 - ?n) mod 64) (0 :: byte)"
  have pad: "rfc_pad (m0 @ r) = m0 @ (r @ [0x80] @ ?z @ ?bits)" by (simp only: rfc_pad_def mod append_assoc)
  have ref: "rfc_blocks MD5_INIT (rfc_pad (m0 @ r)) = rfc_blocks (md5_buf ctx) (r @ [0x80] @ ?z @ ?bits)"
    by (simp only: pad rfc_blocks_append [OF c(1)] c(3))
  show ?thesis
  proof (cases "56 \<le> ?n")
    case True
    let ?b1 = "r @ [0x80] @ replicate (63 - ?n) 0" and ?b2 = "replicate 56 0 @ ?bits"
    have z: "(119 - ?n) mod 64 = (63 - ?n) + 56" using True c(2) by simp
    have cnt: "63 - ?n < 8" using True by linarith
    have "r @ [0x80] @ ?z @ ?bits = ?b1 @ ?b2" by (simp only: z replicate_add append_assoc)
    then have "rfc_blocks (md5_buf ctx) (r @ [0x80] @ ?z @ ?bits) = rfc_compress (rfc_compress (md5_buf ctx) ?b1) ?b2"
      using c(2) True by (simp only: rfc_blocks_two length_append length_replicate length_le_put list.size)
    moreover have "memcpy_at (memcpy_at (md5_in ctx) ?n [0x80]) (?n + 1) (replicate (64 - 1 - ?n) 0) = ?b1"
      using c(2,4,5) by (simp add: memcpy_at_def)
    moreover have "memcpy_at (memcpy_at ?b1 0 (replicate 56 0)) 56 ?bits = ?b2"
      using c(2) by (simp add: memcpy_at_def)
    ultimately show ?thesis
      unfolding rfc_md5_def ref MD5Final_def n
      using cnt c(6) by (simp add: Let_def md5_block_def MD5Transform_rfc)
  next
    case False
    let ?b = "r @ [0x80] @ ?z @ ?bits"
    have z: "(119 - ?n) mod 64 = 64 - 1 - ?n - 8" using False by (simp add: mod_if)
    have cnt: "\<not> 63 - ?n < 8" using False by linarith
    have "length ?b = 64" using False c(2) by (simp add: z)
    then have "rfc_blocks (md5_buf ctx) ?b = rfc_compress (md5_buf ctx) ?b" by (rule rfc_blocks_one)
    moreover have "memcpy_at (memcpy_at (memcpy_at (md5_in ctx) ?n [0x80]) (?n + 1) (replicate (64 - 1 - ?n - 8) 0)) 56 ?bits = ?b"
    proof -
      have "56 - ?n = Suc (55 - ?n)" using False by linarith
      then show ?thesis using c(2,4,5) False by (simp add: memcpy_at_def z)
    qed
    ultimately show ?thesis
      unfolding rfc_md5_def ref MD5Final_def n
      using cnt c(6) by (simp add: Let_def md5_block_def MD5Transform_rfc)
  qed
qed

text \<open>Feeding a message in pieces.\<close>

lemma MD5Update_pieces:
  "ctx_rep ctx m0 r \<Longrightarrow> list_all (\<lambda>p. length p < 2 ^ 32) ps \<Longrightarrow>
     \<exists>m1 r1. m1 @ r1 = m0 @ r @ concat ps \<and> ctx_rep (fold (\<lambda>p c. MD5Update c p) ps ctx) m1 r1"
proof (induction ps arbitrary: ctx m0 r)
  case (Cons p ps)
  from Cons.prems(2) have p: "length p < 2 ^ 32" and ps: "list_all (\<lambda>p. length p < 2 ^ 32) ps" by simp_all
  from MD5Update_rep [OF Cons.prems(1) p] obtain m1 r1 where
    1: "m1 @ r1 = m0 @ r @ p" "ctx_rep (MD5Update ctx p) m1 r1" by blast
  from Cons.IH [OF 1(2) ps] obtain m2 r2 where
    2: "m2 @ r2 = m1 @ r1 @ concat ps" "ctx_rep (fold (\<lambda>p c. MD5Update c p) ps (MD5Update ctx p)) m2 r2" by blast
  have "m2 @ r2 = m0 @ r @ concat (p # ps)" using 1(1) 2(1) by (metis append.assoc concat.simps(2))
  with 2(2) show ?case by auto
qed auto

text \<open>The test vector ``abc'' of RFC 1321.\<close>

lemma rfc_pad_abc: "rfc_pad [97, 98, 99] = [97, 98, 99, 0x80] @ replicate 52 0 @ [24, 0, 0, 0, 0, 0, 0, 0]"
  by (simp add: rfc_pad_def le_put_def)

lemma rfc_blocks_abc:
  "(case rfc_blocks MD5_INIT ([97, 98, 99, 0x80] @ replicate 52 0 @ [24, 0, 0, 0, 0, 0, 0, 0]) of
      (a, b, c, d) \<Rightarrow> le_put a @ le_put b @ le_put c @ le_put d) =
   [0x90, 0x01, 0x50, 0x98, 0x3c, 0xd2, 0x4f, 0xb0, 0xd6, 0x96, 0x3f, 0x7d, 0x28, 0xe1, 0x7f, 0x72]"
  by code_simp

lemma rfc_md5_abc:
  "rfc_md5 [97, 98, 99] = [0x90, 0x01, 0x50, 0x98, 0x3c, 0xd2, 0x4f, 0xb0, 0xd6, 0x96, 0x3f, 0x7d, 0x28, 0xe1, 0x7f, 0x72]"
  unfolding rfc_md5_def rfc_pad_abc by (rule rfc_blocks_abc)

text \<open>
  C25: the context, fed with a message in pieces of any lengths, yields the digest that RFC 1321
  defines on the whole message.
\<close>

theorem md5_pieces_rfc:
  assumes "length garbage = 64" "list_all (\<lambda>p. length p < 2 ^ 32) ps"
  shows "MD5Final (fold (\<lambda>p ctx. MD5Update ctx p) ps (MD5Init garbage)) = rfc_md5 (concat ps)"
  using MD5Update_pieces [OF MD5Init_rep [OF assms(1)] assms(2)] MD5Final_rep by fastforce

theorem md5_pieces_rfc_witness:
  "MD5Final (MD5Update (MD5Update (MD5Init (replicate 64 0)) [97]) [98, 99]) =
     [0x90, 0x01, 0x50, 0x98, 0x3c, 0xd2, 0x4f, 0xb0, 0xd6, 0x96, 0x3f, 0x7d, 0x28, 0xe1, 0x7f, 0x72]"
  using md5_pieces_rfc [of "replicate 64 0" "[[97], [98, 99]]"] by (simp add: rfc_md5_abc)


end
