(* ===== verification/HttpAuth.thy ===== *)
theory HttpAuth
  imports Pmsg Md5
begin

text \<open>
  Digest authentication (http-auth.c): parsing the client's authorization header, nonces that carry
  their creation time and are signed with a secret, checking a response, and adding a challenge.
  Random bytes and the time are arguments.
\<close>

subsection \<open>Hashes and nonces\<close>

record digest_auth_info =
  da_realm :: string
  da_uri :: string
  da_nonce :: string
  da_opaque :: string
  da_username :: string
  da_response :: string

definition no_auth :: digest_auth_info where
  "no_auth = \<lparr>da_realm = [], da_uri = [], da_nonce = [], da_opaque = [], da_username = [], da_response = []\<rparr>"

text \<open>\<open>random_id\<close> of spook.c from the random bytes it draws.\<close>

definition random_id :: "byte list \<Rightarrow> string" where
  "random_id bs = concat (map (\<lambda>b. show_hex2 hex_upper (unat b)) bs)"

definition hex_text :: "byte list \<Rightarrow> string" where
  "hex_text bs = concat (map (\<lambda>b. show_hex2 hex_lower (unat b)) bs)"

definition COLON :: byte where "COLON = 58"

fun md5_elems :: "string list \<Rightarrow> byte list list" where
  "md5_elems [] = []"
| "md5_elems [v] = [bytes_of v]"
| "md5_elems (v # vs) = bytes_of v # [COLON] # md5_elems vs"

text \<open>The initial content of the context's input buffer does not matter.\<close>

definition md5_hash :: "string list \<Rightarrow> string" where
  "md5_hash v = hex_text (MD5Final (fold (\<lambda>p ctx. MD5Update ctx p) (md5_elems v) (MD5Init (replicate 64 0))))"

text \<open>\<open>create_nonce\<close> with the twelve random bytes it draws, once the secret exists.\<close>

definition create_nonce :: "string \<Rightarrow> int \<Rightarrow> byte list \<Rightarrow> string" where
  "create_nonce secret now rnd =
     (let token = hex_text (PUT_32 (word_of_int now :: u32) @ rnd) in token @ md5_hash [token, secret])"

subsection \<open>The authorization header\<close>

definition EQ :: char where "EQ = CHR ''=''"
definition COMMA :: char where "COMMA = CHR '',''"

definition is_sep :: "char \<Rightarrow> bool" where
  "is_sep c \<longleftrightarrow> c = DQUOTE \<or> c = COMMA \<or> c = SP"

text \<open>
  What a directive does: \<open>n\<close> is the text from its name on, \<open>v\<close> from its value on, \<open>len\<close> the length
  of the value; \<^term>\<open>None\<close> is the error return.
\<close>

definition store :: "nat \<Rightarrow> nat \<Rightarrow> digest_auth_info \<Rightarrow> digest_auth_info option" where
  "store sz len auth = (if sz \<le> len then None else Some auth)"

definition auth_directive :: "string \<Rightarrow> string \<Rightarrow> nat \<Rightarrow> digest_auth_info \<Rightarrow> digest_auth_info option" where
  "auth_directive n v len auth =
     (if strncaseeq n ''realm='' 6 then store 128 len (auth\<lparr>da_realm := take len v\<rparr>)
      else if strncaseeq n ''uri='' 4 then store 512 len (auth\<lparr>da_uri := take len v\<rparr>)
      else if strncaseeq n ''nonce='' 6 then store 128 len (auth\<lparr>da_nonce := take len v\<rparr>)
      else if strncaseeq n ''opaque='' 7 then store 128 len (auth\<lparr>da_opaque := take len v\<rparr>)
      else if strncaseeq n ''username='' 9 then store 128 len (auth\<lparr>da_username := take len v\<rparr>)
      else if strncaseeq n ''response='' 9 then store 33 len (auth\<lparr>da_response := take len v\<rparr>)
      else if strncaseeq n ''algorithm='' 10 then (if strncaseeq v ''md5'' 3 then Some auth else None)
      else Some auth)"

text \<open>The value behind the sign: its start without the quote, and its length.\<close>

definition auth_value :: "string \<Rightarrow> (string \<times> nat) option" where
  "auth_value v =
     (case v of
        [] \<Rightarrow> None
      | c # v' \<Rightarrow>
          if c = DQUOTE then
            if DQUOTE \<in> set v' then Some (v', length (takeWhile (\<lambda>c. c \<noteq> DQUOTE) v')) else None
          else Some (v, length (takeWhile (\<lambda>c. c \<noteq> COMMA \<and> c \<noteq> SP) v)))"

lemma auth_value_length: "auth_value v = Some (v', len) \<Longrightarrow> length v' \<le> length v"
  by (auto simp: auth_value_def split: list.splits if_splits)

function auth_loop :: "string \<Rightarrow> digest_auth_info \<Rightarrow> digest_auth_info option" where
  "auth_loop n auth =
     (if n = [] then Some auth
      else case dropWhile (\<lambda>c. c \<noteq> EQ) n of
        [] \<Rightarrow> None
      | _ # v \<Rightarrow>
          (case auth_value v of
             None \<Rightarrow> None
           | Some (v', len) \<Rightarrow>
               (case auth_directive n v' len auth of
                  None \<Rightarrow> None
                | Some auth' \<Rightarrow> auth_loop (dropWhile is_sep (drop len v')) auth')))"
  by pat_completeness auto

termination
proof (relation "measure (\<lambda>(n, auth). length n)")
  fix n :: string and auth :: digest_auth_info and c v a v' len auth'
  assume "dropWhile (\<lambda>c. c \<noteq> EQ) n = c # v" "auth_value v = Some a" "(v', len) = a"
  then have "length v < length n" "length v' \<le> length v"
    using length_dropWhile_le [of "\<lambda>c. c \<noteq> EQ" n] auth_value_length [of v v' len] by auto
  moreover have "length (dropWhile is_sep (drop len v')) \<le> length v'"
    by (metis diff_le_self length_drop length_dropWhile_le order_trans)
  ultimately show "((dropWhile is_sep (drop len v'), auth'), n, auth) \<in> measure (\<lambda>(n, auth). length n)" by simp
qed auto

declare auth_loop.simps [simp del]

definition parse_auth_header :: "string \<Rightarrow> digest_auth_info \<Rightarrow> digest_auth_info option" where
  "parse_auth_header header auth =
     (if strncaseeq header ''digest '' 7 then auth_loop (drop 7 header) auth else None)"

subsection \<open>Checking a response\<close>

definition create_response :: "digest_auth_info \<Rightarrow> string \<Rightarrow> string \<Rightarrow> string" where
  "create_response auth method password =
     (let ha1 = md5_hash [da_username auth, da_realm auth, password];
          ha2 = md5_hash [method, da_uri auth]
      in md5_hash [ha1, da_nonce auth, ha2])"

text \<open>The value \<open>get_hex_u32\<close> gives a character: for decimal digits it subtracts 0, not the code of the digit.\<close>

definition hex_val :: "char \<Rightarrow> u32 option" where
  "hex_val c =
     (let n = of_char c :: nat in
      if 48 \<le> n \<and> n \<le> 57 then Some (word_of_nat n)
      else if 65 \<le> n \<and> n \<le> 70 then Some (word_of_nat (n - 65 + 10))
      else if 97 \<le> n \<and> n \<le> 102 then Some (word_of_nat (n - 97 + 10))
      else None)"

fun hex_loop :: "u32 \<Rightarrow> string \<Rightarrow> u32" where
  "hex_loop val [] = val"
| "hex_loop val (c # cs) =
     (case hex_val c of Some v \<Rightarrow> hex_loop (push_bit 4 val OR v) cs | None \<Rightarrow> val)"

definition get_hex_u32 :: "string \<Rightarrow> u32" where
  "get_hex_u32 hex = hex_loop 0 (take 8 hex)"

text \<open>The part of the check behind the password: the nonce is ours and not too old.\<close>

definition check_nonce :: "string \<Rightarrow> string option \<Rightarrow> int \<Rightarrow> int" where
  "check_nonce nonce secret now =
     (case secret of
        None \<Rightarrow> 0
      | Some sec \<Rightarrow>
          if length nonce \<noteq> 64 then 0
          else
            let token = take 32 nonce in
            if drop 32 nonce \<noteq> md5_hash [token, sec] then 0
            else if get_hex_u32 token + 15 < word_of_int now then 0
            else 1)"

definition request_line :: "pmsg \<Rightarrow> (string \<times> string) option" where
  "request_line msg =
     (case pm_sl msg of
        Req m u \<Rightarrow> do { m' \<leftarrow> cstr_at (pm_buf msg) m; u' \<leftarrow> cstr_at (pm_buf msg) u; Some (m', u') }
      | _ \<Rightarrow> None)"

definition check_digest_response ::
  "pmsg \<Rightarrow> string \<Rightarrow> string \<Rightarrow> string \<Rightarrow> string option \<Rightarrow> int \<Rightarrow> int option" where
  "check_digest_response msg realm username password secret now = do {
     h \<leftarrow> get_header msg ''authorization'';
     (case h of
        None \<Rightarrow> Some (-1)
      | Some p \<Rightarrow> do {
          hdr \<leftarrow> cstr_at (pm_buf msg) p;
          (case parse_auth_header hdr no_auth of
             None \<Rightarrow> Some (-1)
           | Some auth \<Rightarrow>
               if da_realm auth \<noteq> realm then Some (-1)
               else if username \<noteq> [] \<and> \<not> strcaseeq (da_username auth) username then Some (-1)
               else do {
                 (method, uri) \<leftarrow> request_line msg;
                 if da_uri auth = [] \<and> 512 \<le> length uri then Some (-1)
                 else
                   let auth = (if da_uri auth = [] then auth\<lparr>da_uri := uri\<rparr> else auth);
                       pass = (if username \<noteq> [] \<and> password \<noteq> [] then password else [])
                   in
                   if \<not> strcaseeq (da_response auth) (create_response auth method pass) then Some (-1)
                   else Some (check_nonce (da_nonce auth) secret now)
               })
        })
   }"

text \<open>\<open>add_digest_challenge\<close>; the realm of a location fits the buffer of 128 bytes.\<close>

definition add_digest_challenge :: "pmsg \<Rightarrow> string \<Rightarrow> bool \<Rightarrow> string \<Rightarrow> int \<times> pmsg" where
  "add_digest_challenge msg realm stale nonce =
     add_header_printf msg ''WWW-Authenticate''
       (''Digest realm='' @ DQUOTE # realm @ DQUOTE # '', nonce='' @ DQUOTE # nonce @ DQUOTE #
        (if stale then '', stale=true'' else []))"

subsection \<open>The age of a nonce\<close>

text \<open>
  The value of a hexadecimal digit has the digit in its low four bits; the two bits above it are set
  for decimal digits and run into the digit before. The result therefore has all bits of the true
  number, and is at least as large.
\<close>

definition byte_hex_ok :: "byte \<Rightarrow> bool" where
  "byte_hex_ok b \<longleftrightarrow> (case show_hex2 hex_lower (unat b) of
     [x, y] \<Rightarrow> (case (hex_val x, hex_val y) of
        (Some hi, Some lo) \<Rightarrow> take_bit 4 hi = drop_bit 4 (ucast b) \<and> take_bit 4 lo = take_bit 4 (ucast b) \<and>
          take_bit 6 hi = hi \<and> take_bit 6 lo = lo
      | _ \<Rightarrow> False)
   | _ \<Rightarrow> False)"

lemma byte_hex_table: "list_all (\<lambda>n. byte_hex_ok (word_of_nat n)) [0..<256]"
  by code_simp

lemma byte_hex:
  obtains x y hi lo where "show_hex2 hex_lower (unat (b :: byte)) = [x, y]" "hex_val x = Some hi" "hex_val y = Some lo"
    "take_bit 4 hi = drop_bit 4 (ucast b)" "take_bit 4 lo = take_bit 4 (ucast b)"
    "take_bit 6 hi = hi" "take_bit 6 lo = lo"
proof -
  have "unat b \<in> set [0..<256]" using unat_byte_less [of b] by simp
  with byte_hex_table have "byte_hex_ok (word_of_nat (unat b))" unfolding list_all_iff by blast
  then have "byte_hex_ok b" by simp
  then show ?thesis using that unfolding byte_hex_ok_def
    by (auto split: list.splits option.splits)
qed

lemma length_hex_text: "length (hex_text bs) = 2 * length bs"
proof (induction bs)
  case (Cons b bs)
  obtain x y where "show_hex2 hex_lower (unat b) = [x, y]" by (rule byte_hex)
  with Cons show ?case by (simp add: hex_text_def)
qed (simp add: hex_text_def)

lemma word_le_bits: "(\<And>n. bit a n \<Longrightarrow> bit b n) \<Longrightarrow> (a :: u32) \<le> b"
proof -
  assume "\<And>n. bit a n \<Longrightarrow> bit b n"
  then have "a = a AND b" by (intro bit_word_eqI) (auto simp: bit_simps)
  then show ?thesis by (metis word_and_le1)
qed

lemma nibble_bits:
  fixes v :: u32 and b :: byte
  shows "take_bit 4 v = drop_bit 4 (ucast b) \<Longrightarrow> bit v 0 = bit b 4 \<and> bit v 1 = bit b 5 \<and> bit v 2 = bit b 6 \<and> bit v 3 = bit b 7"
    and "take_bit 4 v = take_bit 4 (ucast b) \<Longrightarrow> bit v 0 = bit b 0 \<and> bit v 1 = bit b 1 \<and> bit v 2 = bit b 2 \<and> bit v 3 = bit b 3"
proof -
  assume eq: "take_bit 4 v = drop_bit 4 (ucast b)"
  have "bit (take_bit 4 v) j = bit (drop_bit 4 (ucast b) :: u32) j" for j by (simp only: eq)
  from this [of 0] this [of 1] this [of 2] this [of 3]
  show "bit v 0 = bit b 4 \<and> bit v 1 = bit b 5 \<and> bit v 2 = bit b 6 \<and> bit v 3 = bit b 7" by (simp add: bit_simps)
next
  assume eq: "take_bit 4 v = take_bit 4 (ucast b)"
  have "bit (take_bit 4 v) j = bit (take_bit 4 (ucast b) :: u32) j" for j by (simp only: eq)
  from this [of 0] this [of 1] this [of 2] this [of 3]
  show "bit v 0 = bit b 0 \<and> bit v 1 = bit b 1 \<and> bit v 2 = bit b 2 \<and> bit v 3 = bit b 3" by (simp add: bit_simps)
qed

lemma six_bits_only: "take_bit 6 v = (v :: u32) \<Longrightarrow> 6 \<le> n \<Longrightarrow> \<not> bit v n"
  by (metis bit_take_bit_iff not_less)

definition eight :: "u32 \<Rightarrow> u32 \<Rightarrow> u32 \<Rightarrow> u32 \<Rightarrow> u32 \<Rightarrow> u32 \<Rightarrow> u32 \<Rightarrow> u32 \<Rightarrow> u32" where
  "eight h0 l0 h1 l1 h2 l2 h3 l3 =
     push_bit 4 (push_bit 4 (push_bit 4 (push_bit 4 (push_bit 4 (push_bit 4 (push_bit 4 h0 OR l0) OR h1) OR l1)
       OR h2) OR l2) OR h3) OR l3"

text \<open>The four bytes of a time and their eight digits.\<close>

lemma eight_cover:
  fixes b0 b1 b2 b3 :: byte
  assumes "take_bit 4 h0 = drop_bit 4 (ucast b0)" "take_bit 4 l0 = take_bit 4 (ucast b0)"
    "take_bit 4 h1 = drop_bit 4 (ucast b1)" "take_bit 4 l1 = take_bit 4 (ucast b1)"
    "take_bit 4 h2 = drop_bit 4 (ucast b2)" "take_bit 4 l2 = take_bit 4 (ucast b2)"
    "take_bit 4 h3 = drop_bit 4 (ucast b3)" "take_bit 4 l3 = take_bit 4 (ucast b3)"
    and "bit (GET_32 b0 b1 b2 b3) n"
  shows "bit (eight h0 l0 h1 l1 h2 l2 h3 l3) n"
proof -
  note bits = nibble_bits(1) [OF assms(1)] nibble_bits(2) [OF assms(2)] nibble_bits(1) [OF assms(3)]
    nibble_bits(2) [OF assms(4)] nibble_bits(1) [OF assms(5)] nibble_bits(2) [OF assms(6)]
    nibble_bits(1) [OF assms(7)] nibble_bits(2) [OF assms(8)]
  have out: "\<not> bit (b :: byte) k" if "8 \<le> k" for b k using that by (auto dest: bit_imp_le_length)
  have "n < 32" using assms(9) by (auto dest: bit_imp_le_length)
  then consider "n < 8" | "8 \<le> n" "n < 16" | "16 \<le> n" "n < 24" | "24 \<le> n" "n < 32" by linarith
  then show ?thesis
  proof cases
    case 1
    then have "n \<in> {0, 1, 2, 3, 4, 5, 6, 7}" by auto
    then show ?thesis using bits assms(9) unfolding eight_def GET_32_def by (elim insertE emptyE) (simp_all add: bit_simps out)
  next
    case 2
    then have "n \<in> {8, 9, 10, 11, 12, 13, 14, 15}" by auto
    then show ?thesis using bits assms(9) unfolding eight_def GET_32_def by (elim insertE emptyE) (simp_all add: bit_simps out)
  next
    case 3
    then have "n \<in> {16, 17, 18, 19, 20, 21, 22, 23}" by auto
    then show ?thesis using bits assms(9) unfolding eight_def GET_32_def by (elim insertE emptyE) (simp_all add: bit_simps out)
  next
    case 4
    then have "n \<in> {24, 25, 26, 27, 28, 29, 30, 31}" by auto
    then show ?thesis using bits assms(9) unfolding eight_def GET_32_def by (elim insertE emptyE) (simp_all add: bit_simps out)
  qed
qed

lemma eight_top:
  assumes "take_bit 6 l0 = l0" "take_bit 6 h1 = h1" "take_bit 6 l1 = l1" "take_bit 6 h2 = h2" "take_bit 6 l2 = l2"
    "take_bit 6 h3 = h3" "take_bit 6 l3 = l3"
  shows "bit (eight h0 l0 h1 l1 h2 l2 h3 l3) 31 = bit h0 3"
  using assms by (simp add: eight_def bit_simps six_bits_only)

lemma get_hex_bytes:
  "GET_32 b0 b1 b2 b3 \<le> get_hex_u32 (hex_text ([b0, b1, b2, b3] @ rnd)) \<and>
   bit (get_hex_u32 (hex_text ([b0, b1, b2, b3] @ rnd))) 31 = bit b0 7"
proof -
  obtain x0 y0 h0 l0 where 0: "show_hex2 hex_lower (unat b0) = [x0, y0]" "hex_val x0 = Some h0" "hex_val y0 = Some l0"
    "take_bit 4 h0 = drop_bit 4 (ucast b0)" "take_bit 4 l0 = take_bit 4 (ucast b0)" "take_bit 6 h0 = h0" "take_bit 6 l0 = l0"
    by (rule byte_hex)
  obtain x1 y1 h1 l1 where 1: "show_hex2 hex_lower (unat b1) = [x1, y1]" "hex_val x1 = Some h1" "hex_val y1 = Some l1"
    "take_bit 4 h1 = drop_bit 4 (ucast b1)" "take_bit 4 l1 = take_bit 4 (ucast b1)" "take_bit 6 h1 = h1" "take_bit 6 l1 = l1"
    by (rule byte_hex)
  obtain x2 y2 h2 l2 where 2: "show_hex2 hex_lower (unat b2) = [x2, y2]" "hex_val x2 = Some h2" "hex_val y2 = Some l2"
    "take_bit 4 h2 = drop_bit 4 (ucast b2)" "take_bit 4 l2 = take_bit 4 (ucast b2)" "take_bit 6 h2 = h2" "take_bit 6 l2 = l2"
    by (rule byte_hex)
  obtain x3 y3 h3 l3 where 3: "show_hex2 hex_lower (unat b3) = [x3, y3]" "hex_val x3 = Some h3" "hex_val y3 = Some l3"
    "take_bit 4 h3 = drop_bit 4 (ucast b3)" "take_bit 4 l3 = take_bit 4 (ucast b3)" "take_bit 6 h3 = h3" "take_bit 6 l3 = l3"
    by (rule byte_hex)
  have v: "get_hex_u32 (hex_text ([b0, b1, b2, b3] @ rnd)) = eight h0 l0 h1 l1 h2 l2 h3 l3"
    by (simp add: get_hex_u32_def hex_text_def eight_def 0(1-3) 1(1-3) 2(1-3) 3(1-3))
  have "GET_32 b0 b1 b2 b3 \<le> eight h0 l0 h1 l1 h2 l2 h3 l3"
    by (rule word_le_bits) (rule eight_cover [OF 0(4,5) 1(4,5) 2(4,5) 3(4,5)])
  moreover have "bit (eight h0 l0 h1 l1 h2 l2 h3 l3) 31 = bit h0 3"
    by (rule eight_top [OF 0(7) 1(6,7) 2(6,7) 3(6,7)])
  moreover have "bit h0 3 = bit b0 7" using nibble_bits(1) [OF 0(4)] by blast
  ultimately show ?thesis unfolding v by blast
qed

lemma length_MD5Final: "length (MD5Final ctx) = 16"
  by (simp add: MD5Final_def Let_def split: prod.splits)

lemma length_md5_hash [simp]: "length (md5_hash v) = 32"
  by (simp add: md5_hash_def length_hex_text length_MD5Final)

lemma create_nonce_parts:
  assumes "length rnd = 12" "token = hex_text (PUT_32 (word_of_int now :: u32) @ rnd)"
  shows "length (create_nonce sec now rnd) = 64" "take 32 (create_nonce sec now rnd) = token"
    "drop 32 (create_nonce sec now rnd) = md5_hash [token, sec]"
  using assms by (simp_all add: create_nonce_def length_hex_text Let_def)

lemma top_bit_clear: "\<not> bit (v :: u32) 31 \<longleftrightarrow> uint v < 2 ^ 31"
proof
  assume v: "\<not> bit v 31"
  have "take_bit 31 v = v"
  proof (rule bit_word_eqI)
    fix n assume "n < LENGTH(32)"
    then have "n < 31 \<or> n = 31" by auto
    then show "bit (take_bit 31 v) n = bit v n" using v by (auto simp: bit_simps)
  qed
  then have "uint v = take_bit 31 (uint v)" by (metis unsigned_take_bit_eq)
  then show "uint v < 2 ^ 31" by (metis take_bit_int_less_exp)
next
  assume "uint v < 2 ^ 31"
  then have "\<not> bit (uint v) 31" by (simp add: bit_iff_odd)
  then show "\<not> bit v 31" by (simp add: bit_simps)
qed

lemma check_own_nonce:
  assumes "length rnd = 12"
  shows "check_nonce (create_nonce sec t rnd) (Some sec) now =
    (if get_hex_u32 (hex_text (PUT_32 (word_of_int t :: u32) @ rnd)) + 15 < word_of_int now then 0 else 1)"
  using create_nonce_parts [OF assms refl, of sec t] by (simp add: check_nonce_def Let_def)

lemma check_nonce_fresh:
  assumes "length rnd = 12" "0 \<le> t" "t < 2 ^ 31" "now \<le> t + 15" "0 \<le> now"
  shows "check_nonce (create_nonce sec t rnd) (Some sec) now = 1"
proof -
  let ?w = "word_of_int t :: u32"
  obtain b0 b1 b2 b3 where b: "PUT_32 ?w = [b0, b1, b2, b3]" by (simp add: PUT_32_def)
  let ?v = "get_hex_u32 (hex_text ([b0, b1, b2, b3] @ rnd))"
  have w: "GET_32 b0 b1 b2 b3 = ?w" using GET_PUT_32 [of ?w] by (simp add: b)
  have "\<not> bit ?w 31" unfolding top_bit_clear using assms(2,3) by (simp add: unsigned_of_int take_bit_int_eq_self)
  moreover have "bit b0 7 = bit ?w 31"
    using b by (auto simp: PUT_32_def bit_simps and_ff)
  ultimately have v: "?w \<le> ?v" "\<not> bit ?v 31" using get_hex_bytes [of b0 b1 b2 b3 rnd] w by simp_all
  have "uint ?v < 2 ^ 31" using v(2) by (simp only: top_bit_clear)
  then have "uint (?v + 15) = uint ?v + 15" by (simp add: uint_word_ariths)
  moreover have "t \<le> uint ?v"
    using v(1) assms(2,3) by (simp add: word_le_def unsigned_of_int take_bit_int_eq_self)
  moreover have "uint (word_of_int now :: u32) = now" using assms by (simp add: unsigned_of_int take_bit_int_eq_self)
  ultimately have "\<not> ?v + 15 < word_of_int now" using assms(4) by (simp add: word_less_def)
  then show ?thesis unfolding check_own_nonce [OF assms(1)] b by simp
qed

subsection \<open>Clients\<close>

text \<open>The header of a client that answers a challenge.\<close>

definition quoted :: "string \<Rightarrow> string \<Rightarrow> string \<Rightarrow> string" where
  "quoted name v rest = name @ EQ # DQUOTE # v @ DQUOTE # rest"

definition client_header :: "digest_auth_info \<Rightarrow> string" where
  "client_header auth =
     ''Digest '' @ quoted ''username'' (da_username auth) (COMMA # SP # quoted ''realm'' (da_realm auth)
       (COMMA # SP # quoted ''nonce'' (da_nonce auth) (COMMA # SP # quoted ''uri'' (da_uri auth)
         (COMMA # SP # quoted ''response'' (da_response auth) []))))"

lemma auth_step:
  assumes "EQ \<notin> set name" "name \<noteq> []" "DQUOTE \<notin> set v"
    and "auth_directive (quoted name v rest) (v @ DQUOTE # rest) (length v) auth = Some auth'"
  shows "auth_loop (quoted name v rest) auth = auth_loop (dropWhile is_sep rest) auth'"
proof -
  have "dropWhile (\<lambda>c. c \<noteq> EQ) (name @ EQ # DQUOTE # v @ DQUOTE # rest) = EQ # DQUOTE # v @ DQUOTE # rest"
    using assms(1) by (metis (mono_tags, lifting) dropWhile.simps(2) dropWhile_append2)
  moreover have "takeWhile (\<lambda>c. c \<noteq> DQUOTE) (v @ DQUOTE # rest) = v"
    using assms(3) by (subst takeWhile_append2) auto
  then have "auth_value (DQUOTE # v @ DQUOTE # rest) = Some (v @ DQUOTE # rest, length v)"
    by (simp add: auth_value_def)
  ultimately show ?thesis using assms(2,4) unfolding quoted_def
    by (subst auth_loop.simps) (simp add: is_sep_def)
qed

lemma directives:
  "length v < 128 \<Longrightarrow> auth_directive (quoted ''username'' v rest) (v @ x) (length v) auth = Some (auth\<lparr>da_username := v\<rparr>)"
  "length v < 128 \<Longrightarrow> auth_directive (quoted ''realm'' v rest) (v @ x) (length v) auth = Some (auth\<lparr>da_realm := v\<rparr>)"
  "length v < 128 \<Longrightarrow> auth_directive (quoted ''nonce'' v rest) (v @ x) (length v) auth = Some (auth\<lparr>da_nonce := v\<rparr>)"
  "length v < 512 \<Longrightarrow> auth_directive (quoted ''uri'' v rest) (v @ x) (length v) auth = Some (auth\<lparr>da_uri := v\<rparr>)"
  "length v < 33 \<Longrightarrow> auth_directive (quoted ''response'' v rest) (v @ x) (length v) auth = Some (auth\<lparr>da_response := v\<rparr>)"
  by (simp_all add: auth_directive_def store_def strncaseeq_def tolower_def EQ_def quoted_def)

definition auth_ok :: "digest_auth_info \<Rightarrow> bool" where
  "auth_ok auth \<longleftrightarrow>
     length (da_username auth) < 128 \<and> length (da_realm auth) < 128 \<and> length (da_nonce auth) < 128 \<and>
     length (da_uri auth) < 512 \<and> length (da_response auth) < 33 \<and> da_opaque auth = [] \<and>
     DQUOTE \<notin> set (da_username auth) \<union> set (da_realm auth) \<union> set (da_nonce auth) \<union> set (da_uri auth) \<union>
       set (da_response auth)"

lemma parse_client_header:
  assumes "auth_ok auth"
  shows "parse_auth_header (client_header auth) no_auth = Some auth"
proof -
  have step: "auth_loop (dropWhile is_sep (COMMA # SP # quoted name v rest)) a = auth_loop (dropWhile is_sep rest) a'"
    if "EQ \<notin> set name" "name \<noteq> []" "\<not> is_sep (hd name)" "DQUOTE \<notin> set v"
      "auth_directive (quoted name v rest) (v @ DQUOTE # rest) (length v) a = Some a'" for name v rest a a'
  proof -
    have "dropWhile is_sep (COMMA # SP # quoted name v rest) = quoted name v rest"
      using that(2,3) by (cases name) (simp_all add: is_sep_def quoted_def)
    then show ?thesis using auth_step [OF that(1,2,4,5)] by simp
  qed
  have names: "EQ \<notin> set ''username''" "EQ \<notin> set ''realm''" "EQ \<notin> set ''nonce''" "EQ \<notin> set ''uri''"
    "EQ \<notin> set ''response''" "\<not> is_sep (hd ''realm'')" "\<not> is_sep (hd ''nonce'')" "\<not> is_sep (hd ''uri'')"
    "\<not> is_sep (hd ''response'')"
    by (simp_all add: EQ_def is_sep_def DQUOTE_def COMMA_def SP_def)
  note ok = assms [unfolded auth_ok_def]
  have "map tolower ''Digest '' = map tolower ''digest ''" by code_simp
  then have digest: "parse_auth_header (''Digest '' @ x) a = auth_loop x a" for x a
    by (simp add: parse_auth_header_def strncaseeq_def del: list.map)
  have user: "auth_loop (quoted ''username'' (da_username auth) rest) a =
      auth_loop (dropWhile is_sep rest) (a\<lparr>da_username := da_username auth\<rparr>)" for rest a
    using ok by (intro auth_step names directives) simp_all
  have realm: "auth_loop (dropWhile is_sep (COMMA # SP # quoted ''realm'' (da_realm auth) rest)) a =
      auth_loop (dropWhile is_sep rest) (a\<lparr>da_realm := da_realm auth\<rparr>)" for rest a
    using ok by (intro step names directives) simp_all
  have nonce: "auth_loop (dropWhile is_sep (COMMA # SP # quoted ''nonce'' (da_nonce auth) rest)) a =
      auth_loop (dropWhile is_sep rest) (a\<lparr>da_nonce := da_nonce auth\<rparr>)" for rest a
    using ok by (intro step names directives) simp_all
  have uri: "auth_loop (dropWhile is_sep (COMMA # SP # quoted ''uri'' (da_uri auth) rest)) a =
      auth_loop (dropWhile is_sep rest) (a\<lparr>da_uri := da_uri auth\<rparr>)" for rest a
    using ok by (intro step names directives) simp_all
  have resp: "auth_loop (dropWhile is_sep (COMMA # SP # quoted ''response'' (da_response auth) rest)) a =
      auth_loop (dropWhile is_sep rest) (a\<lparr>da_response := da_response auth\<rparr>)" for rest a
    using ok by (intro step names directives) simp_all
  have "parse_auth_header (client_header auth) no_auth =
      auth_loop [] (no_auth\<lparr>da_username := da_username auth, da_realm := da_realm auth, da_nonce := da_nonce auth,
        da_uri := da_uri auth, da_response := da_response auth\<rparr>)"
    by (simp only: client_header_def digest user realm nonce uri resp dropWhile.simps(1))
  then show ?thesis using ok by (simp add: auth_loop.simps no_auth_def)
qed

text \<open>What the server keeps of a request that the checks read: its request line and the header.\<close>

definition request_with_auth :: "pmsg \<Rightarrow> string \<Rightarrow> string \<Rightarrow> string \<Rightarrow> bool" where
  "request_with_auth msg method uri hdr \<longleftrightarrow>
     request_line msg = Some (method, uri) \<and>
     (\<exists>p. get_header msg ''authorization'' = Some (Some p) \<and> cstr_at (pm_buf msg) p = Some hdr)"

text \<open>Once the response is right, the nonce decides.\<close>

lemma check_response_nonce:
  assumes "request_with_auth msg method uri hdr" "parse_auth_header hdr no_auth = Some auth"
    and "da_realm auth = realm" "username \<noteq> []" "password \<noteq> []" "strcaseeq (da_username auth) username"
    and "da_uri auth \<noteq> []" "da_response auth = create_response auth method password"
  shows "check_digest_response msg realm username password secret now = Some (check_nonce (da_nonce auth) secret now)"
  using assms by (auto simp: request_with_auth_def check_digest_response_def Let_def)

lemma show_hex_digits: "length ds = 16 \<Longrightarrow> set (show_hex ds n) \<subseteq> set ds"
  by (induction ds n rule: show_hex.induct) (subst show_hex.simps, auto)

lemma hex_text_digits: "set (hex_text bs) \<subseteq> set hex_lower"
proof -
  have "set (show_hex hex_lower n) \<subseteq> set hex_lower" for n
    by (rule show_hex_digits) (simp add: hex_lower_def)
  moreover have "CHR ''0'' \<in> set hex_lower" by (simp add: hex_lower_def)
  ultimately have "set (show_hex2 hex_lower n) \<subseteq> set hex_lower" for n by (simp add: show_hex2_def)
  then show ?thesis by (auto simp: hex_text_def)
qed

text \<open>A client and its request, for a secret that is only known as a string.\<close>

definition demo_auth :: digest_auth_info where
  "demo_auth =
     (let auth = \<lparr>da_realm = ''cam'', da_uri = ''/'', da_nonce = create_nonce ''5EC2E7'' 1000 (replicate 12 7),
                  da_opaque = [], da_username = ''Admin'', da_response = []\<rparr>
      in auth\<lparr>da_response := create_response auth ''GET'' ''pw''\<rparr>)"

definition demo_msg :: pmsg where
  "demo_msg = (new_pmsg 0)\<lparr>pm_buf := ''GET'' @ NUL # ''/'' @ NUL # ''Authorization'' @ NUL # client_header demo_auth @ [NUL],
     pm_fields := [(6, 20)], pm_sl := Req 0 4\<rparr>"

lemma demo_facts:
  "auth_ok demo_auth" "request_with_auth demo_msg ''GET'' ''/'' (client_header demo_auth)"
  "da_realm demo_auth = ''cam''" "strcaseeq (da_username demo_auth) ''admin''" "da_uri demo_auth \<noteq> []"
  "da_response demo_auth = create_response demo_auth ''GET'' ''pw''"
  "da_nonce demo_auth = create_nonce ''5EC2E7'' 1000 (replicate 12 7)"
proof -
  have digits: "DQUOTE \<notin> set (hex_text bs)" "NUL \<notin> set (hex_text bs)" for bs
    using hex_text_digits [of bs] by (auto simp: hex_lower_def DQUOTE_def NUL_def)
  then have plain: "c \<notin> set (create_nonce sec t rnd) \<and> c \<notin> set (create_response auth m pw)" if "c \<in> {DQUOTE, NUL}"
    for c sec t rnd auth m pw
    using that by (auto simp: create_nonce_def create_response_def md5_hash_def Let_def)
  have len: "length (create_response auth m pw) = 32" for auth m pw
    by (simp add: create_response_def length_md5_hash Let_def)
  have "length (create_nonce ''5EC2E7'' 1000 (replicate 12 7)) = 64"
    using create_nonce_parts(1) [of "replicate 12 7"] by simp
  then show "auth_ok demo_auth"
    using plain by (simp add: auth_ok_def demo_auth_def Let_def len) (simp add: DQUOTE_def)
  have nul: "NUL \<notin> set (client_header demo_auth)"
    using plain by (simp add: client_header_def quoted_def demo_auth_def Let_def) (simp add: NUL_def DQUOTE_def EQ_def COMMA_def SP_def)
  have "strcaseeq ''Authorization'' ''authorization''" by code_simp
  moreover have "cstr_at (pm_buf demo_msg) 6 = Some ''Authorization''"
    by (simp add: demo_msg_def cstr_at_def) (simp add: NUL_def)
  moreover have "cstr_at (pm_buf demo_msg) 20 = Some (client_header demo_auth)"
    using cstr_at_append [OF nul, of "''GET'' @ NUL # ''/'' @ NUL # ''Authorization'' @ [NUL]" "[]"]
    by (simp add: demo_msg_def eval_nat_numeral)
  moreover have "cstr_at (pm_buf demo_msg) 0 = Some ''GET''" "cstr_at (pm_buf demo_msg) 4 = Some ''/''"
    by (simp_all add: demo_msg_def cstr_at_def) (simp_all add: NUL_def)
  ultimately show "request_with_auth demo_msg ''GET'' ''/'' (client_header demo_auth)"
    by (simp add: request_with_auth_def request_line_def get_header_def demo_msg_def)
  show "da_realm demo_auth = ''cam''" "da_uri demo_auth \<noteq> []"
    "da_nonce demo_auth = create_nonce ''5EC2E7'' 1000 (replicate 12 7)"
    by (simp_all add: demo_auth_def)
  show "da_response demo_auth = create_response demo_auth ''GET'' ''pw''"
    by (simp add: demo_auth_def create_response_def Let_def)
  have "strcaseeq ''Admin'' ''admin''" by code_simp
  then show "strcaseeq (da_username demo_auth) ''admin''" by (simp add: demo_auth_def)
qed

text \<open>
  C22: a client that knows the user name and password and answers a challenge within 15 seconds is
  accepted: for any method and uri, and for a nonce the server created with its secret.
\<close>

theorem digest_accepts:
  assumes "request_with_auth msg method uri (client_header auth)" "auth_ok auth"
    and "da_realm auth = realm" "username \<noteq> []" "password \<noteq> []" "strcaseeq (da_username auth) username"
    and "da_uri auth \<noteq> []" "da_response auth = create_response auth method password"
    and "da_nonce auth = create_nonce secret t rnd" "length rnd = 12"
    and "0 \<le> t" "t < 2 ^ 31" "t \<le> now" "now \<le> t + 15"
  shows "check_digest_response msg realm username password (Some secret) now = Some 1"
  using check_response_nonce [OF assms(1) parse_client_header [OF assms(2)] assms(3-8)]
    check_nonce_fresh [OF assms(10-12,14), of secret] assms(9,11,13)
  by simp

theorem digest_accepts_witness:
  "check_digest_response demo_msg ''cam'' ''admin'' ''pw'' (Some ''5EC2E7'') 1010 = Some 1"
  by (rule digest_accepts [OF demo_facts(2,1,3) _ _ demo_facts(4,5,6,7)]) simp_all



text \<open>
  C24: the age check does not hold what the comment promises: a nonce of the time \<open>0x60000000\<close> is
  accepted until \<open>0x73333330\<close>, more than ten years later, whatever secret and random bytes it was made with.
\<close>

theorem nonce_expires_late:
  assumes "length rnd = 12"
  shows "check_nonce (create_nonce secret 0x60000000 rnd) (Some secret) 0x73333330 = 1"
proof -
  have p: "PUT_32 (word_of_int 0x60000000 :: u32) = [0x60, 0, 0, 0]" by code_simp
  have "take 8 (hex_text ([0x60, 0, 0, 0] @ rnd)) = ''60000000''"
    by (simp add: hex_text_def show_hex2_def show_hex.simps hex_lower_def)
  moreover have "hex_loop 0 ''60000000'' = 0x73333330" by code_simp
  ultimately have "get_hex_u32 (hex_text (PUT_32 (word_of_int 0x60000000 :: u32) @ rnd)) = 0x73333330"
    unfolding get_hex_u32_def p by simp
  then show ?thesis unfolding check_own_nonce [OF assms] by simp
qed

theorem nonce_expires_late_witness:
  "check_nonce (create_nonce ''00112233445566FF'' 0x60000000 (replicate 12 5)) (Some ''00112233445566FF'') 0x73333330 = 1"
  by (rule nonce_expires_late) simp


end
