(* ===== verification/Rtcp.thy ===== *)
theory Rtcp
  imports Media
begin

text \<open>
  Receiver reports: the parser of compound RTCP packets (rtcp-parse.c) and the quality analyser it
  feeds (qos-analyzer.c). A packet is a list of bytes and the read pointer of \<open>S_RTCP_MBLK\<close> an offset
  into it; a read behind the packet is a fault.

  Floating point: the loss rate \<open>100.0 * fraction / 256.0\<close> is exact in a \<open>float\<close> and kept as the
  fraction; the round trip time is a multiple of 1/65536, exact in the \<open>double\<close> of the endpoint and
  rounded to 24 bits in the \<open>float\<close> of the statistics; the jitter is kept in clock ticks. A value that
  was never written is \<^term>\<open>None\<close>; comparing with it gives the truth value passed as \<open>indet\<close>.
\<close>

subsection \<open>Fields of a packet\<close>

definition rd_16 :: "byte list \<Rightarrow> nat \<Rightarrow> nat option" where
  "rd_16 d i = do { a \<leftarrow> rd d i; b \<leftarrow> rd d (i + 1); Some (unat (GET_16 a b)) }"

definition rd_32 :: "byte list \<Rightarrow> nat \<Rightarrow> u32 option" where
  "rd_32 d i = do { a \<leftarrow> rd d i; b \<leftarrow> rd d (i + 1); c \<leftarrow> rd d (i + 2); e \<leftarrow> rd d (i + 3); Some (GET_32 a b c e) }"

definition eRTCP_RR :: byte where "eRTCP_RR = 201"

text \<open>\<open>RTCPGetCommonHeader\<close>: whether there is room for a header at the read pointer.\<close>

definition common_header :: "byte list \<Rightarrow> nat \<Rightarrow> bool" where
  "common_header d r \<longleftrightarrow> r + 4 \<le> length d"

definition RTCPGetSize :: "byte list \<Rightarrow> nat \<Rightarrow> nat option option" where
  "RTCPGetSize d r =
     (if common_header d r then do { n \<leftarrow> rd_16 d (r + 2); Some (Some ((1 + n) * 4)) } else Some None)"

text \<open>The new read pointer, or \<open>NULL\<close>.\<close>

definition RTCPNextPacket :: "byte list \<Rightarrow> nat \<Rightarrow> nat option option" where
  "RTCPNextPacket d r = do {
     sz \<leftarrow> RTCPGetSize d r;
     Some (case sz of Some n \<Rightarrow> if r + n < length d then Some (r + n) else None | None \<Rightarrow> None)
   }"

definition RTCPisRR :: "byte list \<Rightarrow> nat \<Rightarrow> bool option" where
  "RTCPisRR d r =
     (if common_header d r then do { t \<leftarrow> rd d (r + 1); Some (t = eRTCP_RR \<and> r + 32 \<le> length d) } else Some False)"

text \<open>\<open>RTCP_RR_GetReportBlock\<close>: the offset of the block with the given index.\<close>

definition RTCP_RR_GetReportBlock :: "byte list \<Rightarrow> nat \<Rightarrow> nat \<Rightarrow> nat option option" where
  "RTCP_RR_GetReportBlock d r idx = do {
     sz \<leftarrow> RTCPGetSize d r;
     let rb = r + 8 + 24 * idx;
     Some (if int (rb + 24) \<le> int r + (case sz of Some n \<Rightarrow> int n | None \<Rightarrow> -1) then Some rb else None)
   }"

subsection \<open>Round trip times\<close>

definition TimevalToNTP :: "int \<times> int \<Rightarrow> u64" where
  "TimevalToNTP tv =
     push_bit 32 (ucast (word_of_int (fst tv) + 0x83AA7E80 :: u32)) OR
     ucast (word_of_int (snd tv * 2 ^ 32 div 1000000) :: u32)"

text \<open>
  \<open>ComputeRTT\<close>: the difference is taken in 32-bit unsigned arithmetic before it is converted to
  \<open>double\<close>, so the test for a negative difference never fails.
\<close>

definition rtt_frac :: "int \<times> int \<Rightarrow> u32 \<Rightarrow> u32 \<Rightarrow> nat" where
  "rtt_frac now last_sr delay = unat (ucast (drop_bit 16 (TimevalToNTP now)) - last_sr - delay)"

definition ComputeRTT :: "nat option \<Rightarrow> int \<times> int \<Rightarrow> byte list \<Rightarrow> nat \<Rightarrow> nat option option" where
  "ComputeRTT rtt now d rb = do {
     last_sr \<leftarrow> rd_32 d (rb + 16);
     delay \<leftarrow> rd_32 d (rb + 20);
     Some (if last_sr \<noteq> 0 \<and> delay \<noteq> 0 then Some (rtt_frac now last_sr delay) else rtt)
   }"

text \<open>Rounding to the 24 bits of a \<open>float\<close>, to nearest and to even.\<close>

fun float_exp :: "nat \<Rightarrow> nat" where
  "float_exp n = (if n < 2 ^ 24 then 0 else Suc (float_exp (n div 2)))"

declare float_exp.simps [simp del]

definition to_float :: "nat \<Rightarrow> nat" where
  "to_float n =
     (let e = float_exp n; q = n div 2 ^ e; r = n mod 2 ^ e in
      if 2 ^ e < 2 * r \<or> 2 ^ e = 2 * r \<and> odd q then (q + 1) * 2 ^ e else q * 2 ^ e)"

subsection \<open>The analyser\<close>

datatype rate_ctrl_act = Act_do_nothing | Act_dec_bitrate int | Act_dec_packetrate | Act_inc_quality

record rtp_stats =
  st_high_seq :: u64
  st_lost :: nat
  st_jitter :: nat
  st_rtt :: "nat option"

definition STATS_HISTORY :: nat where "STATS_HISTORY = 3"

text \<open>\<open>i32CurIndex\<close> counts the reports; two to the 31 of them, where it would overflow, are out of reach.\<close>

record qos_analyser =
  an_ssrc :: u32
  an_stats :: "rtp_stats list"
  an_cur :: nat
  an_doubled :: bool

definition no_stats :: rtp_stats where
  "no_stats = \<lparr>st_high_seq = 0, st_lost = 0, st_jitter = 0, st_rtt = Some 0\<rparr>"

definition SimpleQOSAnalyserNew :: "u32 \<Rightarrow> qos_analyser" where
  "SimpleQOSAnalyserNew ssrc =
     \<lparr>an_ssrc = ssrc, an_stats = replicate STATS_HISTORY no_stats, an_cur = 0, an_doubled = False\<rparr>"

definition cur_stats :: "qos_analyser \<Rightarrow> rtp_stats" where
  "cur_stats an = an_stats an ! (an_cur an mod STATS_HISTORY)"

definition prev_stats :: "qos_analyser \<Rightarrow> rtp_stats" where
  "prev_stats an = an_stats an ! ((STATS_HISTORY + an_cur an - 1) mod STATS_HISTORY)"

text \<open>\<open>SimpleAnalyserProcRTCP\<close>; \<open>rtt\<close> is the \<open>dRTT\<close> of the endpoint.\<close>

definition block_stats :: "byte list \<Rightarrow> nat \<Rightarrow> nat option \<Rightarrow> rtp_stats option" where
  "block_stats d rb rtt = do {
     fr \<leftarrow> rd_32 d (rb + 4);
     high \<leftarrow> rd_32 d (rb + 8);
     jit \<leftarrow> rd_32 d (rb + 12);
     Some \<lparr>st_high_seq = ucast high, st_lost = unat (drop_bit 24 fr), st_jitter = unat jit,
           st_rtt = map_option to_float rtt\<rparr>
   }"

definition SimpleAnalyserProcRTCP ::
  "byte list \<Rightarrow> nat \<Rightarrow> nat option \<Rightarrow> qos_analyser \<Rightarrow> (bool \<times> qos_analyser) option" where
  "SimpleAnalyserProcRTCP d r rtt an = do {
     b \<leftarrow> RTCP_RR_GetReportBlock d r 0;
     (case b of
        None \<Rightarrow> Some (False, an)
      | Some rb \<Rightarrow> do {
          ssrc \<leftarrow> rd_32 d rb;
          if ssrc = an_ssrc an then do {
            st \<leftarrow> block_stats d rb rtt;
            let cur = an_cur an + 1;
            Some (True, an\<lparr>an_cur := cur, an_stats := (an_stats an)[cur mod STATS_HISTORY := st]\<rparr>)
          }
          else Some (True, an)
        })
   }"

text \<open>
  \<open>RoundTripPropDoubled\<close>: \<open>fSignificantDelay\<close> is the \<open>float\<close> nearest to 0.2, 13421773 / 67108864.
\<close>

definition RoundTripPropDoubled :: "bool \<Rightarrow> rtp_stats \<Rightarrow> rtp_stats \<Rightarrow> bool" where
  "RoundTripPropDoubled indet cur prev =
     (case (st_rtt cur, st_rtt prev) of
        (Some c, Some p) \<Rightarrow> 13421773 \<le> c * 1024 \<and> 0 < p \<and> p * 2 \<le> c
      | _ \<Rightarrow> indet)"

definition RoundTripPropIncreased :: "bool \<Rightarrow> qos_analyser \<Rightarrow> bool \<times> qos_analyser" where
  "RoundTripPropIncreased indet an =
     (if RoundTripPropDoubled indet (cur_stats an) (prev_stats an) then (True, an\<lparr>an_doubled := True\<rparr>)
      else (False, an))"

text \<open>
  A loss of at least \<open>fUnacceptableLossRate\<close> = 10 percent, and a jitter of at least \<open>i32BigJitter\<close> =
  10 ms, which at 90000 ticks per second are 900 ticks.
\<close>

definition big_loss :: "rtp_stats \<Rightarrow> bool" where
  "big_loss st \<longleftrightarrow> 10 * 256 \<le> 100 * st_lost st"

definition big_jitter :: "rtp_stats \<Rightarrow> bool" where
  "big_jitter st \<longleftrightarrow> 900 \<le> st_jitter st"

definition SimpleAnalyserSuggestAction :: "bool \<Rightarrow> qos_analyser \<Rightarrow> rate_ctrl_act \<times> qos_analyser" where
  "SimpleAnalyserSuggestAction indet an =
     (let cur = cur_stats an in
      if big_loss cur \<and> big_jitter cur then
        (Act_dec_bitrate (if 50 * 256 < 100 * st_lost cur then 50 else int (100 * st_lost cur div 256)), an)
      else
        let (inc, an) = RoundTripPropIncreased indet an in
        if inc then (Act_dec_bitrate 20, an)
        else if big_loss cur then (Act_dec_packetrate, an)
        else (Act_do_nothing, an))"

definition SimpleAnalyserHasImproved :: "bool \<Rightarrow> qos_analyser \<Rightarrow> bool \<times> qos_analyser" where
  "SimpleAnalyserHasImproved indet an =
     (let cur = cur_stats an; prev = prev_stats an in
      if big_loss prev then (st_lost cur < st_lost prev, an)
      else if an_doubled an \<and> (case (st_rtt cur, st_rtt prev) of (Some c, Some p) \<Rightarrow> c < p | _ \<Rightarrow> indet)
      then (True, an\<lparr>an_doubled := False\<rparr>)
      else (False, an))"

subsection \<open>Compound packets\<close>

text \<open>
  The members of an endpoint that the parser works on. The actions it suggests are collected: the
  command to the encoder, \<open>QOSAnalyser_SendSuggActCommand\<close>, is compiled out.
\<close>

record ep_qos =
  q_rtt :: "nat option"
  q_format :: int
  q_analyser :: "qos_analyser option"

definition proc_report ::
  "bool \<Rightarrow> int \<times> int \<Rightarrow> byte list \<Rightarrow> nat \<Rightarrow> ep_qos \<Rightarrow> (rate_ctrl_act list \<times> ep_qos) option" where
  "proc_report indet now d r q = do {
     rr \<leftarrow> RTCPisRR d r;
     if \<not> rr then Some ([], q)
     else do {
       b \<leftarrow> RTCP_RR_GetReportBlock d r 0;
       (case b of
          None \<Rightarrow> Some ([], q)
        | Some rb \<Rightarrow> do {
            rtt \<leftarrow> ComputeRTT (q_rtt q) now d rb;
            let q = q\<lparr>q_rtt := rtt\<rparr>;
            (case q_analyser q of
               Some an \<Rightarrow>
                 if q_format q = FORMAT_H264 \<or> q_format q = FORMAT_JPEG then do {
                   (ok, an) \<leftarrow> SimpleAnalyserProcRTCP d r rtt an;
                   let (act, an) = SimpleAnalyserSuggestAction indet an;
                   Some ([act], q\<lparr>q_analyser := Some an\<rparr>)
                 }
                 else Some ([], q)
             | None \<Rightarrow> Some ([], q))
          })
     }
   }"

text \<open>The loop over the packets; \<open>now k\<close> is the time read in round \<open>k\<close>.\<close>

partial_function (option) rtcp_loop ::
  "bool \<Rightarrow> (nat \<Rightarrow> int \<times> int) \<Rightarrow> nat \<Rightarrow> byte list \<Rightarrow> nat \<Rightarrow> ep_qos \<Rightarrow> (rate_ctrl_act list \<times> ep_qos) option" where
  "rtcp_loop indet now k d r q = do {
     (acts, q1) \<leftarrow> proc_report indet (now k) d r q;
     nxt \<leftarrow> RTCPNextPacket d r;
     (case nxt of
        None \<Rightarrow> Some (acts, q1)
      | Some r' \<Rightarrow> do {
          (acts', q2) \<leftarrow> rtcp_loop indet now (Suc k) d r' q1;
          Some (acts @ acts', q2)
        })
   }"

definition ProcRTCPPacket ::
  "bool \<Rightarrow> (nat \<Rightarrow> int \<times> int) \<Rightarrow> byte list \<Rightarrow> ep_qos \<Rightarrow> (rate_ctrl_act list \<times> ep_qos) option" where
  "ProcRTCPPacket indet now d q =
     (if length d < 4 then Some ([], q)
      else do {
        b \<leftarrow> rd d 0;
        if drop_bit 6 b \<noteq> 2 then Some ([], q) else rtcp_loop indet now 0 d 0 q
      })"

subsection \<open>The parser stays inside the packet and ends\<close>

lemma rd_32_in: "i + 4 \<le> length d \<Longrightarrow> \<exists>w. rd_32 d i = Some w"
  by (simp add: rd_32_def)

lemma rd_16_in: "i + 2 \<le> length d \<Longrightarrow> \<exists>w. rd_16 d i = Some w"
  by (simp add: rd_16_def)

lemma RTCPGetSize_total:
  "\<exists>sz. RTCPGetSize d r = Some sz \<and> (sz = None \<longleftrightarrow> \<not> common_header d r) \<and> (\<forall>n. sz = Some n \<longrightarrow> 4 \<le> n)"
  using rd_16_in [of "r + 2" d] by (auto simp: RTCPGetSize_def common_header_def)

lemma RTCPNextPacket_total:
  "\<exists>nxt. RTCPNextPacket d r = Some nxt \<and> (\<forall>r'. nxt = Some r' \<longrightarrow> r + 4 \<le> r' \<and> r' < length d)"
  using RTCPGetSize_total [of d r] by (auto simp: RTCPNextPacket_def split: option.splits if_splits)

lemma RTCPisRR_total: "\<exists>rr. RTCPisRR d r = Some rr \<and> (rr \<longrightarrow> r + 32 \<le> length d)"
  by (auto simp: RTCPisRR_def common_header_def)

lemma GetReportBlock_total:
  "\<exists>b. RTCP_RR_GetReportBlock d r 0 = Some b \<and> (\<forall>rb. b = Some rb \<longrightarrow> rb = r + 8)"
  using RTCPGetSize_total [of d r] by (auto simp: RTCP_RR_GetReportBlock_def split: if_splits)

definition analyser_ok :: "qos_analyser \<Rightarrow> bool" where
  "analyser_ok an \<longleftrightarrow> length (an_stats an) = STATS_HISTORY"

definition qos_ok :: "ep_qos \<Rightarrow> bool" where
  "qos_ok q \<longleftrightarrow> (\<forall>an. q_analyser q = Some an \<longrightarrow> analyser_ok an)"

lemma SimpleAnalyserProcRTCP_total:
  assumes "r + 32 \<le> length d"
  shows "\<exists>b an'. SimpleAnalyserProcRTCP d r rtt an = Some (b, an') \<and> (analyser_ok an \<longrightarrow> analyser_ok an')"
proof -
  obtain b where b: "RTCP_RR_GetReportBlock d r 0 = Some b" "\<forall>rb. b = Some rb \<longrightarrow> rb = r + 8"
    using GetReportBlock_total by blast
  have "\<exists>st. block_stats d (r + 8) rtt = Some st"
    using rd_32_in [of "r + 12" d] rd_32_in [of "r + 16" d] rd_32_in [of "r + 20" d] assms
    by (auto simp: block_stats_def add.assoc)
  moreover have "\<exists>w. rd_32 d (r + 8) = Some w" using rd_32_in [of "r + 8" d] assms by simp
  ultimately show ?thesis using b
    by (cases b) (auto simp: SimpleAnalyserProcRTCP_def analyser_ok_def)
qed

lemma SuggestAction_ok:
  "SimpleAnalyserSuggestAction indet an = (act, an') \<Longrightarrow> analyser_ok an \<Longrightarrow> analyser_ok an'"
  by (auto simp: SimpleAnalyserSuggestAction_def RoundTripPropIncreased_def analyser_ok_def Let_def
      split: if_splits prod.splits)

lemma ComputeRTT_total: "rb + 24 \<le> length d \<Longrightarrow> \<exists>x. ComputeRTT rtt now d rb = Some x"
  using rd_32_in [of "rb + 16" d] rd_32_in [of "rb + 20" d] by (auto simp: ComputeRTT_def)

lemma proc_report_total:
  "\<exists>acts q'. proc_report indet now d r q = Some (acts, q') \<and> length acts \<le> 1 \<and> (qos_ok q \<longrightarrow> qos_ok q')"
proof -
  obtain rr where rr: "RTCPisRR d r = Some rr" "rr \<longrightarrow> r + 32 \<le> length d" using RTCPisRR_total by blast
  obtain b where b: "RTCP_RR_GetReportBlock d r 0 = Some b" "\<forall>rb. b = Some rb \<longrightarrow> rb = r + 8"
    using GetReportBlock_total by blast
  show ?thesis
  proof (cases "rr \<and> b \<noteq> None")
    case False
    with rr(1) b(1) show ?thesis by (cases b) (auto simp: proc_report_def)
  next
    case True
    with rr b have len: "r + 32 \<le> length d" and b8: "b = Some (r + 8)" by auto
    from len have "r + 8 + 24 \<le> length d" by simp
    from ComputeRTT_total [OF this] obtain x where x: "ComputeRTT (q_rtt q) now d (r + 8) = Some x" by blast
    show ?thesis
    proof (cases "q_analyser q")
      case None
      with True rr(1) b(1) b8 x show ?thesis by (auto simp: proc_report_def qos_ok_def Let_def)
    next
      case (Some an)
      obtain c an1 where 1: "SimpleAnalyserProcRTCP d r x an = Some (c, an1)" "analyser_ok an \<longrightarrow> analyser_ok an1"
        using SimpleAnalyserProcRTCP_total [OF len] by blast
      obtain act an2 where 2: "SimpleAnalyserSuggestAction indet an1 = (act, an2)" by (rule prod.exhaust)
      from True rr(1) b(1) b8 x Some 1 2 SuggestAction_ok [OF 2] show ?thesis
        by (auto simp: proc_report_def qos_ok_def Let_def)
    qed
  qed
qed

lemma rtcp_loop_total:
  "r < length d \<Longrightarrow> \<exists>acts q'. rtcp_loop indet now k d r q = Some (acts, q') \<and> 4 * length acts \<le> length d - r + 3 \<and>
     (qos_ok q \<longrightarrow> qos_ok q')"
proof (induction "length d - r" arbitrary: k r q rule: less_induct)
  case less
  obtain acts q1 where 1: "proc_report indet (now k) d r q = Some (acts, q1)" "length acts \<le> 1"
    "qos_ok q \<longrightarrow> qos_ok q1" using proc_report_total by blast
  obtain nxt where n: "RTCPNextPacket d r = Some nxt" "\<forall>r'. nxt = Some r' \<longrightarrow> r + 4 \<le> r' \<and> r' < length d"
    using RTCPNextPacket_total by blast
  show ?case
  proof (cases nxt)
    case None
    with 1 n(1) less.prems show ?thesis by (subst rtcp_loop.simps) simp
  next
    case (Some r')
    with n have r': "r + 4 \<le> r'" "r' < length d" by auto
    then have "length d - r' < length d - r" by linarith
    from less.hyps [OF this r'(2)] obtain acts' q2 where 2: "rtcp_loop indet now (Suc k) d r' q1 = Some (acts', q2)"
      "4 * length acts' \<le> length d - r' + 3" "qos_ok q1 \<longrightarrow> qos_ok q2" by blast
    have "length d - r' + 4 \<le> length d - r" using r' by linarith
    with 1(2) 2(2) have "4 * (length acts + length acts') \<le> length d - r + 3" by simp
    with 1 2 n(1) Some show ?thesis by (subst rtcp_loop.simps) simp
  qed
qed

text \<open>
  C26: whatever bytes a client sends as RTCP, the parser returns: it reads nothing outside the packet,
  the loop over the compound packet ends, after at most one round for every four bytes, and the
  statistics of the analyser keep their shape.
\<close>

theorem ProcRTCPPacket_returns:
  "\<exists>acts q'. ProcRTCPPacket indet now d q = Some (acts, q') \<and> 4 * length acts \<le> length d + 3 \<and>
     (qos_ok q \<longrightarrow> qos_ok q')"
proof (cases "length d < 4")
  case False
  then have "0 < length d" by linarith
  with False rtcp_loop_total [OF this, of indet now 0 q] show ?thesis by (simp add: ProcRTCPPacket_def del: length_greater_0_conv)
qed (auto simp: ProcRTCPPacket_def)

theorem ProcRTCPPacket_returns_witness:
  "\<exists>acts q'. ProcRTCPPacket False (\<lambda>_. (0, 0)) [0x80, 201, 0, 0, 0x80, 201, 255]
       \<lparr>q_rtt = None, q_format = FORMAT_JPEG, q_analyser = Some (SimpleQOSAnalyserNew 7)\<rparr> = Some (acts, q') \<and> qos_ok q'"
  using ProcRTCPPacket_returns [of False "\<lambda>_. (0, 0)" "[0x80, 201, 0, 0, 0x80, 201, 255]"
      "\<lparr>q_rtt = None, q_format = FORMAT_JPEG, q_analyser = Some (SimpleQOSAnalyserNew 7)\<rparr>"]
  by (auto simp: qos_ok_def analyser_ok_def SimpleQOSAnalyserNew_def)

subsection \<open>A receiver report\<close>

text \<open>A receiver report with one block, as RFC 3550 lays it out.\<close>

definition rr_packet :: "u32 \<Rightarrow> u32 \<Rightarrow> nat \<Rightarrow> u32 \<Rightarrow> u32 \<Rightarrow> u32 \<Rightarrow> u32 \<Rightarrow> byte list" where
  "rr_packet src ssrc lost high jitter last_sr delay =
     [0x81, 201] @ PUT_16 (7 :: u32) @ PUT_32 src @ PUT_32 ssrc @ PUT_32 (push_bit 24 (word_of_nat lost :: u32)) @
     PUT_32 high @ PUT_32 jitter @ PUT_32 last_sr @ PUT_32 delay"

lemma length_rr_packet [simp]: "length (rr_packet src ssrc lost high jitter last_sr delay) = 32"
  by (simp add: rr_packet_def)








end
