(* ===== verification/Streams.thy ===== *)
theory Streams
  imports Media
begin

text \<open>
  Streams (stream.c): each has a list of destinations, and a source that is told to run while some
  destination is waiting for frames. A stream may be a conversion of another one, whose destination it
  then is. Streams and destinations are kept in maps by their addresses; the linked lists are lists of
  addresses. What a frame source does when it is called is outside this theory: the calls are recorded.
\<close>

subsection \<open>Streams and destinations\<close>

text \<open>
  \<open>process_frame\<close> with its argument: a track of a live source, an HTTP location, a conversion, or the
  input of an encoder.
\<close>

datatype dest_proc = Proc_live nat nat | Proc_http nat | Proc_convert nat | Proc_encoder nat

record stream_dest =
  d_stream :: nat
  d_waiting :: bool
  d_proc :: dest_proc

text \<open>
  \<open>set_running\<close>: \<open>NULL\<close>, the function of a frame source, or that of stream.c with the destination in
  \<open>private\<close>. The two optional functions are \<open>NULL\<close>, set by a source, or left uninitialised.
\<close>

datatype run_func = Run_null | Run_source | Run_convert nat

datatype opt_func = Fn_null | Fn_source | Fn_garbage

record stream =
  str_name :: string
  str_format :: int
  str_dests :: "nat list"
  str_run :: run_func
  str_notify :: opt_func
  str_enc_pipe :: opt_func

datatype source_call = Set_running nat bool | New_listener nat | Get_pipe_num nat

record streams =
  sm_list :: "nat list"
  sm_streams :: "nat \<Rightarrow> stream option"
  sm_dests :: "nat \<Rightarrow> stream_dest option"
  sm_next :: nat
  sm_calls :: "source_call list"

definition no_streams :: streams where
  "no_streams = \<lparr>sm_list = [], sm_streams = (\<lambda>_. None), sm_dests = (\<lambda>_. None), sm_next = 0, sm_calls = []\<rparr>"

definition set_stream :: "nat \<Rightarrow> stream \<Rightarrow> streams \<Rightarrow> streams" where
  "set_stream s x m = m\<lparr>sm_streams := (sm_streams m)(s \<mapsto> x)\<rparr>"

definition set_dest :: "nat \<Rightarrow> stream_dest \<Rightarrow> streams \<Rightarrow> streams" where
  "set_dest d x m = m\<lparr>sm_dests := (sm_dests m)(d \<mapsto> x)\<rparr>"

definition call_source :: "source_call \<Rightarrow> streams \<Rightarrow> streams" where
  "call_source c m = m\<lparr>sm_calls := sm_calls m @ [c]\<rparr>"

subsection \<open>Creating and connecting\<close>

text \<open>The name is copied into an array of 256 bytes.\<close>

definition new_stream :: "string \<Rightarrow> int \<Rightarrow> streams \<Rightarrow> (nat \<times> streams) option" where
  "new_stream name format m =
     (if 256 \<le> length name then None
      else
        let s = sm_next m in
        Some (s, (set_stream s \<lparr>str_name = name, str_format = format, str_dests = [], str_run = Run_null,
                   str_notify = Fn_null, str_enc_pipe = Fn_null\<rparr> m)\<lparr>sm_next := Suc s, sm_list := s # sm_list m\<rparr>))"

text \<open>A source installs its functions in the stream it created.\<close>

definition install_source :: "nat \<Rightarrow> bool \<Rightarrow> bool \<Rightarrow> streams \<Rightarrow> streams option" where
  "install_source s notify pipe m = do {
     x \<leftarrow> sm_streams m s;
     Some (set_stream s (x\<lparr>str_run := Run_source, str_notify := (if notify then Fn_source else str_notify x),
       str_enc_pipe := (if pipe then Fn_source else str_enc_pipe x)\<rparr>) m)
   }"

definition new_dest :: "nat \<Rightarrow> dest_proc \<Rightarrow> streams \<Rightarrow> (nat \<times> streams) option" where
  "new_dest s p m = do {
     x \<leftarrow> sm_streams m s;
     let d = sm_next m;
     Some (d, set_stream s (x\<lparr>str_dests := d # str_dests x\<rparr>)
       (set_dest d \<lparr>d_stream = s, d_waiting = False, d_proc = p\<rparr> (m\<lparr>sm_next := Suc d\<rparr>)))
   }"

fun insert_after :: "nat \<Rightarrow> nat \<Rightarrow> nat list \<Rightarrow> nat list" where
  "insert_after a b [] = []"
| "insert_after a b (x # xs) = (if x = a then x # b # xs else x # insert_after a b xs)"

definition new_convert_stream :: "nat \<Rightarrow> int \<Rightarrow> streams \<Rightarrow> (nat \<times> streams) option" where
  "new_convert_stream base format m = do {
     b \<leftarrow> sm_streams m base;
     let s = sm_next m;
     let m = m\<lparr>sm_next := Suc s, sm_list := insert_after base s (sm_list m)\<rparr>;
     (d, m) \<leftarrow> new_dest base (Proc_convert s) m;
     Some (s, set_stream s \<lparr>str_name = str_name b, str_format = format, str_dests = [], str_run = Run_convert d,
       str_notify = Fn_garbage, str_enc_pipe = Fn_garbage\<rparr> m)
   }"

definition format_match :: "int \<Rightarrow> int list \<Rightarrow> bool" where
  "format_match format formats \<longleftrightarrow> formats = [] \<or> format \<in> set formats"

fun find_stream :: "streams \<Rightarrow> (stream \<Rightarrow> bool) \<Rightarrow> nat list \<Rightarrow> nat option option" where
  "find_stream m P [] = Some None"
| "find_stream m P (s # ss) = do {
     x \<leftarrow> sm_streams m s;
     if P x then Some (Some s) else find_stream m P ss
   }"

text \<open>The result \<open>NULL\<close> is the inner \<^term>\<open>None\<close>.\<close>

definition connect_to_stream ::
  "string \<Rightarrow> dest_proc \<Rightarrow> int list \<Rightarrow> streams \<Rightarrow> (nat option \<times> streams) option" where
  "connect_to_stream name p formats m = do {
     r \<leftarrow> find_stream m (\<lambda>x. str_name x = name \<and> format_match (str_format x) formats) (sm_list m);
     (case r of
        Some s \<Rightarrow> do { (d, m) \<leftarrow> new_dest s p m; Some (Some d, m) }
      | None \<Rightarrow> do {
          r \<leftarrow> find_stream m (\<lambda>x. str_name x = name \<and> str_format x = FORMAT_RAW_UYVY \<and>
                format_match FORMAT_RAW_RGB24 formats) (sm_list m);
          (case r of
             None \<Rightarrow> Some (None, m)
           | Some s \<Rightarrow> do {
               (c, m) \<leftarrow> new_convert_stream s FORMAT_RAW_RGB24 m;
               (d, m) \<leftarrow> new_dest c p m;
               Some (Some d, m)
             })
        })
   }"

definition del_stream :: "nat \<Rightarrow> streams \<Rightarrow> streams option" where
  "del_stream s m = do {
     x \<leftarrow> sm_streams m s;
     Some (m\<lparr>sm_list := removeAll s (sm_list m), sm_streams := (sm_streams m)(s := None)\<rparr>)
   }"

subsection \<open>Waiting\<close>

fun any_waiting :: "streams \<Rightarrow> nat list \<Rightarrow> bool option" where
  "any_waiting m [] = Some False"
| "any_waiting m (d # ds) = do {
     x \<leftarrow> sm_dests m d;
     b \<leftarrow> any_waiting m ds;
     Some (d_waiting x \<or> b)
   }"

text \<open>\<open>set_waiting\<close> with the \<open>set_running\<close> of stream.c, which calls it for the destination in \<open>private\<close>.\<close>

partial_function (option) set_waiting :: "nat \<Rightarrow> bool \<Rightarrow> streams \<Rightarrow> streams option" where
  "set_waiting d waiting m = do {
     x \<leftarrow> sm_dests m d;
     s \<leftarrow> sm_streams m (d_stream x);
     if d_waiting x = waiting then Some m
     else do {
       let m = set_dest d (x\<lparr>d_waiting := waiting\<rparr>) m;
       others \<leftarrow> (if waiting then Some False else any_waiting m (str_dests s));
       if others then Some m
       else (case str_run s of
           Run_null \<Rightarrow> None
         | Run_source \<Rightarrow> Some (call_source (Set_running (d_stream x) waiting) m)
         | Run_convert p \<Rightarrow> set_waiting p waiting m)
     }
   }"

definition new_listener_notify :: "nat \<Rightarrow> streams \<Rightarrow> streams option" where
  "new_listener_notify d m = do {
     x \<leftarrow> sm_dests m d;
     s \<leftarrow> sm_streams m (d_stream x);
     (case str_notify s of
        Fn_null \<Rightarrow> Some m
      | Fn_source \<Rightarrow> Some (call_source (New_listener (d_stream x)) m)
      | Fn_garbage \<Rightarrow> None)
   }"

definition get_enc_pipe_num :: "nat \<Rightarrow> streams \<Rightarrow> streams option" where
  "get_enc_pipe_num d m = do {
     x \<leftarrow> sm_dests m d;
     s \<leftarrow> sm_streams m (d_stream x);
     (case str_enc_pipe s of
        Fn_null \<Rightarrow> Some m
      | Fn_source \<Rightarrow> Some (call_source (Get_pipe_num (d_stream x)) m)
      | Fn_garbage \<Rightarrow> None)
   }"

subsection \<open>A source runs while somebody waits\<close>

text \<open>
  What a source has been told last, and what a stream has passed on: to its source, or to the
  destination through which it gets the frames it converts.
\<close>

definition run_state :: "nat \<Rightarrow> source_call list \<Rightarrow> bool" where
  "run_state s calls =
     fold (\<lambda>c r. case c of Set_running s' r' \<Rightarrow> if s' = s then r' else r | _ \<Rightarrow> r) calls False"

definition dest_waits :: "streams \<Rightarrow> nat \<Rightarrow> bool" where
  "dest_waits m d \<longleftrightarrow> (case sm_dests m d of Some x \<Rightarrow> d_waiting x | None \<Rightarrow> False)"

definition waits :: "streams \<Rightarrow> stream \<Rightarrow> bool" where
  "waits m x \<longleftrightarrow> (\<exists>d \<in> set (str_dests x). dest_waits m d)"

fun told :: "streams \<Rightarrow> nat \<Rightarrow> run_func \<Rightarrow> bool" where
  "told m s Run_null = False"
| "told m s Run_source = run_state s (sm_calls m)"
| "told m s (Run_convert p) = dest_waits m p"

definition streams_wf :: "streams \<Rightarrow> bool" where
  "streams_wf m \<longleftrightarrow>
     (\<forall>d x. sm_dests m d = Some x \<longrightarrow>
        d < sm_next m \<and> (\<exists>s. sm_streams m (d_stream x) = Some s \<and> d \<in> set (str_dests s))) \<and>
     (\<forall>i s. sm_streams m i = Some s \<longrightarrow>
        i < sm_next m \<and> (\<forall>d \<in> set (str_dests s). \<exists>x. sm_dests m d = Some x \<and> d_stream x = i) \<and>
        (\<forall>p. str_run s = Run_convert p \<longrightarrow>
           (\<exists>x. sm_dests m p = Some x \<and> d_stream x < i \<and> d_proc x = Proc_convert i))) \<and>
     set (sm_list m) \<subseteq> {i. sm_streams m i \<noteq> None} \<and>
     (\<forall>s r. Set_running s r \<in> set (sm_calls m) \<longrightarrow> s < sm_next m)"

definition balanced :: "streams \<Rightarrow> bool" where
  "balanced m \<longleftrightarrow> (\<forall>i s. sm_streams m i = Some s \<longrightarrow> told m i (str_run s) = waits m s)"

definition installed :: "streams \<Rightarrow> bool" where
  "installed m \<longleftrightarrow> (\<forall>i s. sm_streams m i = Some s \<longrightarrow> str_run s \<noteq> Run_null)"

text \<open>What \<open>set_waiting\<close> leaves alone.\<close>

definition same_shape :: "streams \<Rightarrow> streams \<Rightarrow> bool" where
  "same_shape m m' \<longleftrightarrow>
     sm_streams m' = sm_streams m \<and> sm_list m' = sm_list m \<and> sm_next m' = sm_next m \<and>
     (\<forall>d. map_option (\<lambda>x. (d_stream x, d_proc x)) (sm_dests m' d) =
          map_option (\<lambda>x. (d_stream x, d_proc x)) (sm_dests m d))"

lemma same_shape_refl [simp]: "same_shape m m"
  by (simp add: same_shape_def)

lemma same_shape_trans: "same_shape m m' \<Longrightarrow> same_shape m' m'' \<Longrightarrow> same_shape m m''"
  by (simp add: same_shape_def)

lemma same_shape_dest:
  assumes "same_shape m m'" "sm_dests m' d = Some x'"
  obtains x where "sm_dests m d = Some x" "d_stream x' = d_stream x" "d_proc x' = d_proc x"
proof -
  have "map_option (\<lambda>x. (d_stream x, d_proc x)) (sm_dests m' d) = map_option (\<lambda>x. (d_stream x, d_proc x)) (sm_dests m d)"
    using assms(1) unfolding same_shape_def by blast
  with assms(2) that show ?thesis by (cases "sm_dests m d") auto
qed

lemma same_shape_sym: "same_shape m m' \<Longrightarrow> same_shape m' m"
  by (simp add: same_shape_def)

lemma same_shape_wf:
  assumes "same_shape m m'" "streams_wf m" "\<forall>s r. Set_running s r \<in> set (sm_calls m') \<longrightarrow> s < sm_next m"
  shows "streams_wf m'"
proof -
  have eq: "sm_streams m' = sm_streams m" "sm_list m' = sm_list m" "sm_next m' = sm_next m"
    using assms(1) by (simp_all add: same_shape_def)
  have d: "\<exists>x'. sm_dests m' d = Some x' \<and> d_stream x' = d_stream x \<and> d_proc x' = d_proc x"
    if "sm_dests m d = Some x" for d x
    by (rule same_shape_dest [OF same_shape_sym [OF assms(1)] that]) auto
  have "d < sm_next m' \<and> (\<exists>s. sm_streams m' (d_stream x) = Some s \<and> d \<in> set (str_dests s))"
    if x: "sm_dests m' d = Some x" for d x
  proof (rule same_shape_dest [OF assms(1) x])
    fix y assume "sm_dests m d = Some y" "d_stream x = d_stream y"
    with assms(2) show ?thesis unfolding eq streams_wf_def by simp
  qed
  moreover have "i < sm_next m' \<and> (\<forall>d \<in> set (str_dests s). \<exists>x. sm_dests m' d = Some x \<and> d_stream x = i) \<and>
     (\<forall>p. str_run s = Run_convert p \<longrightarrow> (\<exists>x. sm_dests m' p = Some x \<and> d_stream x < i \<and> d_proc x = Proc_convert i))"
    if "sm_streams m' i = Some s" for i s
  proof -
    have s: "i < sm_next m" "\<forall>d \<in> set (str_dests s). \<exists>x. sm_dests m d = Some x \<and> d_stream x = i"
      "\<forall>p. str_run s = Run_convert p \<longrightarrow> (\<exists>x. sm_dests m p = Some x \<and> d_stream x < i \<and> d_proc x = Proc_convert i)"
      using that assms(2) unfolding eq streams_wf_def by simp_all
    from s(2) d have "\<forall>d \<in> set (str_dests s). \<exists>x. sm_dests m' d = Some x \<and> d_stream x = i" by fastforce
    moreover from s(3) d have "\<forall>p. str_run s = Run_convert p \<longrightarrow>
        (\<exists>x. sm_dests m' p = Some x \<and> d_stream x < i \<and> d_proc x = Proc_convert i)" by fastforce
    ultimately show ?thesis using s(1) unfolding eq by blast
  qed
  ultimately show ?thesis using assms(2,3) unfolding streams_wf_def eq by blast
qed

lemma any_waiting_waits:
  "\<forall>d \<in> set ds. sm_dests m d \<noteq> None \<Longrightarrow> any_waiting m ds = Some (\<exists>d \<in> set ds. dest_waits m d)"
  by (induction ds) (auto simp: dest_waits_def)

lemma set_dest_wf:
  assumes "streams_wf m" "sm_dests m d = Some x"
  shows "same_shape m (set_dest d (x\<lparr>d_waiting := w\<rparr>) m)" "streams_wf (set_dest d (x\<lparr>d_waiting := w\<rparr>) m)"
proof -
  show "same_shape m (set_dest d (x\<lparr>d_waiting := w\<rparr>) m)"
    using assms(2) by (simp add: same_shape_def set_dest_def)
  moreover have "sm_calls (set_dest d (x\<lparr>d_waiting := w\<rparr>) m) = sm_calls m" by (simp add: set_dest_def)
  moreover have "\<forall>s r. Set_running s r \<in> set (sm_calls m) \<longrightarrow> s < sm_next m"
    using assms(1) unfolding streams_wf_def by simp
  ultimately show "streams_wf (set_dest d (x\<lparr>d_waiting := w\<rparr>) m)"
    using same_shape_wf [OF _ assms(1)] by simp
qed

lemma dest_waits_set_dest [simp]:
  "dest_waits (set_dest d x m) d' = (if d' = d then d_waiting x else dest_waits m d')"
  by (simp add: dest_waits_def set_dest_def)

lemma set_dest_simps [simp]:
  "sm_streams (set_dest d x m) = sm_streams m" "sm_calls (set_dest d x m) = sm_calls m"
  "sm_next (set_dest d x m) = sm_next m" "sm_list (set_dest d x m) = sm_list m"
  "sm_dests (set_dest d x m) = (sm_dests m)(d \<mapsto> x)"
  by (simp_all add: set_dest_def)

lemma call_source_simps [simp]:
  "sm_streams (call_source c m) = sm_streams m" "sm_calls (call_source c m) = sm_calls m @ [c]"
  "sm_next (call_source c m) = sm_next m" "sm_list (call_source c m) = sm_list m"
  "sm_dests (call_source c m) = sm_dests m"
  by (simp_all add: call_source_def)

lemma run_state_snoc [simp]:
  "run_state s (calls @ [Set_running s' r]) = (if s' = s then r else run_state s calls)"
  "run_state s (calls @ [New_listener s']) = run_state s calls"
  "run_state s (calls @ [Get_pipe_num s']) = run_state s calls"
  by (simp_all add: run_state_def)

lemma streams_wfD:
  assumes "streams_wf m"
  shows "sm_dests m d = Some x \<Longrightarrow> \<exists>s. sm_streams m (d_stream x) = Some s \<and> d \<in> set (str_dests s)"
    and "sm_streams m i = Some s \<Longrightarrow> d' \<in> set (str_dests s) \<Longrightarrow> \<exists>x. sm_dests m d' = Some x \<and> d_stream x = i"
    and "sm_streams m i = Some s \<Longrightarrow> str_run s = Run_convert p \<Longrightarrow>
      \<exists>x. sm_dests m p = Some x \<and> d_stream x < i \<and> d_proc x = Proc_convert i"
proof -
  show "sm_dests m d = Some x \<Longrightarrow> \<exists>s. sm_streams m (d_stream x) = Some s \<and> d \<in> set (str_dests s)"
    using assms unfolding streams_wf_def by simp
  show "sm_streams m i = Some s \<Longrightarrow> d' \<in> set (str_dests s) \<Longrightarrow> \<exists>x. sm_dests m d' = Some x \<and> d_stream x = i"
    using assms unfolding streams_wf_def by simp
  show "sm_streams m i = Some s \<Longrightarrow> str_run s = Run_convert p \<Longrightarrow>
      \<exists>x. sm_dests m p = Some x \<and> d_stream x < i \<and> d_proc x = Proc_convert i"
    using assms unfolding streams_wf_def by simp
qed

text \<open>
  Setting the flag of a destination passes the change on, along conversions, until it reaches a source
  or a stream with other listeners. When it is called, the streams that convert through \<open>d\<close> already
  have the new state.
\<close>

definition waiting_pre :: "streams \<Rightarrow> nat \<Rightarrow> bool \<Rightarrow> bool" where
  "waiting_pre m d w \<longleftrightarrow> (\<forall>i s. sm_streams m i = Some s \<longrightarrow>
     (if str_run s = Run_convert d then waits m s = w else told m i (str_run s) = waits m s))"

lemma waiting_preD:
  assumes "waiting_pre m d w" "sm_streams m i = Some s"
  shows "str_run s = Run_convert d \<Longrightarrow> waits m s = w"
    and "str_run s \<noteq> Run_convert d \<Longrightarrow> told m i (str_run s) = waits m s"
  using assms(1) [unfolded waiting_pre_def, rule_format, OF assms(2)] by (simp_all split: if_splits)

definition others_kept :: "streams \<Rightarrow> nat \<Rightarrow> streams \<Rightarrow> bool" where
  "others_kept m d m' \<longleftrightarrow> (\<forall>d' x y. sm_dests m d = Some x \<longrightarrow> sm_dests m d' = Some y \<longrightarrow> d' \<noteq> d \<longrightarrow>
     d_stream x \<le> d_stream y \<or> (\<forall>i. d_proc y \<noteq> Proc_convert i) \<longrightarrow> sm_dests m' d' = Some y)"

lemma set_waiting_flag:
  assumes "streams_wf m" "waiting_pre m d w" "sm_dests m d = Some x" "d_waiting x \<noteq> w"
    "sm_streams m (d_stream x) = Some s"
  defines "m1 \<equiv> set_dest d (x\<lparr>d_waiting := w\<rparr>) m"
  shows "waits m1 s = (w \<or> (\<exists>d' \<in> set (str_dests s). d' \<noteq> d \<and> dest_waits m d'))"
    and "\<And>i t. sm_streams m i = Some t \<Longrightarrow> i \<noteq> d_stream x \<Longrightarrow> told m1 i (str_run t) = waits m1 t"
    and "told m1 (d_stream x) (str_run s) = waits m s"
proof -
  have d: "d \<in> set (str_dests s)" using streams_wfD(1) [OF assms(1,3)] assms(5) by simp
  have not_d: "str_run s \<noteq> Run_convert d" using streams_wfD(3) [OF assms(1,5)] assms(3) by fastforce
  show "waits m1 s = (w \<or> (\<exists>d' \<in> set (str_dests s). d' \<noteq> d \<and> dest_waits m d'))"
    using d by (auto simp: waits_def m1_def)
  show "told m1 (d_stream x) (str_run s) = waits m s"
    using waiting_preD(2) [OF assms(2,5) not_d] not_d by (cases "str_run s") (simp_all add: m1_def)
  fix i t assume t: "sm_streams m i = Some t" "i \<noteq> d_stream x"
  then have "d \<notin> set (str_dests t)" using streams_wfD(2) [OF assms(1) t(1)] assms(3) by fastforce
  then have same: "waits m1 t = waits m t" by (auto simp: waits_def m1_def)
  show "told m1 i (str_run t) = waits m1 t"
  proof (cases "str_run t = Run_convert d")
    case True
    with waiting_preD(1) [OF assms(2) t(1)] same show ?thesis by (simp add: m1_def)
  next
    case False
    with waiting_preD(2) [OF assms(2) t(1)] same show ?thesis by (cases "str_run t") (simp_all add: m1_def)
  qed
qed

lemma set_waiting_ok:
  assumes "streams_wf m" "installed m" "sm_dests m d = Some x" "waiting_pre m d w"
  shows "\<exists>m'. set_waiting d w m = Some m' \<and> same_shape m m' \<and> streams_wf m' \<and> balanced m' \<and>
    dest_waits m' d = w \<and> others_kept m d m'"
  using assms
proof (induction "d_stream x" arbitrary: d x m rule: less_induct)
  case less
  obtain s where s: "sm_streams m (d_stream x) = Some s" using streams_wfD(1) [OF less.prems(1,3)] by blast
  show ?case
  proof (cases "d_waiting x = w")
    case True
    have "told m i (str_run t) = waits m t" if "sm_streams m i = Some t" for i t
    proof (cases "str_run t = Run_convert d")
      case conv: True
      with waiting_preD(1) [OF less.prems(4) that] less.prems(3) True show ?thesis by (simp add: dest_waits_def)
    qed (rule waiting_preD(2) [OF less.prems(4) that])
    then have "balanced m" by (simp add: balanced_def)
    moreover have "set_waiting d w m = Some m" using less.prems(3) s True by (subst set_waiting.simps) simp
    ultimately show ?thesis using less.prems(1,3) True by (simp add: dest_waits_def others_kept_def)
  next
    case False
    let ?m1 = "set_dest d (x\<lparr>d_waiting := w\<rparr>) m"
    let ?others = "\<exists>d' \<in> set (str_dests s). dest_waits ?m1 d'"
    note shape = set_dest_wf [OF less.prems(1,3), of w]
    note flag = set_waiting_flag [OF less.prems(1,4,3) False s]
    have d: "d \<in> set (str_dests s)" using streams_wfD(1) [OF less.prems(1,3)] s by simp
    have kept: "others_kept m d ?m1" by (simp add: others_kept_def)
    have "sm_dests ?m1 d' \<noteq> None" if "d' \<in> set (str_dests s)" for d'
      using streams_wfD(2) [OF shape(2) _ that, of "d_stream x"] s by auto
    then have "any_waiting ?m1 (str_dests s) = Some ?others" by (intro any_waiting_waits) blast
    then have eq: "set_waiting d w m =
       (if \<not> w \<and> ?others then Some ?m1
        else case str_run s of Run_null \<Rightarrow> None | Run_source \<Rightarrow> Some (call_source (Set_running (d_stream x) w) ?m1)
          | Run_convert p \<Rightarrow> set_waiting p w ?m1)"
      using less.prems(3) s False by (subst set_waiting.simps, cases w) (simp_all add: Let_def split: run_func.split)
    have w_s: "waits ?m1 s = ?others" by (simp add: waits_def)
    show ?thesis
    proof (cases "\<not> w \<and> ?others")
      case True
      have "dest_waits m d" using True False less.prems(3) by (auto simp: dest_waits_def)
      with d have "waits m s" unfolding waits_def by blast
      have "told ?m1 i (str_run t) = waits ?m1 t" if t: "sm_streams m i = Some t" for i t
      proof (cases "i = d_stream x")
        case True
        then have "t = s" using t s by simp
        have "waits ?m1 s" using \<open>\<not> w \<and> ?others\<close> w_s by blast
        with True flag(3) \<open>waits m s\<close> \<open>t = s\<close> show ?thesis by (simp only:)
      qed (rule flag(2) [OF t])
      then have "balanced ?m1" by (simp add: balanced_def)
      moreover have "set_waiting d w m = Some ?m1" unfolding eq if_P [OF True] ..
      ultimately show ?thesis using shape kept by simp
    next
      case stop: False
      have ws: "waits ?m1 s = w" using stop flag(1) w_s by blast
      note eq' = eq [unfolded if_not_P [OF stop]]
      show ?thesis
      proof (cases "str_run s")
        case Run_null
        with less.prems(2) s show ?thesis by (simp add: installed_def)
      next
        case Run_source
        let ?m2 = "call_source (Set_running (d_stream x) w) ?m1"
        have "same_shape m ?m2" using shape(1) by (simp add: same_shape_def)
        moreover have "streams_wf ?m2"
        proof (rule same_shape_wf [OF \<open>same_shape m ?m2\<close> less.prems(1)])
          show "\<forall>s r. Set_running s r \<in> set (sm_calls ?m2) \<longrightarrow> s < sm_next m"
            using less.prems(1) s unfolding streams_wf_def by simp
        qed
        moreover have "told ?m2 i (str_run t) = waits ?m2 t" if t: "sm_streams m i = Some t" for i t
        proof (cases "i = d_stream x")
          case True
          with t s Run_source ws show ?thesis by (simp add: waits_def dest_waits_def)
        next
          case False
          have "told ?m2 i (str_run t) = told ?m1 i (str_run t)"
            using False by (cases "str_run t") (simp_all add: dest_waits_def)
          with flag(2) [OF t False] show ?thesis by (simp add: waits_def dest_waits_def)
        qed
        then have "balanced ?m2" by (simp add: balanced_def)
        moreover have "others_kept m d ?m2" "dest_waits ?m2 d = w"
          using kept by (simp_all add: others_kept_def dest_waits_def)
        ultimately show ?thesis using eq' Run_source by simp
      next
        case (Run_convert p)
        obtain y where y: "sm_dests m p = Some y" "d_stream y < d_stream x" "d_proc y = Proc_convert (d_stream x)"
          using streams_wfD(3) [OF less.prems(1) s Run_convert] by blast
        then have p: "sm_dests ?m1 p = Some y" "p \<noteq> d" using less.prems(3) by auto
        have "installed ?m1" using less.prems(2) by (simp add: installed_def)
        moreover have "waiting_pre ?m1 p w"
          unfolding waiting_pre_def
        proof (intro allI impI)
          fix i t assume t: "sm_streams ?m1 i = Some t"
          show "if str_run t = Run_convert p then waits ?m1 t = w else told ?m1 i (str_run t) = waits ?m1 t"
          proof (cases "i = d_stream x")
            case True
            with t s Run_convert ws show ?thesis by simp
          next
            case False
            have "str_run t \<noteq> Run_convert p"
              using streams_wfD(3) [OF less.prems(1), of i t p] t y(1,3) False by auto
            with flag(2) [of i t] t False show ?thesis by simp
          qed
        qed
        ultimately obtain m' where m': "set_waiting p w ?m1 = Some m'" "same_shape ?m1 m'" "streams_wf m'"
          "balanced m'" "dest_waits m' p = w" "others_kept ?m1 p m'"
          using less.hyps [OF y(2) shape(2) _ p(1)] by blast
        have "sm_dests m' d = Some (x\<lparr>d_waiting := w\<rparr>)"
          using m'(6) [unfolded others_kept_def, rule_format, OF p(1), of d "x\<lparr>d_waiting := w\<rparr>"] p(2) y(2) by simp
        then have "dest_waits m' d = w" by (simp add: dest_waits_def)
        moreover have "others_kept m d m'"
          unfolding others_kept_def
        proof (intro allI impI)
          fix d' z y'
          assume z: "sm_dests m d = Some z" "sm_dests m d' = Some y'" "d' \<noteq> d"
            "d_stream z \<le> d_stream y' \<or> (\<forall>i. d_proc y' \<noteq> Proc_convert i)"
          with y less.prems(3) have "d' \<noteq> p" by auto
          moreover have "d_stream y \<le> d_stream y' \<or> (\<forall>i. d_proc y' \<noteq> Proc_convert i)"
            using z y(2) less.prems(3) by auto
          moreover have "sm_dests ?m1 d' = Some y'" using z(2,3) by simp
          ultimately show "sm_dests m' d' = Some y'"
            using m'(6) [unfolded others_kept_def, rule_format, OF p(1)] by blast
        qed
        ultimately show ?thesis using m'(1-4) eq' Run_convert same_shape_trans [OF shape(1) m'(2)] by simp
      qed
    qed
  qed
qed

definition streams_ok :: "streams \<Rightarrow> bool" where
  "streams_ok m \<longleftrightarrow> streams_wf m \<and> installed m \<and> balanced m"

definition user_dest :: "streams \<Rightarrow> nat \<Rightarrow> bool" where
  "user_dest m d \<longleftrightarrow> (\<exists>x. sm_dests m d = Some x \<and> (\<forall>i. d_proc x \<noteq> Proc_convert i))"

lemma user_waiting_pre:
  assumes "streams_wf m" "balanced m" "user_dest m d"
  shows "waiting_pre m d w"
  unfolding waiting_pre_def
proof (intro allI impI)
  fix i s assume s: "sm_streams m i = Some s"
  have "str_run s \<noteq> Run_convert d"
    using streams_wfD(3) [OF assms(1) s, of d] assms(3) by (auto simp: user_dest_def)
  with assms(2) s show "if str_run s = Run_convert d then waits m s = w else told m i (str_run s) = waits m s"
    by (simp add: balanced_def)
qed

lemma set_waiting_user:
  assumes "streams_ok m" "user_dest m d"
  shows "\<exists>m'. set_waiting d w m = Some m' \<and> streams_ok m' \<and> same_shape m m' \<and> dest_waits m' d = w \<and> others_kept m d m'"
proof -
  obtain x where x: "sm_dests m d = Some x" using assms(2) by (auto simp: user_dest_def)
  have ok: "streams_wf m" "installed m" "balanced m" using assms(1) by (simp_all add: streams_ok_def)
  obtain m' where m': "set_waiting d w m = Some m'" "same_shape m m'" "streams_wf m'" "balanced m'"
    "dest_waits m' d = w" "others_kept m d m'"
    using set_waiting_ok [OF ok(1,2) x user_waiting_pre [OF ok(1,3) assms(2)]] by blast
  then have "installed m'" using ok(2) by (simp add: installed_def same_shape_def)
  with m' show ?thesis by (simp add: streams_ok_def)
qed

lemma call_source_ok:
  assumes "streams_ok m" "c = New_listener s \<or> c = Get_pipe_num s"
  shows "streams_ok (call_source c m)" "same_shape m (call_source c m)"
proof -
  show shape: "same_shape m (call_source c m)" by (simp add: same_shape_def)
  have "\<forall>s r. Set_running s r \<in> set (sm_calls (call_source c m)) \<longrightarrow> s < sm_next m"
    using assms unfolding streams_ok_def streams_wf_def by auto
  then have "streams_wf (call_source c m)"
    using same_shape_wf [OF shape] assms(1) by (simp add: streams_ok_def)
  moreover have "told (call_source c m) i r = told m i r" for i r
    using assms(2) by (cases r) (auto simp: dest_waits_def)
  moreover have "waits (call_source c m) x = waits m x" for x by (simp add: waits_def dest_waits_def)
  ultimately show "streams_ok (call_source c m)"
    using assms(1) by (simp add: streams_ok_def balanced_def installed_def)
qed

subsection \<open>All sequences of operations\<close>

text \<open>Creating a source, connecting to a stream by name, and starting or ending to wait.\<close>

datatype stream_op = Op_source string int bool bool | Op_connect string dest_proc "int list" | Op_wait nat bool

fun stream_step :: "stream_op \<Rightarrow> streams \<Rightarrow> streams option" where
  "stream_step (Op_source name format notify pipe) m = do {
     (s, m) \<leftarrow> new_stream name format m;
     install_source s notify pipe m
   }"
| "stream_step (Op_connect name p formats) m = map_option snd (connect_to_stream name p formats m)"
| "stream_step (Op_wait d w) m = set_waiting d w m"

fun valid_op :: "streams \<Rightarrow> stream_op \<Rightarrow> bool" where
  "valid_op m (Op_source name format notify pipe) \<longleftrightarrow> length name < 256"
| "valid_op m (Op_connect name p formats) \<longleftrightarrow> (\<forall>i. p \<noteq> Proc_convert i)"
| "valid_op m (Op_wait d w) \<longleftrightarrow> user_dest m d"

inductive stream_reach :: "streams \<Rightarrow> bool" where
  reach_none: "stream_reach no_streams"
| reach_step: "stream_reach m \<Longrightarrow> valid_op m op \<Longrightarrow> stream_step op m = Some m' \<Longrightarrow> stream_reach m'"

lemma run_state_fresh:
  "\<forall>r. Set_running s r \<notin> set calls \<Longrightarrow> run_state s calls = False"
proof (induction calls rule: rev_induct)
  case (snoc c calls)
  then have IH: "\<not> run_state s calls" by simp
  show ?case
  proof (cases c)
    case (Set_running s' r)
    with snoc.prems have "s' \<noteq> s" by auto
    with Set_running IH show ?thesis by simp
  qed (use IH in simp_all)
qed (simp add: run_state_def)

text \<open>Adding a destination, and adding a stream that nobody listens to.\<close>

lemma add_dest_ok:
  assumes "streams_ok m" "sm_streams m s = Some x" "sm_next m \<le> d"
  shows "streams_ok (set_stream s (x\<lparr>str_dests := d # str_dests x\<rparr>)
    (set_dest d \<lparr>d_stream = s, d_waiting = False, d_proc = p\<rparr> (m\<lparr>sm_next := Suc d\<rparr>)))" (is "streams_ok ?m")
proof -
  have wf: "streams_wf m" "installed m" "balanced m" using assms(1) by (simp_all add: streams_ok_def)
  have lt: "d' < sm_next m" if "sm_dests m d' = Some y" for d' y
    using wf(1) that unfolding streams_wf_def by blast
  then have new: "sm_dests m d = None" using assms(3) by (metis not_None_eq not_le)
  have st: "sm_streams ?m = (sm_streams m)(s \<mapsto> x\<lparr>str_dests := d # str_dests x\<rparr>)"
    "sm_dests ?m = (sm_dests m)(d \<mapsto> \<lparr>d_stream = s, d_waiting = False, d_proc = p\<rparr>)"
    "sm_next ?m = Suc d" "sm_list ?m = sm_list m" "sm_calls ?m = sm_calls m"
    by (simp_all add: set_stream_def)
  have dw: "dest_waits ?m d' = dest_waits m d'" for d'
    using new by (simp add: dest_waits_def st)
  have told: "told ?m i r = told m i r" for i r by (cases r) (simp_all add: st dw)
  have ws: "waits ?m y = waits m y" for y by (simp add: waits_def dw)
  have wx: "waits m (x\<lparr>str_dests := d # str_dests x\<rparr>) = waits m x"
    using new by (auto simp: waits_def dest_waits_def)
  have "streams_wf ?m"
    unfolding streams_wf_def
  proof (intro conjI allI impI)
    fix d' y assume y: "sm_dests ?m d' = Some y"
    show "d' < sm_next ?m" using y lt assms(3) by (auto simp: st split: if_splits dest!: lt)
    show "\<exists>s. sm_streams ?m (d_stream y) = Some s \<and> d' \<in> set (str_dests s)"
      using y streams_wfD(1) [OF wf(1), of d' y] assms(2) by (auto simp: st split: if_splits)
  next
    fix i t assume t: "sm_streams ?m i = Some t"
    then obtain t0 where t0: "sm_streams m i = Some t0" "str_run t = str_run t0"
      "set (str_dests t) = (if i = s then insert d (set (str_dests t0)) else set (str_dests t0))"
      using assms(2) by (auto simp: st split: if_splits)
    show "i < sm_next ?m" using t0 wf(1) assms(3) unfolding streams_wf_def st by fastforce
    show "\<forall>d \<in> set (str_dests t). \<exists>x. sm_dests ?m d = Some x \<and> d_stream x = i"
    proof
      fix d' assume d': "d' \<in> set (str_dests t)"
      show "\<exists>x. sm_dests ?m d' = Some x \<and> d_stream x = i"
      proof (cases "i = s \<and> d' = d")
        case False
        then have "d' \<in> set (str_dests t0)" using d' t0(3) by (auto split: if_splits)
        then obtain z where "sm_dests m d' = Some z" "d_stream z = i" using streams_wfD(2) [OF wf(1) t0(1)] by blast
        with new show ?thesis by (auto simp: st)
      qed (simp add: st)
    qed
    fix q assume "str_run t = Run_convert q"
    with t0 streams_wfD(3) [OF wf(1) t0(1), of q] new
    show "\<exists>x. sm_dests ?m q = Some x \<and> d_stream x < i \<and> d_proc x = Proc_convert i" by (auto simp: st)
  next
    show "set (sm_list ?m) \<subseteq> {i. sm_streams ?m i \<noteq> None}"
      using wf(1) unfolding streams_wf_def st by auto
    fix i r assume "Set_running i r \<in> set (sm_calls ?m)"
    then show "i < sm_next ?m" using wf(1) assms(3) unfolding streams_wf_def st by fastforce
  qed
  moreover have "installed ?m" using wf(2) assms(2) by (auto simp: installed_def st)
  moreover have "balanced ?m" using wf(3) assms(2) by (auto simp: balanced_def st told ws wx)
  ultimately show ?thesis by (simp add: streams_ok_def)
qed

lemma add_stream_ok:
  assumes "streams_ok m" "sm_streams m i = None" "\<forall>r. Set_running i r \<notin> set (sm_calls m)"
    "i < n" "sm_next m \<le> n" "str_dests y = []" "set l \<subseteq> insert i (set (sm_list m))"
    "str_run y = Run_source \<or> (\<exists>p x. str_run y = Run_convert p \<and> sm_dests m p = Some x \<and> d_stream x < i \<and>
       d_proc x = Proc_convert i \<and> \<not> d_waiting x)"
  shows "streams_ok ((set_stream i y m)\<lparr>sm_next := n, sm_list := l\<rparr>)" (is "streams_ok ?m")
proof -
  have wf: "streams_wf m" "installed m" "balanced m" using assms(1) by (simp_all add: streams_ok_def)
  have st: "sm_streams ?m = (sm_streams m)(i \<mapsto> y)" "sm_dests ?m = sm_dests m" "sm_next ?m = n" "sm_list ?m = l"
    "sm_calls ?m = sm_calls m"
    by (simp_all add: set_stream_def)
  have dw: "dest_waits ?m d' = dest_waits m d'" for d' by (simp add: dest_waits_def st)
  have told: "told ?m j r = told m j r" for j r by (cases r) (simp_all add: st dw)
  have ws: "waits ?m t = waits m t" for t by (simp add: waits_def dw)
  have "streams_wf ?m"
    unfolding streams_wf_def
  proof (intro conjI allI impI)
    fix d' x assume x: "sm_dests ?m d' = Some x"
    show "d' < sm_next ?m" using x wf(1) assms(5) unfolding streams_wf_def st by fastforce
    show "\<exists>s. sm_streams ?m (d_stream x) = Some s \<and> d' \<in> set (str_dests s)"
      using x streams_wfD(1) [OF wf(1), of d' x] assms(2) by (auto simp: st)
  next
    fix j t assume t: "sm_streams ?m j = Some t"
    show "j < sm_next ?m"
      using t assms(4,5) wf(1) unfolding streams_wf_def st by (fastforce split: if_splits)
    show "\<forall>d \<in> set (str_dests t). \<exists>x. sm_dests ?m d = Some x \<and> d_stream x = j"
      using t streams_wfD(2) [OF wf(1), of j t] assms(6) by (auto simp: st split: if_splits)
    fix q assume "str_run t = Run_convert q"
    with t streams_wfD(3) [OF wf(1), of j t q] assms(8)
    show "\<exists>x. sm_dests ?m q = Some x \<and> d_stream x < j \<and> d_proc x = Proc_convert j"
      by (auto simp: st split: if_splits)
  next
    show "set (sm_list ?m) \<subseteq> {i. sm_streams ?m i \<noteq> None}"
      using wf(1) assms(7) unfolding streams_wf_def st by auto
    fix s r assume "Set_running s r \<in> set (sm_calls ?m)"
    then show "s < sm_next ?m" using wf(1) assms(5) unfolding streams_wf_def st by fastforce
  qed
  moreover have "installed ?m" using wf(2) assms(8) by (auto simp: installed_def st)
  moreover have "told m i (str_run y) = waits m y"
    using assms(3,6,8) by (auto simp: waits_def run_state_fresh dest_waits_def)
  then have "balanced ?m" using wf(3) by (auto simp: balanced_def st told ws)
  ultimately show ?thesis by (simp add: streams_ok_def)
qed

lemma find_stream_total:
  assumes "set ss \<subseteq> {i. sm_streams m i \<noteq> None}"
  shows "\<exists>r. find_stream m P ss = Some r \<and> (\<forall>s. r = Some s \<longrightarrow> (\<exists>x. sm_streams m s = Some x \<and> P x))"
  using assms by (induction ss) auto

lemma new_dest_total:
  assumes "streams_ok m" "sm_streams m s = Some x"
  shows "\<exists>d m'. new_dest s p m = Some (d, m') \<and> streams_ok m'"
  using assms add_dest_ok [OF assms order_refl] by (simp add: new_dest_def Let_def)

lemma new_convert_total:
  assumes "streams_ok m" "sm_streams m base = Some b"
  shows "\<exists>c m' y. new_convert_stream base format m = Some (c, m') \<and> streams_ok m' \<and> sm_streams m' c = Some y"
proof -
  let ?s = "sm_next m"
  let ?d = "Suc ?s"
  let ?l = "insert_after base ?s (sm_list m)"
  let ?m1 = "set_stream base (b\<lparr>str_dests := ?d # str_dests b\<rparr>)
    (set_dest ?d \<lparr>d_stream = base, d_waiting = False, d_proc = Proc_convert ?s\<rparr> (m\<lparr>sm_next := Suc ?d\<rparr>))"
  let ?y = "\<lparr>str_name = str_name b, str_format = format, str_dests = [], str_run = Run_convert ?d,
    str_notify = Fn_garbage, str_enc_pipe = Fn_garbage\<rparr>"
  have wf: "streams_wf m" using assms(1) by (simp add: streams_ok_def)
  have base: "base < ?s" using wf assms(2) unfolding streams_wf_def by blast
  have m1: "streams_ok ?m1" by (rule add_dest_ok [OF assms]) simp
  have "sm_streams m ?s = None"
    using wf unfolding streams_wf_def by (metis less_irrefl not_None_eq)
  then have "sm_streams ?m1 ?s = None" using base by (simp add: set_stream_def)
  moreover have "\<forall>r. Set_running ?s r \<notin> set (sm_calls ?m1)"
    using wf unfolding streams_wf_def by (auto simp: set_stream_def)
  moreover have "set ?l \<subseteq> insert ?s (set (sm_list ?m1))"
  proof -
    have "set (insert_after a i xs) \<subseteq> insert i (set xs)" for a i xs by (induction xs) auto
    then show ?thesis by (simp add: set_stream_def)
  qed
  ultimately have ok: "streams_ok ((set_stream ?s ?y ?m1)\<lparr>sm_next := Suc ?d, sm_list := ?l\<rparr>)"
    by (intro add_stream_ok [OF m1]) (use base in \<open>simp_all add: set_stream_def\<close>)
  moreover have "new_convert_stream base format m = Some (?s, (set_stream ?s ?y ?m1)\<lparr>sm_next := Suc ?d, sm_list := ?l\<rparr>)"
    using assms(2) by (simp add: new_convert_stream_def new_dest_def Let_def set_stream_def set_dest_def)
  ultimately show ?thesis by (auto simp: set_stream_def)
qed

lemma stream_step_ok:
  assumes "streams_ok m" "valid_op m op"
  shows "\<exists>m'. stream_step op m = Some m' \<and> streams_ok m'"
proof (cases op)
  case (Op_source name format notify pipe)
  let ?s = "sm_next m"
  let ?y = "\<lparr>str_name = name, str_format = format, str_dests = [], str_run = Run_source,
    str_notify = (if notify then Fn_source else Fn_null), str_enc_pipe = (if pipe then Fn_source else Fn_null)\<rparr>"
  have wf: "streams_wf m" using assms(1) by (simp add: streams_ok_def)
  have "sm_streams m ?s = None" using wf unfolding streams_wf_def by (metis less_irrefl not_None_eq)
  moreover have "\<forall>r. Set_running ?s r \<notin> set (sm_calls m)" using wf unfolding streams_wf_def by blast
  ultimately have "streams_ok ((set_stream ?s ?y m)\<lparr>sm_next := Suc ?s, sm_list := ?s # sm_list m\<rparr>)"
    by (intro add_stream_ok [OF assms(1)]) auto
  moreover have "stream_step op m = Some ((set_stream ?s ?y m)\<lparr>sm_next := Suc ?s, sm_list := ?s # sm_list m\<rparr>)"
    using assms(2) Op_source by (simp add: new_stream_def install_source_def set_stream_def Let_def)
  ultimately show ?thesis by blast
next
  case (Op_connect name p formats)
  have dom: "set (sm_list m) \<subseteq> {i. sm_streams m i \<noteq> None}"
    using assms(1) unfolding streams_ok_def streams_wf_def by blast
  let ?P = "\<lambda>x. str_name x = name \<and> format_match (str_format x) formats"
  let ?Q = "\<lambda>x. str_name x = name \<and> str_format x = FORMAT_RAW_UYVY \<and> format_match FORMAT_RAW_RGB24 formats"
  obtain r where r: "find_stream m ?P (sm_list m) = Some r" "\<forall>s. r = Some s \<longrightarrow> (\<exists>x. sm_streams m s = Some x \<and> ?P x)"
    using find_stream_total [OF dom, of ?P] by blast
  obtain q where q: "find_stream m ?Q (sm_list m) = Some q" "\<forall>s. q = Some s \<longrightarrow> (\<exists>x. sm_streams m s = Some x \<and> ?Q x)"
    using find_stream_total [OF dom, of ?Q] by blast
  show ?thesis
  proof (cases r)
    case (Some s)
    with r(2) obtain x where "sm_streams m s = Some x" by blast
    from new_dest_total [OF assms(1) this, of p] obtain d m' where "new_dest s p m = Some (d, m')" "streams_ok m'" by blast
    with Some r(1) Op_connect show ?thesis by (simp add: connect_to_stream_def)
  next
    case r_None: None
    show ?thesis
    proof (cases q)
      case None
      with r_None r(1) q(1) Op_connect assms(1) show ?thesis by (simp add: connect_to_stream_def)
    next
      case (Some s)
      with q(2) obtain x where "sm_streams m s = Some x" by blast
      from new_convert_total [OF assms(1) this, of FORMAT_RAW_RGB24] obtain c m1 y where
        1: "new_convert_stream s FORMAT_RAW_RGB24 m = Some (c, m1)" "streams_ok m1" "sm_streams m1 c = Some y" by blast
      from new_dest_total [OF 1(2,3), of p] obtain d m' where "new_dest c p m1 = Some (d, m')" "streams_ok m'" by blast
      with 1(1) Some r_None r(1) q(1) Op_connect show ?thesis by (simp add: connect_to_stream_def)
    qed
  qed
next
  case (Op_wait d w)
  with assms set_waiting_user [OF assms(1), of d w] show ?thesis by auto
qed

lemma stream_reach_ok: "stream_reach m \<Longrightarrow> streams_ok m"
proof (induction rule: stream_reach.induct)
  case reach_none
  show ?case by (simp add: streams_ok_def streams_wf_def installed_def balanced_def no_streams_def)
next
  case (reach_step m op m')
  with stream_step_ok [of m op] show ?case by auto
qed

text \<open>
  C29: after any sequence of creating sources, connecting to streams, converting ones included, and
  changing who waits, every further operation is defined, and what a source was told last is whether
  some destination of its stream waits; likewise a conversion waits for its base stream exactly while
  somebody waits for the converted one.
\<close>

theorem source_runs_while_waiting:
  assumes "stream_reach m"
  shows "(\<forall>op. valid_op m op \<longrightarrow> stream_step op m \<noteq> None) \<and>
    (\<forall>s x. sm_streams m s = Some x \<longrightarrow> str_run x = Run_source \<longrightarrow> run_state s (sm_calls m) = waits m x) \<and>
    (\<forall>s x p. sm_streams m s = Some x \<longrightarrow> str_run x = Run_convert p \<longrightarrow> dest_waits m p = waits m x)"
proof -
  note ok = stream_reach_ok [OF assms]
  have "stream_step op m \<noteq> None" if "valid_op m op" for op using stream_step_ok [OF ok that] by auto
  moreover have "told m s (str_run x) = waits m x" if "sm_streams m s = Some x" for s x
    using ok that by (simp add: streams_ok_def balanced_def)
  ultimately show ?thesis by (metis told.simps(2,3))
qed

text \<open>A source of raw frames whose only listener wants another format: the states of a run.\<close>

definition demo_stream :: "nat list \<Rightarrow> stream" where
  "demo_stream ds = \<lparr>str_name = ''cam'', str_format = FORMAT_RAW_UYVY, str_dests = ds, str_run = Run_source,
     str_notify = Fn_null, str_enc_pipe = Fn_null\<rparr>"

definition demo_convert :: stream where
  "demo_convert = \<lparr>str_name = ''cam'', str_format = FORMAT_RAW_RGB24, str_dests = [3], str_run = Run_convert 2,
     str_notify = Fn_garbage, str_enc_pipe = Fn_garbage\<rparr>"

definition demo_source :: streams where
  "demo_source = \<lparr>sm_list = [0], sm_streams = [0 \<mapsto> demo_stream []], sm_dests = Map.empty, sm_next = 1, sm_calls = []\<rparr>"

definition demo_streams :: "bool \<Rightarrow> streams" where
  "demo_streams w = \<lparr>sm_list = [0, 1], sm_streams = [0 \<mapsto> demo_stream [2], 1 \<mapsto> demo_convert],
     sm_dests = [2 \<mapsto> \<lparr>d_stream = 0, d_waiting = w, d_proc = Proc_convert 1\<rparr>,
                 3 \<mapsto> \<lparr>d_stream = 1, d_waiting = w, d_proc = Proc_encoder 0\<rparr>],
     sm_next = 4, sm_calls = (if w then [Set_running 0 True] else [])\<rparr>"

lemmas demo_defs = demo_stream_def demo_convert_def demo_source_def demo_streams_def set_stream_def set_dest_def
  FORMAT_RAW_UYVY_def FORMAT_RAW_RGB24_def Let_def

lemma demo_reach: "stream_reach (demo_streams True)"
proof -
  have "stream_step (Op_source ''cam'' FORMAT_RAW_UYVY False False) no_streams = Some demo_source"
    by (simp add: demo_defs new_stream_def install_source_def no_streams_def)
  then have 1: "stream_reach demo_source" by (rule reach_step [OF reach_none, rotated]) simp
  have "stream_step (Op_connect ''cam'' (Proc_encoder 0) [FORMAT_RAW_RGB24]) demo_source = Some (demo_streams False)"
    by (simp add: demo_defs connect_to_stream_def format_match_def new_convert_stream_def new_dest_def
        numeral_2_eq_2 numeral_3_eq_3 eval_nat_numeral fun_upd_def fun_eq_iff)
  then have 2: "stream_reach (demo_streams False)" by (rule reach_step [OF 1, rotated]) simp
  have "set_waiting 2 True (set_dest 3 \<lparr>d_stream = 1, d_waiting = True, d_proc = Proc_encoder 0\<rparr> (demo_streams False)) =
      Some (demo_streams True)"
    by (subst set_waiting.simps) (simp add: demo_defs call_source_def fun_upd_def fun_eq_iff)
  then have "stream_step (Op_wait 3 True) (demo_streams False) = Some (demo_streams True)"
    by (simp, subst set_waiting.simps) (simp add: demo_defs)
  then show ?thesis by (rule reach_step [OF 2, rotated]) (simp add: user_dest_def demo_streams_def)
qed

theorem source_runs_while_waiting_witness:
  "run_state 0 (sm_calls (demo_streams True)) = waits (demo_streams True) (demo_stream [2]) \<and>
   waits (demo_streams True) (demo_stream [2])"
proof -
  have "sm_streams (demo_streams True) 0 = Some (demo_stream [2])" "str_run (demo_stream [2]) = Run_source"
    by (simp_all add: demo_streams_def demo_stream_def)
  with source_runs_while_waiting [OF demo_reach] show ?thesis
    by (simp add: waits_def demo_stream_def dest_waits_def demo_streams_def)
qed


end
