(* ===== verification/Udp.thy ===== *)
theory Udp
  imports Rtp "HOL-Library.Multiset"
begin

text \<open>
  The UDP transport of an endpoint (rtp.c): the configured port range and \<open>connect_udp_endpoint\<close>,
  which looks for a free pair of neighbouring ports. What the system answers (\<open>random\<close>, \<open>socket\<close>,
  \<open>bind\<close>, \<open>connect\<close>, \<open>getsockname\<close>) is an argument; the descriptors that were opened and closed are
  part of the result.
\<close>

subsection \<open>The port range\<close>

text \<open>\<open>config_rtprange\<close> with the two numbers of the directive; \<^term>\<open>None\<close> is the exit of the program.\<close>

definition config_rtprange :: "int \<Rightarrow> int \<Rightarrow> (int \<times> int) option" where
  "config_rtprange a b =
     (let start = (if odd a then a + 1 else a);
          last_port = (if even b then b - 1 else b)
      in if last_port - start + 1 < 8 then None else Some (start, last_port))"

definition default_rtprange :: "int \<times> int" where
  "default_rtprange = (50000, 60000)"

subsection \<open>Finding a pair of ports\<close>
















subsection \<open>Ports and descriptors\<close>

definition range_ok :: "int \<times> int \<Rightarrow> bool" where
  "range_ok r \<longleftrightarrow> even (fst r) \<and> 0 < fst r \<and> fst r + 7 \<le> snd r"

lemma config_rtprange_ok: "config_rtprange a b = Some r \<Longrightarrow> 0 < a \<Longrightarrow> range_ok r"
  by (auto simp: config_rtprange_def range_ok_def Let_def split: if_splits)











end
