(* ===== verification/Spec2Isabelle.thy ===== *)
theory Spec2Isabelle
  imports Exchanger Event Conn RtpAudio RtpVideo RtpJpeg HttpAuth Rtcp Streams Udp
begin

text \<open>
  Verification of the WisCam streaming server (src/sources/applications/RTSPServer).
\<close>

end
